theory Spec2Isabelle
  imports Main "HOL-Library.Word" "HOL-Library.AList"
begin

section \<open>Data model (suffix\_tree.hpp)\<close>

text \<open>
  All indices into the text are \<open>uint32_t\<close>. Nodes are heap objects that are
  never freed while the tree lives, so a pointer is the index of the object in the list of
  all objects of its class, and \<open>nullptr\<close> is \<open>None\<close>.

  A \<open>LeafNode\<close> holds \<open>start\<close> and an \<open>end_ptr\<close> that always is
  \<open>&global_end\<close>; it is the base record \<open>node\<close>. An \<open>InternalNode\<close>
  extends \<open>Node\<close> by the fields below. A \<open>std::unordered_map<char, _>\<close>
  is an association list with one entry per key; its iteration order (unspecified in C++)
  is the list order.
\<close>

type_synonym u32 = "32 word"

record node =
  start :: u32

record inode = node +
  end_idx :: u32
  internal_children :: "(char \<times> nat) list"
  leaf_children :: "(char \<times> nat) list"
  suffix_link :: "nat option"
  weiner_links :: "nat list"
  nf :: u32

record suffix_tree =
  "txt" :: string
  inodes :: "inode list"
  leaves :: "node list"
  need_link :: "nat option"
  global_end :: u32
  remainder :: u32
  active_node :: nat
  active_edge :: u32
  active_length :: u32

text \<open>
  The tree stores no parent pointers and no string depths. The statements about the
  construction (section ``What the construction maintains'') speak of them through three
  functions that are not part of the program state: \<open>dep v\<close>, the length of the string
  spelled from the root to the internal node \<open>v\<close>; \<open>par v\<close>, the parent of the
  internal node \<open>v\<close>; and \<open>lpar l\<close>, the parent of the leaf \<open>l\<close>.
\<close>

record ghost =
  dep :: "nat \<Rightarrow> nat"
  par :: "nat \<Rightarrow> nat"
  lpar :: "nat \<Rightarrow> nat"

text \<open>\<open>root\<close> is the first internal node allocated by the constructor.\<close>

definition root :: nat where
  "root = 0"

text \<open>
  \<open>txt[i]\<close> on a \<open>std::string_view\<close>: reading at or beyond \<open>size()\<close> has no
  defined result (\<open>None\<close>).
\<close>

definition char_at :: "string \<Rightarrow> u32 \<Rightarrow> char option" where
  "char_at s i = (if unat i < length s then Some (s ! unat i) else None)"

text \<open>
  \<open>sv.substr(pos, n)\<close>: throws \<open>std::out_of_range\<close> when \<open>pos > size()\<close>
  (\<open>None\<close>), otherwise the at most \<open>n\<close> characters from \<open>pos\<close> on.
\<close>

definition substr :: "string \<Rightarrow> nat \<Rightarrow> nat \<Rightarrow> string option" where
  "substr s pos n = (if pos > length s then None else Some (take n (drop pos s)))"

text \<open>\<open>LeafNode::edge_length\<close> and \<open>InternalNode::edge_length\<close>.\<close>

definition leaf_edge_length :: "suffix_tree \<Rightarrow> node \<Rightarrow> u32" where
  "leaf_edge_length t l = global_end t - start l"

definition edge_length :: "inode \<Rightarrow> u32" where
  "edge_length v = end_idx v - start v"

definition new_inode :: "u32 \<Rightarrow> u32 \<Rightarrow> inode" where
  "new_inode i j = \<lparr>start = i, end_idx = j, internal_children = [], leaf_children = [],
     suffix_link = None, weiner_links = [], nf = 0\<rparr>"

section \<open>Ukkonen's algorithm (suffix\_tree.cpp, lines 164--320)\<close>

text \<open>\<open>SuffixTree::add_links\<close>.\<close>

definition add_links :: "nat \<Rightarrow> suffix_tree \<Rightarrow> suffix_tree" where
  "add_links nd t =
     (case need_link t of
        None \<Rightarrow> t
      | Some nl \<Rightarrow>
          let ns = (inodes t)[nl := (inodes t ! nl)\<lparr>suffix_link := Some nd\<rparr>];
              wls = weiner_links (ns ! nd)
          in t\<lparr>inodes :=
                 (if nl \<in> set wls then ns
                  else ns[nd := (ns ! nd)\<lparr>weiner_links := wls @ [nl]\<rparr>])\<rparr>)
     \<lparr>need_link := Some nd\<rparr>"

text \<open>Rule 2b (lines 182--186): a new leaf below \<open>active_node\<close>.\<close>

definition rule_2b :: "u32 \<Rightarrow> char \<Rightarrow> suffix_tree \<Rightarrow> suffix_tree" where
  "rule_2b k c t =
     (let an = active_node t; leaf = length (leaves t);
          a = inodes t ! an
      in add_links an
           (t\<lparr>leaves := leaves t @ [\<lparr>start = k\<rparr>],
              inodes := (inodes t)[an := a\<lparr>leaf_children := AList.update c leaf (leaf_children a)\<rparr>]\<rparr>))"

text \<open>
  Rule 2a on an edge to a leaf (lines 222--237); \<open>c\<close> is \<open>txt[active_edge]\<close>, the
  key under which the leaf \<open>nd\<close> was found.
\<close>

definition split_leaf :: "u32 \<Rightarrow> char \<Rightarrow> nat \<Rightarrow> suffix_tree \<Rightarrow> suffix_tree option" where
  "split_leaf k c nd t =
     (let prev_start = start (leaves t ! nd);
          nd_start = prev_start + active_length t;
          internal_node = length (inodes t);
          leaf = length (leaves t);
          an = active_node t
      in case char_at (txt t) k of
           None \<Rightarrow> None
         | Some ck \<Rightarrow>
         (case char_at (txt t) nd_start of
           None \<Rightarrow> None
         | Some cn \<Rightarrow>
             let m = (new_inode prev_start nd_start)
                       \<lparr>leaf_children := AList.update cn nd (AList.update ck leaf [])\<rparr>;
                 ns = inodes t @ [m];
                 a = ns ! an;
                 a1 = a\<lparr>internal_children := AList.update c internal_node (internal_children a)\<rparr>;
                 a2 = a1\<lparr>leaf_children := AList.delete c (leaf_children a1)\<rparr>
             in Some (add_links internal_node
                  (t\<lparr>leaves := (leaves t)[nd := (leaves t ! nd)\<lparr>start := nd_start\<rparr>] @ [\<lparr>start = k\<rparr>],
                     inodes := ns[an := a2]\<rparr>))))"

text \<open>Rule 2a on an edge to an internal node (lines 238--252).\<close>

definition split_internal :: "u32 \<Rightarrow> char \<Rightarrow> nat \<Rightarrow> suffix_tree \<Rightarrow> suffix_tree option" where
  "split_internal k c nd t =
     (let prev_start = start (inodes t ! nd);
          nd_start = prev_start + active_length t;
          internal_node = length (inodes t);
          leaf = length (leaves t);
          an = active_node t
      in case char_at (txt t) k of
           None \<Rightarrow> None
         | Some ck \<Rightarrow>
         (case char_at (txt t) nd_start of
           None \<Rightarrow> None
         | Some cn \<Rightarrow>
             let ns0 = (inodes t)[nd := (inodes t ! nd)\<lparr>start := nd_start\<rparr>];
                 m = (new_inode prev_start nd_start)
                       \<lparr>leaf_children := AList.update ck leaf [],
                        internal_children := AList.update cn nd []\<rparr>;
                 ns = ns0 @ [m];
                 a = ns ! an
             in Some (add_links internal_node
                  (t\<lparr>leaves := leaves t @ [\<lparr>start = k\<rparr>],
                     inodes := ns[an := a\<lparr>internal_children :=
                                  AList.update c internal_node (internal_children a)\<rparr>]\<rparr>))))"

text \<open>
  Lines 254--270: one suffix has been inserted; move the active point to the next one.
\<close>

definition next_suffix :: "u32 \<Rightarrow> suffix_tree \<Rightarrow> suffix_tree" where
  "next_suffix k t0 =
     (let t = t0\<lparr>remainder := remainder t0 - 1\<rparr>
      in if active_node t = root \<and> active_length t > 0
         then t\<lparr>active_length := active_length t - 1,
                active_edge := k - remainder t + 1\<rparr>
         else (case suffix_link (inodes t ! active_node t) of
                 Some v \<Rightarrow> t\<lparr>active_node := v\<rparr>
               | None \<Rightarrow> t\<lparr>active_node := root\<rparr>))"

text \<open>
  The body of the \<open>while (remainder > 0)\<close> loop of \<open>SuffixTree::extend\<close>
  (lines 169--270). Its result says how control leaves the body: \<open>Break\<close> for the
  \<open>break\<close> of rule 3, \<open>Continue\<close> for the \<open>continue\<close> of the walk down and
  for reaching the end of the body, \<open>Abort\<close> for a failed \<open>assert\<close> or a read
  outside the text.
\<close>

datatype loop_ctl = Abort | Break suffix_tree | Continue suffix_tree

definition extend_body :: "u32 \<Rightarrow> suffix_tree \<Rightarrow> loop_ctl" where
  "extend_body k t0 =
     (let t = (if active_length t0 = 0 then t0\<lparr>active_edge := k\<rparr> else t0)
      in case char_at (txt t) (active_edge t) of
           None \<Rightarrow> Abort
         | Some c \<Rightarrow>
             (let a = inodes t ! active_node t;
                  node_leaf = map_of (leaf_children a) c;
                  node_internal = map_of (internal_children a) c
              in if node_leaf \<noteq> None \<and> node_internal \<noteq> None then Abort
                 else if node_leaf = None \<and> node_internal = None
                 then Continue (next_suffix k (rule_2b k c t))
                 else
                   (let len = (case node_leaf of
                                 Some l \<Rightarrow> leaf_edge_length t (leaves t ! l)
                               | None \<Rightarrow> edge_length (inodes t ! the node_internal))
                    in if active_length t \<ge> len
                       then (case node_internal of
                               None \<Rightarrow> Abort
                             | Some v \<Rightarrow>
                                 Continue (t\<lparr>active_edge := active_edge t + len,
                                             active_length := active_length t - len,
                                             active_node := v\<rparr>))
                       else
                         (let prev_start = (case node_leaf of
                                              Some l \<Rightarrow> start (leaves t ! l)
                                            | None \<Rightarrow> start (inodes t ! the node_internal))
                          in case char_at (txt t) (prev_start + active_length t) of
                               None \<Rightarrow> Abort
                             | Some x \<Rightarrow>
                                 (case char_at (txt t) k of
                                    None \<Rightarrow> Abort
                                  | Some y \<Rightarrow>
                                      if x = y
                                      then Break (add_links (active_node t)
                                                    (t\<lparr>active_length := active_length t + 1\<rparr>))
                                      else (case node_leaf of
                                              Some l \<Rightarrow>
                                                (case split_leaf k c l t of
                                                   None \<Rightarrow> Abort
                                                 | Some t' \<Rightarrow> Continue (next_suffix k t'))
                                            | None \<Rightarrow>
                                                (case split_internal k c (the node_internal) t of
                                                   None \<Rightarrow> Abort
                                                 | Some t' \<Rightarrow> Continue (next_suffix k t'))))))))"

text \<open>
  The loop itself. \<open>None\<close> stands for every run without a normal return: an aborted
  body or a loop that never ends.
\<close>

partial_function (option) extend_loop :: "u32 \<Rightarrow> suffix_tree \<Rightarrow> suffix_tree option" where
  "extend_loop k t =
     (if \<not> remainder t > 0 then Some t
      else (case extend_body k t of
              Abort \<Rightarrow> None
            | Break t' \<Rightarrow> Some t'
            | Continue t' \<Rightarrow> extend_loop k t'))"

declare extend_loop.simps [code]

text \<open>\<open>SuffixTree::extend\<close>.\<close>

definition extend :: "u32 \<Rightarrow> suffix_tree \<Rightarrow> suffix_tree option" where
  "extend k t =
     (case extend_loop k (t\<lparr>need_link := None, remainder := remainder t + 1\<rparr>) of
        None \<Rightarrow> None
      | Some t' \<Rightarrow> Some (t'\<lparr>global_end := global_end t' + 1\<rparr>))"

text \<open>
  The constructor: the member initialisers, then
  \<open>for (uint32_t k = 0; k < txt.size(); k++) extend(k)\<close>.
\<close>

definition init_tree :: "string \<Rightarrow> suffix_tree" where
  "init_tree s = \<lparr>txt = s, inodes = [new_inode 0 0], leaves = [], need_link = None,
     global_end = 0, remainder = 0, active_node = root, active_edge = 0, active_length = 0\<rparr>"

partial_function (option) build_loop :: "u32 \<Rightarrow> suffix_tree \<Rightarrow> suffix_tree option" where
  "build_loop k t =
     (if unat k < length (txt t)
      then (case extend k t of None \<Rightarrow> None | Some t' \<Rightarrow> build_loop (k + 1) t')
      else Some t)"

declare build_loop.simps [code]

definition SuffixTree :: "string \<Rightarrow> suffix_tree option" where
  "SuffixTree s = build_loop 0 (init_tree s)"

section \<open>Net frequency (suffix\_tree.cpp, lines 20--131)\<close>

text \<open>
  \<open>SuffixTree::find_internal_node\<close>. The loop variable is the pair \<open>(node, i)\<close>; the
  result is the pair \<open>(pointer, count)\<close>. \<open>i >= s.size()\<close> and \<open>i - s.size()\<close> are
  computed in \<open>size_t\<close> and the difference is converted to \<open>uint32_t\<close>.
\<close>

partial_function (option) find_loop ::
  "suffix_tree \<Rightarrow> string \<Rightarrow> nat \<Rightarrow> u32 \<Rightarrow> (nat option \<times> u32) option" where
  "find_loop t s nd i =
     (if unat i \<ge> length s then Some (Some nd, of_nat (unat i - length s))
      else
        (let c = s ! unat i
         in case map_of (internal_children (inodes t ! nd)) c of
              Some internal_child \<Rightarrow>
                (let len = min (edge_length (inodes t ! internal_child)) (of_nat (length s) - i)
                 in case substr s (unat i) (unat len) of
                      None \<Rightarrow> None
                    | Some a \<Rightarrow>
                        (case substr (txt t) (unat (start (inodes t ! internal_child))) (unat len) of
                           None \<Rightarrow> None
                         | Some b \<Rightarrow>
                             if a = b
                             then find_loop t s internal_child
                                    (i + edge_length (inodes t ! internal_child))
                             else Some (None, 0)))
            | None \<Rightarrow>
                if map_of (leaf_children (inodes t ! nd)) c \<noteq> None
                then Some (None, 1)
                else Some (None, 0)))"

declare find_loop.simps [code]

definition find_internal_node :: "suffix_tree \<Rightarrow> string \<Rightarrow> (nat option \<times> u32) option" where
  "find_internal_node t s = find_loop t s root 0"

text \<open>
  The two nested loops of \<open>single_nf\<close> (lines 30--37): one decrement for every entry
  \<open>(y, _)\<close> of \<open>xS->leaf_children\<close> whose key is in \<open>S->leaf_children\<close>.
\<close>

definition count_shared :: "(char \<times> nat) list \<Rightarrow> (char \<times> nat) list \<Rightarrow> u32 \<Rightarrow> u32" where
  "count_shared xs_leaves s_leaves n =
     fold (\<lambda>(y, _) n. if map_of s_leaves y \<noteq> None then n - 1 else n) xs_leaves n"

definition single_nf :: "suffix_tree \<Rightarrow> string \<Rightarrow> u32 option" where
  "single_nf t s =
     (case find_internal_node t s of
        None \<Rightarrow> None
      | Some (S, left_len_S) \<Rightarrow>
          (case S of
             None \<Rightarrow> Some 0
           | Some S \<Rightarrow>
               if left_len_S \<noteq> 0 then Some 0
               else
                 let n = (of_nat (length (leaf_children (inodes t ! S))) :: u32)
                 in if n = 0 then Some 0
                    else Some (fold (\<lambda>xS n. count_shared (leaf_children (inodes t ! xS))
                                               (leaf_children (inodes t ! S)) n)
                                 (weiner_links (inodes t ! S)) n)))"

text \<open>
  The body of the lambda \<open>process\<close> of \<open>all_nf\<close> before its recursive calls
  (lines 48--56). Dereferencing a null \<open>suffix_link\<close> has no defined result.
\<close>

definition process_node :: "nat \<Rightarrow> suffix_tree \<Rightarrow> suffix_tree option" where
  "process_node xS t =
     (let x = inodes t ! xS
      in if leaf_children x \<noteq> []
         then
           let ns = (inodes t)[xS := x\<lparr>nf := nf x + of_nat (length (leaf_children x))\<rparr>]
           in (case suffix_link x of
                 None \<Rightarrow> None
               | Some S \<Rightarrow>
                   Some (t\<lparr>inodes := fold (\<lambda>(y, _) ns.
                                       if map_of (leaf_children (ns ! S)) y \<noteq> None
                                       then ns[S := (ns ! S)\<lparr>nf := nf (ns ! S) - 1\<rparr>]
                                       else ns)
                                     (leaf_children x) ns\<rparr>))
         else Some t)"

text \<open>
  \<open>process\<close> applied to each node of a list of children in turn: the loops
  \<open>for (auto& [_, child] : ...->internal_children) process(child)\<close> of lines 57--59
  and 74--76. \<open>process(xS)\<close> is \<open>process_children [xS]\<close>.
\<close>

partial_function (option) process_children :: "nat list \<Rightarrow> suffix_tree \<Rightarrow> suffix_tree option" where
  "process_children cs t =
     (case cs of
        [] \<Rightarrow> Some t
      | xS # rest \<Rightarrow>
          (case process_node xS t of
             None \<Rightarrow> None
           | Some t1 \<Rightarrow>
               Option.bind
                 (process_children (map snd (internal_children (inodes t1 ! xS))) t1)
                 (process_children rest)))"

declare process_children.simps [code]

text \<open>
  \<open>report\<close> applied to each \<open>(node, start_pos, string_depth)\<close> of a list in turn
  (lines 64--72 and 78--80); the lines written to \<open>std::cout\<close> are collected as
  pairs.

  The child maps are \<open>std::unordered_map\<close>s, whose iteration order the language leaves
  to the library. The association lists of this model are walked in insertion order, so
  when two or more lines are printed their relative order in the model need not be the
  order of a run of the program; only the collection of printed lines is meaningful. The
  same holds for the order in which \<open>process\<close> visits the children, where it makes no
  difference to the result: the \<open>nf\<close> fields only receive additions and
  subtractions. No statement below depends on the order of two printed lines.
\<close>

partial_function (option) report_children ::
  "suffix_tree \<Rightarrow> (nat \<times> u32 \<times> u32) list \<Rightarrow> (string \<times> u32) list option" where
  "report_children t cs =
     (case cs of
        [] \<Rightarrow> Some []
      | (S, start_pos, string_depth) # rest \<Rightarrow>
          (case (if nf (inodes t ! S) \<noteq> 0
                 then map_option (\<lambda>w. [(w, nf (inodes t ! S))])
                        (substr (txt t) (unat start_pos) (unat string_depth))
                 else Some []) of
             None \<Rightarrow> None
           | Some out \<Rightarrow>
               Option.bind
                 (report_children t
                    (map (\<lambda>(_, child). (child, start_pos,
                            string_depth + edge_length (inodes t ! child)))
                       (internal_children (inodes t ! S))))
                 (\<lambda>out1. Option.bind (report_children t rest)
                    (\<lambda>out2. Some (out @ out1 @ out2)))))"

declare report_children.simps [code]

text \<open>\<open>SuffixTree::all_nf\<close>: the tree after the call and the lines printed.\<close>

definition all_nf :: "suffix_tree \<Rightarrow> (suffix_tree \<times> (string \<times> u32) list) option" where
  "all_nf t =
     (case process_children (map snd (internal_children (inodes t ! root))) t of
        None \<Rightarrow> None
      | Some t' \<Rightarrow>
          map_option (\<lambda>out. (t', out))
            (report_children t'
               (map (\<lambda>(_, S). (S, start (inodes t' ! S), edge_length (inodes t' ! S)))
                  (internal_children (inodes t' ! root)))))"

section \<open>Programs that build a tree and query it (main.cpp)\<close>

text \<open>
  \<open>main\<close> constructs \<open>SuffixTree st{txt}\<close> and then calls \<open>st.single_nf(s)\<close> and
  \<open>st.all_nf()\<close>. The three programs below construct the tree of a text and make one
  call on it: \<open>find_internal_node(s)\<close>, \<open>single_nf(s)\<close>, and \<open>all_nf()\<close> with
  the lines it prints.
\<close>

definition build_find :: "string \<Rightarrow> string \<Rightarrow> (nat option \<times> u32) option" where
  "build_find T s = Option.bind (SuffixTree T) (\<lambda>t. find_internal_node t s)"

definition build_single_nf :: "string \<Rightarrow> string \<Rightarrow> u32 option" where
  "build_single_nf T s = Option.bind (SuffixTree T) (\<lambda>t. single_nf t s)"

definition build_all_nf :: "string \<Rightarrow> (string \<times> u32) list option" where
  "build_all_nf T = Option.bind (SuffixTree T) (\<lambda>t. map_option snd (all_nf t))"

text \<open>
  \<open>all_nf()\<close> called \<open>n\<close> times in a row on the same tree, and the \<open>nf\<close> fields of
  all internal nodes (in allocation order, the root first) of the tree of a text after
  \<open>n\<close> calls.
\<close>

fun all_nf_times :: "nat \<Rightarrow> suffix_tree \<Rightarrow> suffix_tree option" where
  "all_nf_times 0 t = Some t"
| "all_nf_times (Suc n) t =
     (case all_nf t of None \<Rightarrow> None | Some (t', _) \<Rightarrow> all_nf_times n t')"

definition build_nf_fields :: "nat \<Rightarrow> string \<Rightarrow> u32 list option" where
  "build_nf_fields n T =
     Option.bind (SuffixTree T) (\<lambda>t. map_option (\<lambda>t'. map nf (inodes t')) (all_nf_times n t))"

section \<open>Well-formed trees and the net frequency of a node\<close>

text \<open>
  Pointer validity: every pointer stored in the tree (children, suffix link, Weiner
  links, the active node, \<open>need_link\<close>) refers to an allocated node; every
  \<open>unordered_map\<close> has one entry per key; no Weiner-link vector holds a node twice.
\<close>

definition node_wf :: "nat \<Rightarrow> nat \<Rightarrow> inode \<Rightarrow> bool" where
  "node_wf N L x \<longleftrightarrow>
     distinct (weiner_links x) \<and> distinct (map fst (leaf_children x)) \<and>
     distinct (map fst (internal_children x)) \<and>
     (\<forall>c v. map_of (internal_children x) c = Some v \<longrightarrow> v < N) \<and>
     (\<forall>c l. map_of (leaf_children x) c = Some l \<longrightarrow> l < L) \<and>
     (\<forall>v \<in> set (weiner_links x). v < N) \<and>
     (\<forall>v. suffix_link x = Some v \<longrightarrow> v < N)"

definition tree_wf :: "suffix_tree \<Rightarrow> bool" where
  "tree_wf t \<longleftrightarrow>
     (\<forall>u < length (inodes t). node_wf (length (inodes t)) (length (leaves t)) (inodes t ! u)) \<and>
     active_node t < length (inodes t) \<and>
     (\<forall>v. need_link t = Some v \<longrightarrow> v < length (inodes t))"

text \<open>All \<open>nf\<close> fields are zero: the state in which the constructor leaves them.\<close>

definition nf_zero :: "suffix_tree \<Rightarrow> bool" where
  "nf_zero t \<longleftrightarrow> (\<forall>u < length (inodes t). nf (inodes t ! u) = 0)"

definition built :: "suffix_tree \<Rightarrow> bool" where
  "built t \<longleftrightarrow> tree_wf t \<and> nf_zero t"

text \<open>
  The net frequency of the string of an internal node \<open>S\<close>, in the words of the
  specification: the number of distinct bytes keying leaf children of \<open>S\<close>, minus one
  for each pair \<open>(xS, y)\<close> where \<open>xS\<close> is in \<open>S.weiner_links\<close> and \<open>y\<close> keys a
  leaf child of both \<open>xS\<close> and \<open>S\<close>.
\<close>

definition leaf_keys :: "suffix_tree \<Rightarrow> nat \<Rightarrow> char set" where
  "leaf_keys t u = fst ` set (leaf_children (inodes t ! u))"

definition net_frequency :: "suffix_tree \<Rightarrow> nat \<Rightarrow> int" where
  "net_frequency t S =
     int (card (leaf_keys t S)) -
     int (card {(xS, y). xS \<in> set (weiner_links (inodes t ! S)) \<and>
                         y \<in> leaf_keys t xS \<and> y \<in> leaf_keys t S})"

text \<open>
  Two trees have the same shape when they differ at most in the \<open>nf\<close> fields of their
  internal nodes. \<open>add_nf d t\<close> adds \<open>d u\<close> to the \<open>nf\<close> field of every internal
  node \<open>u\<close>; \<open>process_delta t xS\<close> is what one visit of \<open>process\<close> to the node
  \<open>xS\<close> adds to each \<open>nf\<close> field.
\<close>

definition same_shape :: "suffix_tree \<Rightarrow> suffix_tree \<Rightarrow> bool" where
  "same_shape t t' \<longleftrightarrow> txt t' = txt t \<and>
     map (\<lambda>x. x\<lparr>nf := 0\<rparr>) (inodes t') = map (\<lambda>x. x\<lparr>nf := 0\<rparr>) (inodes t)"

definition add_nf :: "(nat \<Rightarrow> u32) \<Rightarrow> suffix_tree \<Rightarrow> suffix_tree" where
  "add_nf d t = t\<lparr>inodes := map (\<lambda>u. (inodes t ! u)\<lparr>nf := nf (inodes t ! u) + d u\<rparr>) [0..<length (inodes t)]\<rparr>"

definition process_delta :: "suffix_tree \<Rightarrow> nat \<Rightarrow> nat \<Rightarrow> u32" where
  "process_delta t xS u =
     (let x = inodes t ! xS
      in if leaf_children x = [] then 0
         else (if u = xS then of_nat (length (leaf_children x)) else 0) -
              (if suffix_link x = Some u
               then of_nat (length (filter (\<lambda>p. map_of (leaf_children (inodes t ! u)) (fst p) \<noteq> None)
                                      (leaf_children x)))
               else 0))"

section \<open>What the construction maintains\<close>

text \<open>
  The definitions of this section describe the tree between two iterations of the loop
  of \<open>extend\<close>. They are the statements of Ukkonen's algorithm: every leaf \<open>l\<close> spells
  the suffix that starts at position \<open>l\<close>, the tree is a trie of the suffixes inserted so
  far, the active point is the locus of the suffix being inserted, and a suffix link
  leads from the node of a string to the node of the string without its first byte.
\<close>

text \<open>
  \<open>eqsub T a b n\<close>: the text \<open>T\<close> has the same \<open>n\<close> bytes from position \<open>a\<close> and
  from position \<open>b\<close>.
\<close>

definition eqsub :: "string \<Rightarrow> nat \<Rightarrow> nat \<Rightarrow> nat \<Rightarrow> bool" where
  "eqsub T a b n \<longleftrightarrow> (\<forall>m<n. T ! (a + m) = T ! (b + m))"

text \<open>
  Short names for the fields that occur in every statement: the \<open>start\<close> and \<open>end\<close>
  of an internal node and the \<open>start\<close> of a leaf as natural numbers, and the two child
  maps of an internal node as partial functions.
\<close>

abbreviation St :: "suffix_tree \<Rightarrow> nat \<Rightarrow> nat" where
  "St t v \<equiv> unat (start (inodes t ! v))"

abbreviation En :: "suffix_tree \<Rightarrow> nat \<Rightarrow> nat" where
  "En t v \<equiv> unat (end_idx (inodes t ! v))"

abbreviation Ls :: "suffix_tree \<Rightarrow> nat \<Rightarrow> nat" where
  "Ls t l \<equiv> unat (start (leaves t ! l))"

abbreviation ic :: "suffix_tree \<Rightarrow> nat \<Rightarrow> char \<Rightarrow> nat option" where
  "ic t v \<equiv> map_of (internal_children (inodes t ! v))"

abbreviation lc :: "suffix_tree \<Rightarrow> nat \<Rightarrow> char \<Rightarrow> nat option" where
  "lc t v \<equiv> map_of (leaf_children (inodes t ! v))"

text \<open>
  The string of the internal node \<open>v\<close> is read in the text at \<open>pos v\<close>: it is
  \<open>T[end v - dep v, end v)\<close>.
\<close>

definition pos :: "ghost \<Rightarrow> suffix_tree \<Rightarrow> nat \<Rightarrow> nat" where
  "pos G t v = En t v - dep G v"

text \<open>
  The shape of the tree while the first \<open>g\<close> bytes of the text have been read
  (\<open>g\<close> is \<open>global_end\<close>). For an internal node \<open>v\<close> other than the root: its parent
  holds it under the first byte of its edge, the edge \<open>T[start v, end v)\<close> is not empty
  and ends within the bytes read, its depth is the depth of its parent plus the length
  of its edge, and its string begins with the string of its parent. For a child map:
  every child lies under the first byte of its edge, and no byte keys both an internal
  child and a leaf child. For a leaf \<open>l\<close>: its parent holds it under the first byte of
  its edge, its edge starts at \<open>l + dep (lpar l)\<close>, and the suffix that starts at
  position \<open>l\<close> begins with the string of its parent.
\<close>

definition sh_root :: "ghost \<Rightarrow> suffix_tree \<Rightarrow> bool" where
  "sh_root G t \<longleftrightarrow> dep G 0 = 0 \<and> par G 0 = 0 \<and> En t 0 = 0 \<and> St t 0 = 0"

definition sh_node :: "ghost \<Rightarrow> nat \<Rightarrow> suffix_tree \<Rightarrow> nat \<Rightarrow> bool" where
  "sh_node G g t v \<longleftrightarrow>
     par G v < length (inodes t) \<and>
     ic t (par G v) (txt t ! St t v) = Some v \<and>
     St t v < En t v \<and> En t v \<le> g \<and>
     dep G v = dep G (par G v) + (En t v - St t v) \<and>
     dep G v \<le> En t v \<and>
     eqsub (txt t) (pos G t v) (pos G t (par G v)) (dep G (par G v))"

definition sh_ichild :: "ghost \<Rightarrow> suffix_tree \<Rightarrow> nat \<Rightarrow> bool" where
  "sh_ichild G t u \<longleftrightarrow>
     (\<forall>c v. ic t u c = Some v \<longrightarrow>
        v \<noteq> 0 \<and> par G v = u \<and> txt t ! St t v = c \<and> lc t u c = None)"

definition sh_lchild :: "ghost \<Rightarrow> suffix_tree \<Rightarrow> nat \<Rightarrow> bool" where
  "sh_lchild G t u \<longleftrightarrow>
     (\<forall>c l. lc t u c = Some l \<longrightarrow> lpar G l = u \<and> txt t ! Ls t l = c)"

definition sh_leaf :: "ghost \<Rightarrow> nat \<Rightarrow> suffix_tree \<Rightarrow> nat \<Rightarrow> bool" where
  "sh_leaf G g t l \<longleftrightarrow>
     lpar G l < length (inodes t) \<and>
     lc t (lpar G l) (txt t ! Ls t l) = Some l \<and>
     Ls t l = l + dep G (lpar G l) \<and> Ls t l \<le> g \<and>
     eqsub (txt t) l (pos G t (lpar G l)) (dep G (lpar G l))"

definition shape :: "ghost \<Rightarrow> nat \<Rightarrow> suffix_tree \<Rightarrow> bool" where
  "shape G g t \<longleftrightarrow>
     tree_wf t \<and> g \<le> length (txt t) \<and> length (txt t) < 2 ^ 32 \<and>
     unat (global_end t) = g \<and> sh_root G t \<and>
     (\<forall>v<length (inodes t). v \<noteq> 0 \<longrightarrow> sh_node G g t v) \<and>
     (\<forall>u<length (inodes t). sh_ichild G t u \<and> sh_lchild G t u) \<and>
     (\<forall>l<length (leaves t). sh_leaf G g t l)"

text \<open>\<open>anc u v\<close>: the internal node \<open>u\<close> is \<open>v\<close> or an ancestor of \<open>v\<close>.\<close>

definition anc :: "ghost \<Rightarrow> nat \<Rightarrow> nat \<Rightarrow> bool" where
  "anc G u v \<longleftrightarrow> (\<exists>m. (par G ^^ m) v = u)"

text \<open>
  The states of \<open>split_leaf\<close>, \<open>split_internal\<close> and \<open>rule_2b\<close> just before their
  call of \<open>add_links\<close>; \<open>ck\<close> is \<open>txt[k]\<close> and \<open>cn\<close> is \<open>txt[nd->start]\<close>.
\<close>

definition split_leaf_pre :: "u32 \<Rightarrow> char \<Rightarrow> nat \<Rightarrow> char \<Rightarrow> char \<Rightarrow> suffix_tree \<Rightarrow> suffix_tree" where
  "split_leaf_pre k c nd ck cn t =
     t\<lparr>leaves := (leaves t)[nd := (leaves t ! nd)\<lparr>start := start (leaves t ! nd) + active_length t\<rparr>] @ [\<lparr>start = k\<rparr>],
       inodes := (inodes t)[active_node t := (inodes t ! active_node t)
                \<lparr>internal_children := AList.update c (length (inodes t)) (internal_children (inodes t ! active_node t)),
                 leaf_children := AList.delete c (leaf_children (inodes t ! active_node t))\<rparr>]
             @ [(new_inode (start (leaves t ! nd)) (start (leaves t ! nd) + active_length t))
                       \<lparr>leaf_children := AList.update cn nd (AList.update ck (length (leaves t)) [])\<rparr>]\<rparr>"

definition split_internal_pre :: "u32 \<Rightarrow> char \<Rightarrow> nat \<Rightarrow> char \<Rightarrow> char \<Rightarrow> suffix_tree \<Rightarrow> suffix_tree" where
  "split_internal_pre k c nd ck cn t =
     t\<lparr>leaves := leaves t @ [\<lparr>start = k\<rparr>],
       inodes := (inodes t)[nd := (inodes t ! nd)\<lparr>start := start (inodes t ! nd) + active_length t\<rparr>,
                active_node t := ((inodes t)[nd := (inodes t ! nd)\<lparr>start := start (inodes t ! nd) + active_length t\<rparr>] ! active_node t)
                \<lparr>internal_children := AList.update c (length (inodes t))
                    (internal_children ((inodes t)[nd := (inodes t ! nd)\<lparr>start := start (inodes t ! nd) + active_length t\<rparr>] ! active_node t))\<rparr>]
             @ [(new_inode (start (inodes t ! nd)) (start (inodes t ! nd) + active_length t))
                       \<lparr>leaf_children := AList.update ck (length (leaves t)) [],
                        internal_children := AList.update cn nd []\<rparr>]\<rparr>"

definition rule_2b_pre :: "u32 \<Rightarrow> char \<Rightarrow> suffix_tree \<Rightarrow> suffix_tree" where
  "rule_2b_pre k c t =
     t\<lparr>leaves := leaves t @ [\<lparr>start = k\<rparr>],
       inodes := (inodes t)[active_node t := (inodes t ! active_node t)
          \<lparr>leaf_children := AList.update c (length (leaves t)) (leaf_children (inodes t ! active_node t))\<rparr>]\<rparr>"

text \<open>
  \<open>NB T j k\<close>: the string \<open>T[j, k)\<close> occurs at a position before \<open>j\<close> where it is
  followed by a byte other than \<open>T[k]\<close>.
\<close>

definition NB :: "string \<Rightarrow> nat \<Rightarrow> nat \<Rightarrow> bool" where
  "NB T j k \<longleftrightarrow> (\<exists>p. p + (k - j) < k \<and> eqsub T p j (k - j) \<and> T ! (p + (k - j)) \<noteq> T ! k)"

text \<open>
  Suffix links and Weiner links. The root has no suffix link; a suffix link leads from the
  node \<open>v\<close> to a node whose string is the string of \<open>v\<close> without its first byte;
  the Weiner links of \<open>u\<close> are exactly the nodes whose suffix link is \<open>u\<close>. Every
  internal node other than the root has a suffix link, except the node that
  \<open>need_link\<close> points to.
\<close>

definition links_sem :: "ghost \<Rightarrow> suffix_tree \<Rightarrow> bool" where
  "links_sem G t \<longleftrightarrow>
     suffix_link (inodes t ! 0) = None \<and>
     (\<forall>v<length (inodes t). \<forall>u. suffix_link (inodes t ! v) = Some u \<longrightarrow>
        u < length (inodes t) \<and> dep G v = Suc (dep G u) \<and>
        eqsub (txt t) (Suc (pos G t v)) (pos G t u) (dep G u)) \<and>
     (\<forall>u<length (inodes t). \<forall>v<length (inodes t).
        v \<in> set (weiner_links (inodes t ! u)) \<longleftrightarrow> suffix_link (inodes t ! v) = Some u)"

definition links_all :: "suffix_tree \<Rightarrow> bool" where
  "links_all t \<longleftrightarrow>
     (\<forall>v<length (inodes t). v \<noteq> 0 \<longrightarrow> suffix_link (inodes t ! v) = None \<longrightarrow> need_link t = Some v)"

text \<open>
  The node that waits for its suffix link while suffix \<open>j\<close> is inserted in phase
  \<open>k\<close>: it spells \<open>T[j - 1, k)\<close>.
\<close>

definition pending_ok :: "ghost \<Rightarrow> nat \<Rightarrow> nat \<Rightarrow> suffix_tree \<Rightarrow> bool" where
  "pending_ok G k j t \<longleftrightarrow>
     (\<forall>v. need_link t = Some v \<longrightarrow>
        v \<noteq> 0 \<and> 1 \<le> j \<and> dep G v = Suc (k - j) \<and>
        eqsub (txt t) (j - 1) (pos G t v) (dep G v) \<and>
        (\<forall>u. suffix_link (inodes t ! v) = Some u \<longrightarrow> u = active_node t \<and> active_length t = 0) \<and>
        (active_length t \<noteq> 0 \<longrightarrow> NB (txt t) j k))"

text \<open>
  The invariant of the loop of \<open>extend(k)\<close>. With \<open>j = k + 1 - remainder\<close> the next
  suffix to insert: there are \<open>j\<close> leaves, the active node spells a prefix of
  \<open>T[j, k)\<close> and \<open>active_length\<close> is the rest of its length, \<open>active_edge\<close> is the
  position in the text of the first byte below the active node, and \<open>T[j, k)\<close> occurs
  at an earlier position. \<open>PH\<close> is the state between two calls of \<open>extend\<close>.
\<close>

definition INV :: "ghost \<Rightarrow> nat \<Rightarrow> suffix_tree \<Rightarrow> bool" where
  "INV G k t \<longleftrightarrow>
     shape G k t \<and> unat (remainder t) \<le> Suc k \<and>
     length (leaves t) = Suc k - unat (remainder t) \<and>
     dep G (active_node t) + unat (active_length t) = k - (Suc k - unat (remainder t)) \<and>
     eqsub (txt t) (Suc k - unat (remainder t)) (pos G t (active_node t)) (dep G (active_node t)) \<and>
     (active_length t \<noteq> 0 \<longrightarrow>
        unat (active_edge t) = Suc k - unat (remainder t) + dep G (active_node t)) \<and>
     (Suc k - unat (remainder t) < k \<longrightarrow>
        (\<exists>i<Suc k - unat (remainder t). eqsub (txt t) i (Suc k - unat (remainder t)) (k - (Suc k - unat (remainder t))))) \<and>
     links_sem G t \<and> links_all t \<and>
     (if remainder t = 0 then need_link t = Some 0
      else pending_ok G k (Suc k - unat (remainder t)) t)"

definition PH :: "ghost \<Rightarrow> nat \<Rightarrow> suffix_tree \<Rightarrow> bool" where
  "PH G k t \<longleftrightarrow>
     unat (remainder t) \<le> k \<and>
     INV G k (t\<lparr>need_link := None, remainder := remainder t + 1\<rparr>) \<and>
     (\<forall>l<length (leaves t). Ls t l < k)"

text \<open>A text is sentinel-terminated when its last byte occurs nowhere else in it.\<close>

definition sentinel :: "string \<Rightarrow> bool" where
  "sentinel T \<longleftrightarrow> T \<noteq> [] \<and> last T \<notin> set (butlast T)"

text \<open>
  What holds of the tree the constructor returns: the shape for the whole text, the
  meaning of the links, a suffix link at every internal node but the root, no empty leaf
  edge, and, for a sentinel-terminated text, one leaf for every suffix.
\<close>

definition FIN :: "ghost \<Rightarrow> suffix_tree \<Rightarrow> bool" where
  "FIN G t \<longleftrightarrow>
     shape G (length (txt t)) t \<and> links_sem G t \<and>
     (\<forall>v<length (inodes t). v \<noteq> 0 \<longrightarrow> suffix_link (inodes t ! v) \<noteq> None) \<and>
     (\<forall>l<length (leaves t). Ls t l < length (txt t)) \<and>
     (sentinel (txt t) \<longrightarrow> length (leaves t) = length (txt t))"

text \<open>
  The number of times \<open>single_nf\<close> executes \<open>nf--\<close> when its two nested loops
  (lines 30--37) run on the node \<open>S\<close>.
\<close>

definition decrements :: "suffix_tree \<Rightarrow> nat \<Rightarrow> nat" where
  "decrements t S =
     (\<Sum>xS\<leftarrow>weiner_links (inodes t ! S).
        length (filter (\<lambda>(y, _). map_of (leaf_children (inodes t ! S)) y \<noteq> None)
                  (leaf_children (inodes t ! xS))))"

text \<open>
  The string an internal node represents: the concatenation of the edge labels on the
  path from the root. \<open>edge_label t v\<close> is the label \<open>txt.substr(v->start,
  v->edge_length())\<close> of the edge into \<open>v\<close>; \<open>descend t u w cs\<close> follows from the
  node \<open>u\<close> the internal children keyed by the bytes \<open>cs\<close> in turn and appends their
  edge labels to \<open>w\<close>; \<open>represents t u w\<close> says that some path from the root ends at
  \<open>u\<close> and spells \<open>w\<close>. \<open>gstr\<close> is the same string read in the text.
\<close>

definition edge_label :: "suffix_tree \<Rightarrow> nat \<Rightarrow> string" where
  "edge_label t v =
     take (unat (edge_length (inodes t ! v))) (drop (unat (start (inodes t ! v))) (txt t))"

fun descend :: "suffix_tree \<Rightarrow> nat \<Rightarrow> string \<Rightarrow> char list \<Rightarrow> (nat \<times> string) option" where
  "descend t u w [] = Some (u, w)"
| "descend t u w (c # cs) =
     (case map_of (internal_children (inodes t ! u)) c of
        None \<Rightarrow> None
      | Some v \<Rightarrow> descend t v (w @ edge_label t v) cs)"

definition represents :: "suffix_tree \<Rightarrow> nat \<Rightarrow> string \<Rightarrow> bool" where
  "represents t u w \<longleftrightarrow> (\<exists>cs. descend t root [] cs = Some (u, w))"

definition gstr :: "ghost \<Rightarrow> suffix_tree \<Rightarrow> nat \<Rightarrow> string" where
  "gstr G t u = take (dep G u) (drop (pos G t u) (txt t))"

text \<open>
  For the accumulation pass of \<open>all_nf\<close>: the internal nodes at or below the nodes of a
  list, and the sum of what the visits of \<open>process\<close> to the nodes of a set add to the
  \<open>nf\<close> field of \<open>u\<close>.
\<close>

definition desc :: "ghost \<Rightarrow> suffix_tree \<Rightarrow> nat list \<Rightarrow> nat set" where
  "desc G t cs = {x. x < length (inodes t) \<and> (\<exists>c\<in>set cs. anc G c x)}"

definition visits :: "suffix_tree \<Rightarrow> nat set \<Rightarrow> nat \<Rightarrow> u32" where
  "visits t A u = (\<Sum>x\<in>A. process_delta t x u)"

section \<open>Pointer validity is an invariant of the construction\<close>

lemma node_wf_mono: "node_wf N L x \<Longrightarrow> N \<le> N' \<Longrightarrow> L \<le> L' \<Longrightarrow> node_wf N' L' x"
  unfolding node_wf_def by (meson less_le_trans)

subsection \<open>add_links, field by field\<close>

lemma add_links_frame [simp]:
  "length (inodes (add_links nd t)) = length (inodes t)"
  "leaves (add_links nd t) = leaves t"
  "active_node (add_links nd t) = active_node t"
  "active_edge (add_links nd t) = active_edge t"
  "active_length (add_links nd t) = active_length t"
  "remainder (add_links nd t) = remainder t"
  "global_end (add_links nd t) = global_end t"
  "txt (add_links nd t) = txt t"
  "need_link (add_links nd t) = Some nd"
  by (simp_all add: add_links_def Let_def split: option.splits)

lemma nth_update_field:
  assumes "\<And>x. f (g x) = f x"
  shows "f (xs[i := g (xs ! i)] ! u) = f (xs ! u)"
proof (cases "i < length xs")
  case True
  then show ?thesis by (cases "u = i") (simp_all add: assms)
next
  case False
  then have "xs[i := g (xs ! i)] = xs" by (simp add: list_update_beyond)
  then show ?thesis by simp
qed

lemma add_links_node_frame [simp]:
  "start (inodes (add_links nd t) ! u) = start (inodes t ! u)"
  "end_idx (inodes (add_links nd t) ! u) = end_idx (inodes t ! u)"
  "internal_children (inodes (add_links nd t) ! u) = internal_children (inodes t ! u)"
  "leaf_children (inodes (add_links nd t) ! u) = leaf_children (inodes t ! u)"
  "nf (inodes (add_links nd t) ! u) = nf (inodes t ! u)"
  by (simp_all add: add_links_def Let_def nth_update_field split: option.splits)

lemma add_links_suffix_link:
  assumes "u < length (inodes t)"
  shows "suffix_link (inodes (add_links nd t) ! u) =
         (if need_link t = Some u then Some nd else suffix_link (inodes t ! u))"
proof (cases "need_link t")
  case None
  then show ?thesis by (simp add: add_links_def)
next
  case (Some nl)
  show ?thesis using assms
    by (cases "u = nd"; cases "u = nl")
       (simp_all add: add_links_def Some Let_def nth_list_update)
qed

lemma add_links_weiner_links:
  assumes "u < length (inodes t)"
  shows "weiner_links (inodes (add_links nd t) ! u) =
         (case need_link t of
            None \<Rightarrow> weiner_links (inodes t ! u)
          | Some nl \<Rightarrow>
              if u = nd \<and> nl \<notin> set (weiner_links (inodes t ! nd))
              then weiner_links (inodes t ! nd) @ [nl]
              else weiner_links (inodes t ! u))"
proof (cases "need_link t")
  case None
  then show ?thesis by (simp add: add_links_def)
next
  case (Some nl)
  show ?thesis using assms
    by (cases "u = nd"; cases "u = nl"; cases "nl < length (inodes t)")
       (simp_all add: add_links_def Some Let_def nth_list_update)
qed

lemma wf_add_links:
  assumes "tree_wf t" "nd < length (inodes t)"
  shows "tree_wf (add_links nd t)"
proof -
  have "node_wf (length (inodes t)) (length (leaves t)) (inodes (add_links nd t) ! u)"
    if "u < length (inodes t)" for u
  proof -
    from assms that have "node_wf (length (inodes t)) (length (leaves t)) (inodes t ! u)"
      and nl: "\<forall>v. need_link t = Some v \<longrightarrow> v < length (inodes t)"
      by (simp_all add: tree_wf_def)
    then show ?thesis using assms(2) that
      by (auto simp: node_wf_def add_links_suffix_link add_links_weiner_links split: option.splits)
  qed
  with assms show ?thesis by (simp add: tree_wf_def)
qed

lemma tree_wfI:
  assumes "\<And>u. u < length (inodes t) \<Longrightarrow> node_wf (length (inodes t)) (length (leaves t)) (inodes t ! u)"
    and "active_node t < length (inodes t)"
    and "\<And>v. need_link t = Some v \<Longrightarrow> v < length (inodes t)"
  shows "tree_wf t"
  using assms by (simp add: tree_wf_def)

lemma tree_wf_node: "tree_wf t \<Longrightarrow> u < length (inodes t) \<Longrightarrow>
    node_wf (length (inodes t)) (length (leaves t)) (inodes t ! u)"
  by (simp add: tree_wf_def)

lemma tree_wf_active: "tree_wf t \<Longrightarrow> active_node t < length (inodes t)"
  by (simp add: tree_wf_def)

lemma map_of_update_Some:
  "map_of (AList.update k v al) c = Some w \<longleftrightarrow> (if c = k then w = v else map_of al c = Some w)"
  by (auto simp: update_conv')

lemma map_of_delete_Some:
  "map_of (AList.delete k al) c = Some w \<longleftrightarrow> c \<noteq> k \<and> map_of al c = Some w"
  by (auto simp: delete_conv')

lemma wf_rule_2b:
  assumes "tree_wf t"
  shows "tree_wf (rule_2b k c t)"
proof -
  let ?an = "active_node t"
  let ?a = "(inodes t ! ?an)\<lparr>leaf_children := AList.update c (length (leaves t)) (leaf_children (inodes t ! ?an))\<rparr>"
  let ?t1 = "t\<lparr>leaves := leaves t @ [\<lparr>start = k\<rparr>], inodes := (inodes t)[?an := ?a]\<rparr>"
  have an: "?an < length (inodes t)" using assms by (rule tree_wf_active)
  have "tree_wf ?t1"
  proof (rule tree_wfI)
    fix u assume "u < length (inodes ?t1)"
    then have u: "u < length (inodes t)" by simp
    note w = tree_wf_node [OF assms u]
    show "node_wf (length (inodes ?t1)) (length (leaves ?t1)) (inodes ?t1 ! u)"
    proof (cases "u = ?an")
      case True
      with w u show ?thesis
        by (auto simp: node_wf_def distinct_update map_of_update_Some less_Suc_eq split: if_splits)
    next
      case False
      with node_wf_mono [OF w, of "length (inodes t)" "Suc (length (leaves t))"] u
      show ?thesis by simp
    qed
  qed (use assms in \<open>simp_all add: tree_wf_def\<close>)
  then have "tree_wf (add_links ?an ?t1)" using an by (intro wf_add_links) simp_all
  then show ?thesis by (simp add: rule_2b_def Let_def)
qed

lemma split_leaf_Some:
  assumes "split_leaf k c nd t = Some t'" "active_node t < length (inodes t)"
  obtains ck cn where "char_at (txt t) k = Some ck"
    "char_at (txt t) (start (leaves t ! nd) + active_length t) = Some cn"
    "t' = add_links (length (inodes t))
       (t\<lparr>leaves := (leaves t)[nd := (leaves t ! nd)\<lparr>start := start (leaves t ! nd) + active_length t\<rparr>] @ [\<lparr>start = k\<rparr>],
          inodes := (inodes t)[active_node t := (inodes t ! active_node t)
                \<lparr>internal_children := AList.update c (length (inodes t)) (internal_children (inodes t ! active_node t)),
                 leaf_children := AList.delete c (leaf_children (inodes t ! active_node t))\<rparr>]
             @ [(new_inode (start (leaves t ! nd)) (start (leaves t ! nd) + active_length t))
                       \<lparr>leaf_children := AList.update cn nd (AList.update ck (length (leaves t)) [])\<rparr>]\<rparr>)"
  using assms
  by (auto simp: split_leaf_def Let_def nth_append list_update_append1 split: option.splits)

lemma split_internal_Some:
  assumes "split_internal k c nd t = Some t'" "active_node t < length (inodes t)" "nd < length (inodes t)"
  obtains ck cn where "char_at (txt t) k = Some ck"
    "char_at (txt t) (start (inodes t ! nd) + active_length t) = Some cn"
    "t' = add_links (length (inodes t))
       (t\<lparr>leaves := leaves t @ [\<lparr>start = k\<rparr>],
          inodes := (inodes t)[nd := (inodes t ! nd)\<lparr>start := start (inodes t ! nd) + active_length t\<rparr>,
                active_node t := ((inodes t)[nd := (inodes t ! nd)\<lparr>start := start (inodes t ! nd) + active_length t\<rparr>] ! active_node t)
                \<lparr>internal_children := AList.update c (length (inodes t))
                    (internal_children ((inodes t)[nd := (inodes t ! nd)\<lparr>start := start (inodes t ! nd) + active_length t\<rparr>] ! active_node t))\<rparr>]
             @ [(new_inode (start (inodes t ! nd)) (start (inodes t ! nd) + active_length t))
                       \<lparr>leaf_children := AList.update ck (length (leaves t)) [],
                        internal_children := AList.update cn nd []\<rparr>]\<rparr>)"
  using assms
  by (auto simp: split_internal_def Let_def nth_append list_update_append1 split: option.splits)

lemma wf_split_leaf:
  assumes "tree_wf t" "split_leaf k c nd t = Some t'" "nd < length (leaves t)"
  shows "tree_wf t'"
proof -
  have an: "active_node t < length (inodes t)" using assms(1) by (rule tree_wf_active)
  from assms(2) an obtain ck cn t1 where t': "t' = add_links (length (inodes t)) t1"
    and t1: "t1 = t\<lparr>leaves := (leaves t)[nd := (leaves t ! nd)\<lparr>start := start (leaves t ! nd) + active_length t\<rparr>] @ [\<lparr>start = k\<rparr>],
          inodes := (inodes t)[active_node t := (inodes t ! active_node t)
                \<lparr>internal_children := AList.update c (length (inodes t)) (internal_children (inodes t ! active_node t)),
                 leaf_children := AList.delete c (leaf_children (inodes t ! active_node t))\<rparr>]
             @ [(new_inode (start (leaves t ! nd)) (start (leaves t ! nd) + active_length t))
                       \<lparr>leaf_children := AList.update cn nd (AList.update ck (length (leaves t)) [])\<rparr>]\<rparr>"
    by (rule split_leaf_Some) blast
  have "tree_wf t1"
  proof (rule tree_wfI)
    fix u assume "u < length (inodes t1)"
    then consider "u = length (inodes t)" | "u = active_node t" "u < length (inodes t)"
      | "u \<noteq> active_node t" "u < length (inodes t)"
      using an by (auto simp: t1 less_Suc_eq)
    then show "node_wf (length (inodes t1)) (length (leaves t1)) (inodes t1 ! u)"
    proof cases
      case 1
      then show ?thesis using assms(3)
        by (auto simp: t1 nth_append node_wf_def new_inode_def distinct_update map_of_update_Some
            split: if_splits)
    next
      case 2
      with tree_wf_node [OF assms(1) 2(2)] show ?thesis
        by (auto simp: t1 nth_append node_wf_def distinct_update distinct_delete
             map_of_update_Some map_of_delete_Some less_Suc_eq split: if_splits)
    next
      case 3
      with node_wf_mono [OF tree_wf_node [OF assms(1) 3(2)], of "Suc (length (inodes t))" "Suc (length (leaves t))"]
      show ?thesis by (simp add: t1 nth_append)
    qed
  next
    show "active_node t1 < length (inodes t1)" using an by (simp add: t1)
  next
    fix v assume "need_link t1 = Some v"
    then show "v < length (inodes t1)" using assms(1) by (auto simp: t1 tree_wf_def less_Suc_eq)
  qed
  then show ?thesis unfolding t' by (rule wf_add_links) (simp add: t1)
qed

lemma wf_split_internal:
  assumes "tree_wf t" "split_internal k c nd t = Some t'" "nd < length (inodes t)"
  shows "tree_wf t'"
proof -
  have an: "active_node t < length (inodes t)" using assms(1) by (rule tree_wf_active)
  define ns0 where "ns0 = (inodes t)[nd := (inodes t ! nd)\<lparr>start := start (inodes t ! nd) + active_length t\<rparr>]"
  from assms(2) an assms(3) obtain ck cn t1 where t': "t' = add_links (length (inodes t)) t1"
    and t1: "t1 = t\<lparr>leaves := leaves t @ [\<lparr>start = k\<rparr>],
          inodes := ns0[active_node t := (ns0 ! active_node t)
                \<lparr>internal_children := AList.update c (length (inodes t))
                    (internal_children (ns0 ! active_node t))\<rparr>]
             @ [(new_inode (start (inodes t ! nd)) (start (inodes t ! nd) + active_length t))
                       \<lparr>leaf_children := AList.update ck (length (leaves t)) [],
                        internal_children := AList.update cn nd []\<rparr>]\<rparr>"
    unfolding ns0_def by (rule split_internal_Some) blast
  have len0: "length ns0 = length (inodes t)" by (simp add: ns0_def)
  have ns0: "node_wf (length (inodes t)) (length (leaves t)) (ns0 ! u)" if "u < length (inodes t)" for u
    using tree_wf_node [OF assms(1) that] that
    by (cases "u = nd") (simp_all add: ns0_def node_wf_def)
  have "tree_wf t1"
  proof (rule tree_wfI)
    fix u assume "u < length (inodes t1)"
    then consider "u = length (inodes t)" | "u = active_node t" "u < length (inodes t)"
      | "u \<noteq> active_node t" "u < length (inodes t)"
      using an by (auto simp: t1 len0 less_Suc_eq)
    then show "node_wf (length (inodes t1)) (length (leaves t1)) (inodes t1 ! u)"
    proof cases
      case 1
      then show ?thesis using assms(3)
        by (auto simp: t1 len0 nth_append node_wf_def new_inode_def distinct_update map_of_update_Some
            split: if_splits)
    next
      case 2
      with ns0 [OF 2(2)] show ?thesis
        by (auto simp: t1 len0 nth_append node_wf_def distinct_update
             map_of_update_Some less_Suc_eq split: if_splits)
    next
      case 3
      with node_wf_mono [OF ns0 [OF 3(2)], of "Suc (length (inodes t))" "Suc (length (leaves t))"]
      show ?thesis by (simp add: t1 len0 nth_append)
    qed
  next
    show "active_node t1 < length (inodes t1)" using an by (simp add: t1 len0)
  next
    fix v assume "need_link t1 = Some v"
    then show "v < length (inodes t1)" using assms(1) by (auto simp: t1 len0 tree_wf_def less_Suc_eq)
  qed
  then show ?thesis unfolding t' by (rule wf_add_links) (simp add: t1 len0)
qed

lemma wf_next_suffix:
  assumes "tree_wf t"
  shows "tree_wf (next_suffix k t)"
proof -
  have "suffix_link (inodes t ! active_node t) = Some v \<Longrightarrow> v < length (inodes t)" for v
    using tree_wf_node [OF assms tree_wf_active [OF assms]] by (simp add: node_wf_def)
  moreover have "root < length (inodes t)"
    using tree_wf_active [OF assms] by (cases "inodes t") (simp_all add: root_def)
  ultimately show ?thesis using assms
    by (auto simp: next_suffix_def Let_def tree_wf_def split: option.splits)
qed

lemma extend_body_cases [consumes 3, case_names rule_2b walk_down rule_3_leaf rule_3_internal split_leaf split_internal]:
  assumes "extend_body k t0 = r" "r \<noteq> Abort"
    and "t = (if active_length t0 = 0 then t0\<lparr>active_edge := k\<rparr> else t0)"
  obtains
    (rule_2b) c where "char_at (txt t) (active_edge t) = Some c"
      "map_of (leaf_children (inodes t ! active_node t)) c = None"
      "map_of (internal_children (inodes t ! active_node t)) c = None"
      "r = Continue (next_suffix k (rule_2b k c t))"
  | (walk_down) c v where "char_at (txt t) (active_edge t) = Some c"
      "map_of (leaf_children (inodes t ! active_node t)) c = None"
      "map_of (internal_children (inodes t ! active_node t)) c = Some v"
      "active_length t \<ge> edge_length (inodes t ! v)"
      "r = Continue (t\<lparr>active_edge := active_edge t + edge_length (inodes t ! v),
                       active_length := active_length t - edge_length (inodes t ! v),
                       active_node := v\<rparr>)"
  | (rule_3_leaf) c l x where "char_at (txt t) (active_edge t) = Some c"
      "map_of (leaf_children (inodes t ! active_node t)) c = Some l"
      "map_of (internal_children (inodes t ! active_node t)) c = None"
      "active_length t < leaf_edge_length t (leaves t ! l)"
      "char_at (txt t) (start (leaves t ! l) + active_length t) = Some x"
      "char_at (txt t) k = Some x"
      "r = Break (add_links (active_node t) (t\<lparr>active_length := active_length t + 1\<rparr>))"
  | (rule_3_internal) c v x where "char_at (txt t) (active_edge t) = Some c"
      "map_of (leaf_children (inodes t ! active_node t)) c = None"
      "map_of (internal_children (inodes t ! active_node t)) c = Some v"
      "active_length t < edge_length (inodes t ! v)"
      "char_at (txt t) (start (inodes t ! v) + active_length t) = Some x"
      "char_at (txt t) k = Some x"
      "r = Break (add_links (active_node t) (t\<lparr>active_length := active_length t + 1\<rparr>))"
  | (split_leaf) c l x y t' where "char_at (txt t) (active_edge t) = Some c"
      "map_of (leaf_children (inodes t ! active_node t)) c = Some l"
      "map_of (internal_children (inodes t ! active_node t)) c = None"
      "active_length t < leaf_edge_length t (leaves t ! l)"
      "char_at (txt t) (start (leaves t ! l) + active_length t) = Some x"
      "char_at (txt t) k = Some y" "x \<noteq> y"
      "split_leaf k c l t = Some t'"
      "r = Continue (next_suffix k t')"
  | (split_internal) c v x y t' where "char_at (txt t) (active_edge t) = Some c"
      "map_of (leaf_children (inodes t ! active_node t)) c = None"
      "map_of (internal_children (inodes t ! active_node t)) c = Some v"
      "active_length t < edge_length (inodes t ! v)"
      "char_at (txt t) (start (inodes t ! v) + active_length t) = Some x"
      "char_at (txt t) k = Some y" "x \<noteq> y"
      "split_internal k c v t = Some t'"
      "r = Continue (next_suffix k t')"
proof -
  from assms(1,2) obtain c where c: "char_at (txt t) (active_edge t) = Some c"
    by (auto simp: extend_body_def Let_def assms(3) split: option.splits)
  let ?a = "inodes t ! active_node t"
  show thesis
  proof (cases "map_of (leaf_children ?a) c")
    case None
    note nl = None
    show ?thesis
    proof (cases "map_of (internal_children ?a) c")
      case None
      with nl c assms(1) have "r = Continue (next_suffix k (rule_2b k c t))"
        by (simp add: extend_body_def Let_def assms(3) [symmetric])
      with c nl None show ?thesis by (rule rule_2b)
    next
      case (Some v)
      show ?thesis
      proof (cases "active_length t \<ge> edge_length (inodes t ! v)")
        case True
        with nl Some c assms(1) have "r = Continue (t\<lparr>active_edge := active_edge t + edge_length (inodes t ! v),
                       active_length := active_length t - edge_length (inodes t ! v),
                       active_node := v\<rparr>)"
          by (simp add: extend_body_def Let_def assms(3) [symmetric])
        with c nl Some True show ?thesis by (rule walk_down)
      next
        case False
        then have lt: "active_length t < edge_length (inodes t ! v)" by simp
        from nl Some c False assms(1) have r: "r = (case char_at (txt t) (start (inodes t ! v) + active_length t) of
             None \<Rightarrow> Abort
           | Some x \<Rightarrow> (case char_at (txt t) k of None \<Rightarrow> Abort
               | Some y \<Rightarrow> if x = y then Break (add_links (active_node t) (t\<lparr>active_length := active_length t + 1\<rparr>))
                   else (case split_internal k c v t of None \<Rightarrow> Abort | Some t' \<Rightarrow> Continue (next_suffix k t'))))"
          by (auto simp add: extend_body_def Let_def assms(3) [symmetric] split: option.splits)
        with assms(2) obtain x y where x: "char_at (txt t) (start (inodes t ! v) + active_length t) = Some x"
          and y: "char_at (txt t) k = Some y"
          by (auto split: option.splits)
        show ?thesis
        proof (cases "x = y")
          case True
          with r x y have "r = Break (add_links (active_node t) (t\<lparr>active_length := active_length t + 1\<rparr>))"
            by simp
          with c nl Some lt x y True show ?thesis by (intro rule_3_internal) simp_all
        next
          case False
          with r x y assms(2) obtain t' where "split_internal k c v t = Some t'" "r = Continue (next_suffix k t')"
            by (auto split: option.splits)
          with c nl Some lt x y False show ?thesis by (intro split_internal)
        qed
      qed
    qed
  next
    case (Some l)
    note sl = Some
    show ?thesis
    proof (cases "map_of (internal_children ?a) c")
      case (Some v)
      with sl c assms(1,2) show ?thesis
        by (simp add: extend_body_def Let_def assms(3) [symmetric])
    next
      case None
      have not_ge: "\<not> active_length t \<ge> leaf_edge_length t (leaves t ! l)"
        using sl None c assms(1,2)
        by (auto simp add: extend_body_def Let_def assms(3) [symmetric])
      then have lt: "active_length t < leaf_edge_length t (leaves t ! l)" by simp
      from sl None c not_ge assms(1) have r: "r = (case char_at (txt t) (start (leaves t ! l) + active_length t) of
             None \<Rightarrow> Abort
           | Some x \<Rightarrow> (case char_at (txt t) k of None \<Rightarrow> Abort
               | Some y \<Rightarrow> if x = y then Break (add_links (active_node t) (t\<lparr>active_length := active_length t + 1\<rparr>))
                   else (case split_leaf k c l t of None \<Rightarrow> Abort | Some t' \<Rightarrow> Continue (next_suffix k t'))))"
        by (auto simp add: extend_body_def Let_def assms(3) [symmetric] split: option.splits)
      with assms(2) obtain x y where x: "char_at (txt t) (start (leaves t ! l) + active_length t) = Some x"
        and y: "char_at (txt t) k = Some y"
        by (auto split: option.splits)
      show ?thesis
      proof (cases "x = y")
        case True
        with r x y have "r = Break (add_links (active_node t) (t\<lparr>active_length := active_length t + 1\<rparr>))"
          by simp
        with c sl None lt x y True show ?thesis by (intro rule_3_leaf) simp_all
      next
        case False
        with r x y assms(2) obtain t' where "split_leaf k c l t = Some t'" "r = Continue (next_suffix k t')"
          by (auto split: option.splits)
        with c sl None lt x y False show ?thesis by (intro split_leaf)
      qed
    qed
  qed
qed

lemma tree_wf_fields [simp]:
  "tree_wf (t\<lparr>active_edge := e\<rparr>) = tree_wf t"
  "tree_wf (t\<lparr>active_length := l\<rparr>) = tree_wf t"
  "tree_wf (t\<lparr>remainder := r\<rparr>) = tree_wf t"
  "tree_wf (t\<lparr>global_end := g\<rparr>) = tree_wf t"
  by (simp_all add: tree_wf_def)

lemma tree_wf_child:
  "tree_wf t \<Longrightarrow> u < length (inodes t) \<Longrightarrow> map_of (internal_children (inodes t ! u)) c = Some v \<Longrightarrow>
   v < length (inodes t)"
  by (auto dest!: tree_wf_node simp: node_wf_def)

lemma tree_wf_leaf_child:
  "tree_wf t \<Longrightarrow> u < length (inodes t) \<Longrightarrow> map_of (leaf_children (inodes t ! u)) c = Some l \<Longrightarrow>
   l < length (leaves t)"
  by (auto dest!: tree_wf_node simp: node_wf_def)

lemma wf_extend_body:
  assumes "tree_wf t0" "extend_body k t0 = Break t' \<or> extend_body k t0 = Continue t'"
  shows "tree_wf t'"
proof -
  define t where "t = (if active_length t0 = 0 then t0\<lparr>active_edge := k\<rparr> else t0)"
  have wf: "tree_wf t" using assms(1) by (simp add: t_def)
  note an = tree_wf_active [OF wf]
  define r where "r = extend_body k t0"
  have r: "r = Break t' \<or> r = Continue t'"
    using assms(2) by (auto simp: r_def)
  then have "r \<noteq> Abort" by auto
  with r_def [symmetric] show ?thesis using t_def
  proof (cases rule: extend_body_cases)
    case (rule_2b c)
    then show ?thesis using r wf
      by (auto intro!: wf_next_suffix wf_rule_2b)
  next
    case (walk_down c v)
    with tree_wf_child [OF wf an walk_down(3)] wf r
    show ?thesis by (auto simp: tree_wf_def)
  next
    case (rule_3_leaf c l x)
    then show ?thesis using r wf an
      by (auto intro!: wf_add_links)
  next
    case (rule_3_internal c v x)
    then show ?thesis using r wf an
      by (auto intro!: wf_add_links)
  next
    case (split_leaf c l x y t1)
    with tree_wf_leaf_child [OF wf an split_leaf(2)] wf r
    show ?thesis by (auto intro!: wf_next_suffix elim: wf_split_leaf [rotated])
  next
    case (split_internal c v x y t1)
    with tree_wf_child [OF wf an split_internal(3)] wf r
    show ?thesis by (auto intro!: wf_next_suffix elim: wf_split_internal [rotated])
  qed
qed

lemma nth_update_same_field:
  assumes "f v = f (xs ! i)"
  shows "f (xs[i := v] ! u) = f (xs ! u)"
proof (cases "i < length xs")
  case True
  then show ?thesis using assms by (cases "u = i") simp_all
next
  case False
  then have "xs[i := v] = xs" by (simp add: list_update_beyond)
  then show ?thesis by simp
qed

lemmas nf_nth_update = nth_update_same_field [where f = nf]

lemma nfz_add_links: "nf_zero t \<Longrightarrow> nf_zero (add_links nd t)"
  by (simp add: nf_zero_def)

lemma nf_zero_fields [simp]:
  "nf_zero (t\<lparr>active_edge := e\<rparr>) = nf_zero t"
  "nf_zero (t\<lparr>active_length := l\<rparr>) = nf_zero t"
  "nf_zero (t\<lparr>active_node := v\<rparr>) = nf_zero t"
  "nf_zero (t\<lparr>remainder := r\<rparr>) = nf_zero t"
  "nf_zero (t\<lparr>global_end := g\<rparr>) = nf_zero t"
  "nf_zero (t\<lparr>need_link := n\<rparr>) = nf_zero t"
  "nf_zero (t\<lparr>leaves := ls\<rparr>) = nf_zero t"
  by (simp_all add: nf_zero_def)

lemma nfz_rule_2b: "nf_zero t \<Longrightarrow> nf_zero (rule_2b k c t)"
  unfolding rule_2b_def Let_def
  by (rule nfz_add_links) (simp add: nf_zero_def nf_nth_update)

lemma nfz_split_leaf:
  assumes "nf_zero t" "split_leaf k c nd t = Some t'" "active_node t < length (inodes t)"
  shows "nf_zero t'"
  using assms(2,3)
proof (rule split_leaf_Some)
  fix ck cn
  assume "t' = add_links (length (inodes t))
       (t\<lparr>leaves := (leaves t)[nd := (leaves t ! nd)\<lparr>start := start (leaves t ! nd) + active_length t\<rparr>] @ [\<lparr>start = k\<rparr>],
          inodes := (inodes t)[active_node t := (inodes t ! active_node t)
                \<lparr>internal_children := AList.update c (length (inodes t)) (internal_children (inodes t ! active_node t)),
                 leaf_children := AList.delete c (leaf_children (inodes t ! active_node t))\<rparr>]
             @ [(new_inode (start (leaves t ! nd)) (start (leaves t ! nd) + active_length t))
                       \<lparr>leaf_children := AList.update cn nd (AList.update ck (length (leaves t)) [])\<rparr>]\<rparr>)"
  then show ?thesis using assms(1)
    by (auto simp add: nf_zero_def nth_append nf_nth_update new_inode_def less_Suc_eq)
qed

lemma nfz_split_internal:
  assumes "nf_zero t" "split_internal k c nd t = Some t'" "active_node t < length (inodes t)"
    "nd < length (inodes t)"
  shows "nf_zero t'"
  using assms(2,3,4)
proof (rule split_internal_Some)
  fix ck cn
  assume "t' = add_links (length (inodes t))
       (t\<lparr>leaves := leaves t @ [\<lparr>start = k\<rparr>],
          inodes := (inodes t)[nd := (inodes t ! nd)\<lparr>start := start (inodes t ! nd) + active_length t\<rparr>,
                active_node t := ((inodes t)[nd := (inodes t ! nd)\<lparr>start := start (inodes t ! nd) + active_length t\<rparr>] ! active_node t)
                \<lparr>internal_children := AList.update c (length (inodes t))
                    (internal_children ((inodes t)[nd := (inodes t ! nd)\<lparr>start := start (inodes t ! nd) + active_length t\<rparr>] ! active_node t))\<rparr>]
             @ [(new_inode (start (inodes t ! nd)) (start (inodes t ! nd) + active_length t))
                       \<lparr>leaf_children := AList.update ck (length (leaves t)) [],
                        internal_children := AList.update cn nd []\<rparr>]\<rparr>)"
  then show ?thesis using assms(1)
    by (auto simp add: nf_zero_def nth_append nf_nth_update new_inode_def less_Suc_eq)
qed

lemma nfz_next_suffix: "nf_zero t \<Longrightarrow> nf_zero (next_suffix k t)"
  by (simp add: next_suffix_def Let_def split: option.splits)

lemma nfz_extend_body:
  assumes "tree_wf t0" "nf_zero t0" "extend_body k t0 = Break t' \<or> extend_body k t0 = Continue t'"
  shows "nf_zero t'"
proof -
  define t where "t = (if active_length t0 = 0 then t0\<lparr>active_edge := k\<rparr> else t0)"
  have wf: "tree_wf t" and z: "nf_zero t" using assms(1,2) by (simp_all add: t_def)
  note an = tree_wf_active [OF wf]
  define r where "r = extend_body k t0"
  have r: "r = Break t' \<or> r = Continue t'"
    using assms(3) by (auto simp: r_def)
  then have "r \<noteq> Abort" by auto
  with r_def [symmetric] show ?thesis using t_def
  proof (cases rule: extend_body_cases)
    case (rule_2b c)
    then show ?thesis using r z by (auto intro!: nfz_next_suffix nfz_rule_2b)
  next
    case (walk_down c v)
    then show ?thesis using r z by auto
  next
    case (rule_3_leaf c l x)
    then show ?thesis using r z by (auto intro!: nfz_add_links)
  next
    case (rule_3_internal c v x)
    then show ?thesis using r z by (auto intro!: nfz_add_links)
  next
    case (split_leaf c l x y t1)
    with nfz_split_leaf [OF z split_leaf(8) an] r
    show ?thesis by (auto intro!: nfz_next_suffix)
  next
    case (split_internal c v x y t1)
    with nfz_split_internal [OF z split_internal(8) an tree_wf_child [OF wf an split_internal(3)]] r
    show ?thesis by (auto intro!: nfz_next_suffix)
  qed
qed

lemma extend_loop_rule:
  assumes run: "extend_loop k t = Some t'" and "I t"
    and step: "\<And>t t'. I t \<Longrightarrow> remainder t \<noteq> 0 \<Longrightarrow> extend_body k t = Continue t' \<Longrightarrow> I t'"
    and brk: "\<And>t t'. I t \<Longrightarrow> remainder t \<noteq> 0 \<Longrightarrow> extend_body k t = Break t' \<Longrightarrow> Q t'"
    and fin: "\<And>t. I t \<Longrightarrow> remainder t = 0 \<Longrightarrow> Q t"
  shows "Q t'"
proof -
  have "k = k \<longrightarrow> I t \<longrightarrow> Q t'"
  proof (rule extend_loop.raw_induct [where P = "\<lambda>k' t y. k' = k \<longrightarrow> I t \<longrightarrow> Q y", OF _ run])
    fix f k' t y
    assume IH: "\<And>k' t y. f k' t = Some y \<Longrightarrow> k' = k \<longrightarrow> I t \<longrightarrow> Q y"
      and body: "(if \<not> 0 < remainder t then Some t
         else case extend_body k' t of Abort \<Rightarrow> None | Break t' \<Rightarrow> Some t'
              | Continue t' \<Rightarrow> f k' t') = Some y"
    show "k' = k \<longrightarrow> I t \<longrightarrow> Q y"
    proof (intro impI)
      assume k': "k' = k" and inv: "I t"
      show "Q y"
      proof (cases "remainder t = 0")
        case True
        with body inv show ?thesis by (auto intro: fin)
      next
        case False
        then have pos: "0 < remainder t" by (simp add: word_greater_zero_iff)
        show ?thesis
        proof (cases "extend_body k t")
          case Abort
          with body pos k' show ?thesis by simp
        next
          case (Break t1)
          with body pos k' inv False show ?thesis by (auto intro: brk)
        next
          case (Continue t1)
          with body pos k' have "f k t1 = Some y" by simp
          moreover have "I t1" using step [OF inv False Continue] .
          ultimately show ?thesis using IH by blast
        qed
      qed
    qed
  qed
  with assms(2) show ?thesis by blast
qed

lemma build_loop_rule:
  assumes run: "build_loop k t = Some t'" and "I k t"
    and step: "\<And>k t t'. I k t \<Longrightarrow> unat k < length (txt t) \<Longrightarrow> extend k t = Some t' \<Longrightarrow> I (k + 1) t'"
    and fin: "\<And>k t. I k t \<Longrightarrow> \<not> unat k < length (txt t) \<Longrightarrow> Q t"
  shows "Q t'"
proof -
  have "I k t \<longrightarrow> Q t'"
  proof (rule build_loop.raw_induct [where P = "\<lambda>k t y. I k t \<longrightarrow> Q y", OF _ run])
    fix f k t y
    assume IH: "\<And>k t y. f k t = Some y \<Longrightarrow> I k t \<longrightarrow> Q y"
      and body: "(if unat k < length (txt t)
          then case extend k t of None \<Rightarrow> None | Some t' \<Rightarrow> f (k + 1) t'
          else Some t) = Some y"
    show "I k t \<longrightarrow> Q y"
    proof (cases "unat k < length (txt t)")
      case True
      with body obtain t1 where "extend k t = Some t1" "f (k + 1) t1 = Some y"
        by (auto split: option.splits)
      with True IH step show ?thesis by blast
    next
      case False
      with body fin show ?thesis by auto
    qed
  qed
  with assms(2) show ?thesis by blast
qed

lemma built_extend_loop: "extend_loop k t = Some t' \<Longrightarrow> built t \<Longrightarrow> built t'"
  by (erule extend_loop_rule [where I = built])
     (auto simp: built_def intro: wf_extend_body nfz_extend_body)

lemma built_extend: "extend k t = Some t' \<Longrightarrow> built t \<Longrightarrow> built t'"
  unfolding extend_def
  by (auto split: option.splits dest!: built_extend_loop simp: built_def tree_wf_def nf_zero_def)

lemma built_SuffixTree: "SuffixTree s = Some t \<Longrightarrow> built t"
  unfolding SuffixTree_def
proof (erule build_loop_rule [where I = "\<lambda>k. built"])
  show "built (init_tree s)"
    by (simp add: init_tree_def built_def tree_wf_def nf_zero_def node_wf_def new_inode_def root_def)
qed (auto intro: built_extend)

section \<open>The query functions on well-formed trees\<close>

lemma find_loop_rule:
  assumes run: "find_loop t s nd i = Some r" and "I nd i"
    and exh: "\<And>nd i. I nd i \<Longrightarrow> length s \<le> unat i \<Longrightarrow> Q (Some nd, of_nat (unat i - length s))"
    and leaf: "\<And>nd i. I nd i \<Longrightarrow> unat i < length s \<Longrightarrow>
        map_of (internal_children (inodes t ! nd)) (s ! unat i) = None \<Longrightarrow>
        map_of (leaf_children (inodes t ! nd)) (s ! unat i) \<noteq> None \<Longrightarrow> Q (None, 1)"
    and none: "\<And>nd i. I nd i \<Longrightarrow> unat i < length s \<Longrightarrow>
        map_of (internal_children (inodes t ! nd)) (s ! unat i) = None \<Longrightarrow>
        map_of (leaf_children (inodes t ! nd)) (s ! unat i) = None \<Longrightarrow> Q (None, 0)"
    and mism: "\<And>nd i v a b. I nd i \<Longrightarrow> unat i < length s \<Longrightarrow>
        map_of (internal_children (inodes t ! nd)) (s ! unat i) = Some v \<Longrightarrow>
        substr s (unat i) (unat (min (edge_length (inodes t ! v)) (of_nat (length s) - i))) = Some a \<Longrightarrow>
        substr (txt t) (unat (start (inodes t ! v)))
          (unat (min (edge_length (inodes t ! v)) (of_nat (length s) - i))) = Some b \<Longrightarrow>
        a \<noteq> b \<Longrightarrow> Q (None, 0)"
    and step: "\<And>nd i v a. I nd i \<Longrightarrow> unat i < length s \<Longrightarrow>
        map_of (internal_children (inodes t ! nd)) (s ! unat i) = Some v \<Longrightarrow>
        substr s (unat i) (unat (min (edge_length (inodes t ! v)) (of_nat (length s) - i))) = Some a \<Longrightarrow>
        substr (txt t) (unat (start (inodes t ! v)))
          (unat (min (edge_length (inodes t ! v)) (of_nat (length s) - i))) = Some a \<Longrightarrow>
        I v (i + edge_length (inodes t ! v))"
  shows "Q r"
proof -
  have "t = t \<longrightarrow> s = s \<longrightarrow> I nd i \<longrightarrow> Q r"
  proof (rule find_loop.raw_induct
      [where P = "\<lambda>t' s' nd i r. t' = t \<longrightarrow> s' = s \<longrightarrow> I nd i \<longrightarrow> Q r", OF _ run])
    fix f t' s' nd i r
    assume IH: "\<And>t' s' nd i r. f t' s' nd i = Some r \<Longrightarrow> t' = t \<longrightarrow> s' = s \<longrightarrow> I nd i \<longrightarrow> Q r"
      and body: "(if length s' \<le> unat i then Some (Some nd, word_of_nat (unat i - length s'))
         else let c = s' ! unat i
              in case map_of (internal_children (inodes t' ! nd)) c of
                 None \<Rightarrow> if map_of (leaf_children (inodes t' ! nd)) c \<noteq> None then Some (None, 1) else Some (None, 0)
                 | Some internal_child \<Rightarrow>
                     let len = min (edge_length (inodes t' ! internal_child)) (word_of_nat (length s') - i)
                     in case substr s' (unat i) (unat len) of None \<Rightarrow> None
                        | Some a \<Rightarrow>
                            (case substr (txt t') (unat (start (inodes t' ! internal_child))) (unat len) of
                             None \<Rightarrow> None
                             | Some b \<Rightarrow>
                                 if a = b then f t' s' internal_child (i + edge_length (inodes t' ! internal_child))
                                 else Some (None, 0))) = Some r"
    show "t' = t \<longrightarrow> s' = s \<longrightarrow> I nd i \<longrightarrow> Q r"
    proof (intro impI)
      assume t': "t' = t" and s': "s' = s" and inv: "I nd i"
      show "Q r"
      proof (cases "length s \<le> unat i")
        case True
        with exh [OF inv True] body t' s' show ?thesis by simp
      next
        case False
        then have lt: "unat i < length s" by simp
        show ?thesis
        proof (cases "map_of (internal_children (inodes t ! nd)) (s ! unat i)")
          case None
          with body False t' s' have
            "r = (if map_of (leaf_children (inodes t ! nd)) (s ! unat i) \<noteq> None then (None, 1) else (None, 0))"
            by (simp split: if_splits)
          with leaf [OF inv lt None] none [OF inv lt None] show ?thesis by (simp split: if_splits)
        next
          case (Some v)
          let ?len = "unat (min (edge_length (inodes t ! v)) (of_nat (length s) - i))"
          from body False t' s' Some obtain a b where a: "substr s (unat i) ?len = Some a"
            and b: "substr (txt t) (unat (start (inodes t ! v))) ?len = Some b"
            and r: "(if a = b then f t s v (i + edge_length (inodes t ! v)) else Some (None, 0)) = Some r"
            by (auto simp: Let_def split: option.splits)
          show ?thesis
          proof (cases "a = b")
            case True
            with r have "f t s v (i + edge_length (inodes t ! v)) = Some r" by simp
            moreover have "I v (i + edge_length (inodes t ! v))"
              using step [OF inv lt Some a] b True by simp
            ultimately show ?thesis using IH by blast
          next
            case False
            with r mism [OF inv lt Some a b] show ?thesis by simp
          qed
        qed
      qed
    qed
  qed
  with assms(2) show ?thesis by blast
qed

lemma find_loop_node:
  assumes "find_loop t s nd i = Some (Some S, l)" "tree_wf t" "nd < length (inodes t)"
  shows "S < length (inodes t)"
proof -
  have "case fst (Some S, l) of None \<Rightarrow> True | Some S \<Rightarrow> S < length (inodes t)"
    using assms(1)
  proof (rule find_loop_rule [where I = "\<lambda>nd i. nd < length (inodes t)"
          and Q = "\<lambda>r. case fst r of None \<Rightarrow> True | Some S \<Rightarrow> S < length (inodes t)"])
    show "nd < length (inodes t)" by fact
  qed (auto intro: tree_wf_child [OF assms(2)])
  then show ?thesis by simp
qed

lemma find_internal_node_node:
  "find_internal_node t s = Some (Some S, l) \<Longrightarrow> tree_wf t \<Longrightarrow> S < length (inodes t)"
  unfolding find_internal_node_def
  by (erule find_loop_node) (auto dest: tree_wf_active simp: root_def)

lemma find_internal_node_empty: "find_internal_node t [] = Some (Some root, 0)"
  unfolding find_internal_node_def by (subst find_loop.simps) simp

subsection \<open>The counting loops in closed form\<close>

lemma count_shared_eq:
  "count_shared xs ss n = n - of_nat (length (filter (\<lambda>y. y \<in> fst ` set ss) (map fst xs)))"
proof -
  have "fold (\<lambda>(y, _) n. if map_of ss y \<noteq> None then n - 1 else n) xs n =
        n - of_nat (length (filter (\<lambda>y. y \<in> fst ` set ss) (map fst xs)))" for n :: u32
    by (induction xs arbitrary: n) (fastforce simp: map_of_eq_None_iff image_iff)+
  then show ?thesis by (simp add: count_shared_def)
qed

lemma length_filter_keys:
  assumes "distinct ks"
  shows "length (filter (\<lambda>y. y \<in> K) ks) = card (set ks \<inter> K)"
proof -
  have "distinct (filter (\<lambda>y. y \<in> K) ks)" using assms by simp
  then have "length (filter (\<lambda>y. y \<in> K) ks) = card (set (filter (\<lambda>y. y \<in> K) ks))"
    by (rule distinct_card [symmetric])
  also have "set (filter (\<lambda>y. y \<in> K) ks) = set ks \<inter> K" by auto
  finally show ?thesis .
qed

lemma fold_count_shared:
  "fold (\<lambda>xS n. count_shared (L xS) ss n) ws n =
   n - of_nat (\<Sum>xS\<leftarrow>ws. length (filter (\<lambda>y. y \<in> fst ` set ss) (map fst (L xS))))"
  by (induction ws arbitrary: n) (simp_all add: count_shared_eq)

lemma card_shared_pairs:
  assumes "distinct ws" and that: "\<And>x. finite (A x)"
  shows "card {(xS, y). xS \<in> set ws \<and> y \<in> A xS \<and> y \<in> B} = (\<Sum>xS\<leftarrow>ws. card (A xS \<inter> B))"
proof -
  have "{(xS, y). xS \<in> set ws \<and> y \<in> A xS \<and> y \<in> B} = (SIGMA xS:set ws. A xS \<inter> B)"
    by auto
  then have "card {(xS, y). xS \<in> set ws \<and> y \<in> A xS \<and> y \<in> B} = (\<Sum>xS\<in>set ws. card (A xS \<inter> B))"
    using that by (simp add: card_SigmaI)
  also have "\<dots> = (\<Sum>xS\<leftarrow>ws. card (A xS \<inter> B))"
    using assms by (simp add: sum_list_distinct_conv_sum_set)
  finally show ?thesis .
qed

lemma length_char_keys:
  assumes "distinct (map fst (al :: (char \<times> 'a) list))"
  shows "length al \<le> 256" and "length al = card (fst ` set al)"
proof -
  show *: "length al = card (fst ` set al)"
    using distinct_card [OF assms] by simp
  have "card (fst ` set al) \<le> card (UNIV :: char set)"
    by (rule card_mono) simp_all
  with * show "length al \<le> 256" by (simp add: card_UNIV_char)
qed

lemma small_of_nat_eq_0:
  assumes "(of_nat n :: u32) = 0" "n \<le> 256"
  shows "n = 0"
proof -
  from assms(1) have "2 ^ 32 dvd n" by (simp add: word_of_nat_eq_0_iff)
  with assms(2) show ?thesis by (auto dest: dvd_imp_le)
qed

lemma single_nf_closed_form:
  assumes wf: "tree_wf t" and find: "find_internal_node t s = Some (Some S, 0)"
  shows "single_nf t s = Some (word_of_int (net_frequency t S))"
proof -
  have S: "S < length (inodes t)" using find wf by (rule find_internal_node_node)
  note nS = tree_wf_node [OF wf S]
  let ?L = "leaf_children (inodes t ! S)" and ?ws = "weiner_links (inodes t ! S)"
  have dL: "distinct (map fst ?L)" and dw: "distinct ?ws"
    and ws: "\<forall>v\<in>set ?ws. v < length (inodes t)"
    using nS by (simp_all add: node_wf_def)
  have len: "length ?L = card (leaf_keys t S)" "length ?L \<le> 256"
    using length_char_keys [OF dL] by (simp_all add: leaf_keys_def)
  have each: "length (filter (\<lambda>y. y \<in> fst ` set ?L) (map fst (leaf_children (inodes t ! xS)))) =
              card (leaf_keys t xS \<inter> leaf_keys t S)" if "xS \<in> set ?ws" for xS
  proof -
    from that ws have xS: "xS < length (inodes t)" by blast
    have "distinct (map fst (leaf_children (inodes t ! xS)))"
      using tree_wf_node [OF wf xS] by (simp add: node_wf_def)
    from length_filter_keys [OF this, of "fst ` set ?L"]
    show ?thesis unfolding leaf_keys_def by (simp only: set_map)
  qed
  have pairs: "card {(xS, y). xS \<in> set ?ws \<and> y \<in> leaf_keys t xS \<and> y \<in> leaf_keys t S} =
               (\<Sum>xS\<leftarrow>?ws. card (leaf_keys t xS \<inter> leaf_keys t S))"
    using card_shared_pairs [OF dw, where A = "leaf_keys t" and B = "leaf_keys t S"]
    by (simp add: leaf_keys_def)
  have sum: "(\<Sum>xS\<leftarrow>?ws. length (filter (\<lambda>y. y \<in> fst ` set ?L) (map fst (leaf_children (inodes t ! xS))))) =
             (\<Sum>xS\<leftarrow>?ws. card (leaf_keys t xS \<inter> leaf_keys t S))"
    by (rule arg_cong [where f = sum_list], rule map_cong [OF refl]) (rule each)
  have fold_eq: "fold (\<lambda>xS n. count_shared (leaf_children (inodes t ! xS)) ?L n) ?ws n =
      n - of_nat (card {(xS, y). xS \<in> set ?ws \<and> y \<in> leaf_keys t xS \<and> y \<in> leaf_keys t S})"
    for n :: u32
    unfolding fold_count_shared sum pairs ..
  have nf_eq: "(of_nat (length ?L) :: u32) -
        of_nat (card {(xS, y). xS \<in> set ?ws \<and> y \<in> leaf_keys t xS \<and> y \<in> leaf_keys t S}) =
        word_of_int (net_frequency t S)"
    unfolding net_frequency_def len(1) by simp
  show ?thesis
  proof (cases "(of_nat (length ?L) :: u32) = 0")
    case True
    with len(2) have "length ?L = 0"
      by (intro small_of_nat_eq_0)
    then have "leaf_keys t S = {}" by (simp add: leaf_keys_def)
    then have "net_frequency t S = 0" by (simp add: net_frequency_def)
    moreover from True find have "single_nf t s = Some 0" by (simp add: single_nf_def)
    ultimately show ?thesis by simp
  next
    case False
    with find have "single_nf t s =
        Some (fold (\<lambda>xS n. count_shared (leaf_children (inodes t ! xS)) ?L n) ?ws (of_nat (length ?L)))"
      by (simp add: single_nf_def Let_def)
    then show ?thesis unfolding fold_eq nf_eq .
  qed
qed

section \<open>The accumulation pass adds the same amounts on every call\<close>

lemma add_nf_simps [simp]:
  "length (inodes (add_nf d t)) = length (inodes t)"
  "txt (add_nf d t) = txt t"
  "u < length (inodes t) \<Longrightarrow> inodes (add_nf d t) ! u = (inodes t ! u)\<lparr>nf := nf (inodes t ! u) + d u\<rparr>"
  by (simp_all add: add_nf_def)

lemma add_nf_zero: "add_nf (\<lambda>_. 0) t = t"
proof -
  have "map (\<lambda>u. (inodes t ! u)\<lparr>nf := nf (inodes t ! u) + 0\<rparr>) [0..<length (inodes t)] = inodes t"
    by (rule nth_equalityI) simp_all
  then show ?thesis by (simp add: add_nf_def)
qed

lemma add_nf_add_nf: "add_nf d2 (add_nf d1 t) = add_nf (\<lambda>u. d1 u + d2 u) t"
  by (simp add: add_nf_def add.assoc)

lemma same_shape_refl [simp]: "same_shape t t"
  by (simp add: same_shape_def)

lemma same_shape_add_nf [simp]: "same_shape t (add_nf d t') = same_shape t t'"
proof -
  have "map (\<lambda>x. x\<lparr>nf := 0\<rparr>) (inodes (add_nf d t')) = map (\<lambda>x. x\<lparr>nf := 0\<rparr>) (inodes t')"
    by (rule nth_equalityI) simp_all
  then show ?thesis by (simp add: same_shape_def)
qed

lemma same_shape_length: "same_shape t t' \<Longrightarrow> length (inodes t') = length (inodes t)"
  unfolding same_shape_def by (auto dest: map_eq_imp_length_eq)

lemma same_shape_node:
  assumes "same_shape t t'" "u < length (inodes t)"
  shows "(inodes t' ! u)\<lparr>nf := 0\<rparr> = (inodes t ! u)\<lparr>nf := 0\<rparr>"
proof -
  from assms(1) have "map (\<lambda>x. x\<lparr>nf := 0\<rparr>) (inodes t') ! u = map (\<lambda>x. x\<lparr>nf := 0\<rparr>) (inodes t) ! u"
    by (simp add: same_shape_def)
  then show ?thesis using assms(2) same_shape_length [OF assms(1)] by simp
qed

lemma same_shape_fields:
  assumes "same_shape t t'" "u < length (inodes t)"
  shows "start (inodes t' ! u) = start (inodes t ! u)"
    "end_idx (inodes t' ! u) = end_idx (inodes t ! u)"
    "internal_children (inodes t' ! u) = internal_children (inodes t ! u)"
    "leaf_children (inodes t' ! u) = leaf_children (inodes t ! u)"
    "suffix_link (inodes t' ! u) = suffix_link (inodes t ! u)"
    "weiner_links (inodes t' ! u) = weiner_links (inodes t ! u)"
proof -
  note e = same_shape_node [OF assms]
  show "start (inodes t' ! u) = start (inodes t ! u)"
    using arg_cong [OF e, of start] by simp
  show "end_idx (inodes t' ! u) = end_idx (inodes t ! u)"
    using arg_cong [OF e, of end_idx] by simp
  show "internal_children (inodes t' ! u) = internal_children (inodes t ! u)"
    using arg_cong [OF e, of internal_children] by simp
  show "leaf_children (inodes t' ! u) = leaf_children (inodes t ! u)"
    using arg_cong [OF e, of leaf_children] by simp
  show "suffix_link (inodes t' ! u) = suffix_link (inodes t ! u)"
    using arg_cong [OF e, of suffix_link] by simp
  show "weiner_links (inodes t' ! u) = weiner_links (inodes t ! u)"
    using arg_cong [OF e, of weiner_links] by simp
qed

lemma edge_length_same_shape:
  "same_shape t t' \<Longrightarrow> u < length (inodes t) \<Longrightarrow>
   edge_length (inodes t' ! u) = edge_length (inodes t ! u)"
  by (simp add: edge_length_def same_shape_fields)

text \<open>The inner loop of process: the decrements all land on the nf field of S.\<close>

lemma fold_decrement:
  assumes "S < length ns" "leaf_children (ns ! S) = LS"
  shows "fold (\<lambda>(y, _) ns. if map_of (leaf_children (ns ! S)) y \<noteq> None
                            then ns[S := (ns ! S)\<lparr>nf := nf (ns ! S) - 1\<rparr>] else ns) L ns =
         ns[S := (ns ! S)\<lparr>nf := nf (ns ! S) -
              of_nat (length (filter (\<lambda>p. map_of LS (fst p) \<noteq> None) L))\<rparr>]"
  using assms
proof (induction L arbitrary: ns)
  case Nil
  then show ?case by simp
next
  case (Cons p L)
  obtain y z where p: "p = (y, z)" by (cases p)
  let ?F = "\<lambda>(y, _) ns. if map_of (leaf_children (ns ! S)) y \<noteq> None
                            then ns[S := (ns ! S)\<lparr>nf := nf (ns ! S) - 1\<rparr>] else ns"
  let ?c = "length (filter (\<lambda>p. map_of LS (fst p) \<noteq> None) L)"
  show ?case
  proof (cases "map_of LS y = None")
    case False
    let ?ns1 = "ns[S := (ns ! S)\<lparr>nf := nf (ns ! S) - 1\<rparr>]"
    have l: "S < length ?ns1" and lc: "leaf_children (?ns1 ! S) = LS"
      using Cons.prems by simp_all
    have "fold ?F (p # L) ns = fold ?F L ?ns1"
      using False Cons.prems by (simp add: p)
    also have "\<dots> = ?ns1[S := (?ns1 ! S)\<lparr>nf := nf (?ns1 ! S) - of_nat ?c\<rparr>]"
      by (rule Cons.IH [OF l lc])
    also have "\<dots> = ns[S := (ns ! S)\<lparr>nf := nf (ns ! S) - of_nat (Suc ?c)\<rparr>]"
      using Cons.prems by (simp add: algebra_simps)
    also have "Suc ?c = length (filter (\<lambda>p. map_of LS (fst p) \<noteq> None) (p # L))"
      using False by (simp add: p)
    finally show ?thesis .
  next
    case True
    have "fold ?F (p # L) ns = fold ?F L ns"
      using True Cons.prems by (simp add: p)
    also have "\<dots> = ns[S := (ns ! S)\<lparr>nf := nf (ns ! S) - of_nat ?c\<rparr>]"
      by (rule Cons.IH [OF Cons.prems])
    also have "?c = length (filter (\<lambda>p. map_of LS (fst p) \<noteq> None) (p # L))"
      using True by (simp add: p)
    finally show ?thesis .
  qed
qed

lemma process_node_add_nf:
  assumes ok: "process_node xS t \<noteq> None" and wf: "tree_wf t" and xS: "xS < length (inodes t)"
    and sh: "same_shape t t'"
  shows "process_node xS t' = Some (add_nf (process_delta t xS) t')"
proof -
  let ?x = "inodes t ! xS" and ?x' = "inodes t' ! xS"
  note len = same_shape_length [OF sh]
  note f = same_shape_fields [OF sh xS]
  show ?thesis
  proof (cases "leaf_children ?x = []")
    case True
    then have "process_delta t xS = (\<lambda>_. 0)" by (simp add: process_delta_def fun_eq_iff)
    then show ?thesis using True f by (simp add: process_node_def add_nf_zero)
  next
    case False
    with ok obtain S where S: "suffix_link ?x = Some S"
      by (auto simp: process_node_def Let_def split: option.splits)
    have S_lt: "S < length (inodes t)"
      using tree_wf_node [OF wf xS] S by (simp add: node_wf_def)
    let ?L = "leaf_children ?x"
    let ?LS = "leaf_children (inodes t ! S)"
    let ?ns0 = "(inodes t')[xS := ?x'\<lparr>nf := nf ?x' + of_nat (length ?L)\<rparr>]"
    let ?c = "length (filter (\<lambda>p. map_of ?LS (fst p) \<noteq> None) ?L)"
    have l0: "S < length ?ns0" using S_lt len by simp
    have lc0: "leaf_children (?ns0 ! S) = ?LS"
      using S_lt xS len same_shape_fields(4) [OF sh S_lt] by (cases "S = xS") simp_all
    have "process_node xS t' =
      Some (t'\<lparr>inodes := fold (\<lambda>(y, _) ns. if map_of (leaf_children (ns ! S)) y \<noteq> None
                            then ns[S := (ns ! S)\<lparr>nf := nf (ns ! S) - 1\<rparr>] else ns) ?L ?ns0\<rparr>)"
      using False S f by (simp add: process_node_def Let_def)
    also have "\<dots> = Some (t'\<lparr>inodes := ?ns0[S := (?ns0 ! S)\<lparr>nf := nf (?ns0 ! S) - of_nat ?c\<rparr>]\<rparr>)"
      by (simp only: fold_decrement [OF l0 lc0])
    also have "?ns0[S := (?ns0 ! S)\<lparr>nf := nf (?ns0 ! S) - of_nat ?c\<rparr>] =
        map (\<lambda>u. (inodes t' ! u)\<lparr>nf := nf (inodes t' ! u) + process_delta t xS u\<rparr>) [0..<length (inodes t')]"
    proof (rule nth_equalityI)
      show "length (?ns0[S := (?ns0 ! S)\<lparr>nf := nf (?ns0 ! S) - of_nat ?c\<rparr>]) =
            length (map (\<lambda>u. (inodes t' ! u)\<lparr>nf := nf (inodes t' ! u) + process_delta t xS u\<rparr>) [0..<length (inodes t')])"
        by simp
    next
      fix u assume "u < length (?ns0[S := (?ns0 ! S)\<lparr>nf := nf (?ns0 ! S) - of_nat ?c\<rparr>])"
      then have u: "u < length (inodes t')" by simp
      have d: "process_delta t xS u =
          (if u = xS then of_nat (length ?L) else 0) - (if u = S then of_nat ?c else 0)"
        unfolding process_delta_def Let_def using False S by auto
      have r: "map (\<lambda>u. (inodes t' ! u)\<lparr>nf := nf (inodes t' ! u) + process_delta t xS u\<rparr>) [0..<length (inodes t')] ! u
            = (inodes t' ! u)\<lparr>nf := nf (inodes t' ! u) + process_delta t xS u\<rparr>"
        using u by simp
      have xS': "xS < length (inodes t')" and S': "S < length (inodes t')"
        using xS S_lt len by simp_all
      consider "u = xS" "u = S" | "u = xS" "u \<noteq> S" | "u \<noteq> xS" "u = S" | "u \<noteq> xS" "u \<noteq> S"
        by blast
      then show "?ns0[S := (?ns0 ! S)\<lparr>nf := nf (?ns0 ! S) - of_nat ?c\<rparr>] ! u =
            map (\<lambda>u. (inodes t' ! u)\<lparr>nf := nf (inodes t' ! u) + process_delta t xS u\<rparr>) [0..<length (inodes t')] ! u"
      proof cases
        case 1
        then show ?thesis unfolding r d using xS' by simp
      next
        case 2
        then show ?thesis unfolding r d using xS' S' by simp
      next
        case 3
        then show ?thesis unfolding r d using xS' S' by simp
      next
        case 4
        then show ?thesis unfolding r d using xS' S' u by simp
      qed
    qed
    finally show ?thesis by (simp add: add_nf_def)
  qed
qed

lemma same_shape_sym: "same_shape t t' \<Longrightarrow> same_shape t' t"
  by (simp add: same_shape_def)

lemma same_shape_trans: "same_shape t t' \<Longrightarrow> same_shape t' t'' \<Longrightarrow> same_shape t t''"
  by (simp add: same_shape_def)

lemma process_node_None_iff:
  "process_node xS t = None \<longleftrightarrow>
     leaf_children (inodes t ! xS) \<noteq> [] \<and> suffix_link (inodes t ! xS) = None"
  by (auto simp: process_node_def Let_def split: option.splits)

lemma process_node_same_shape:
  assumes "process_node xS t \<noteq> None" "same_shape t0 t" "tree_wf t0" "xS < length (inodes t0)"
    "same_shape t0 t'"
  shows "process_node xS t' = Some (add_nf (process_delta t0 xS) t')"
proof -
  have "process_node xS t0 \<noteq> None"
    using assms(1) same_shape_fields [OF assms(2,4)] by (simp add: process_node_None_iff)
  then show ?thesis using assms(3,4,5) by (rule process_node_add_nf)
qed

lemma process_children_delta:
  assumes run: "process_children cs t = Some t1" and wf: "tree_wf t0" and sh: "same_shape t0 t"
    and cs: "\<forall>c\<in>set cs. c < length (inodes t0)"
  shows "\<exists>d. t1 = add_nf d t \<and>
             (\<forall>t'. same_shape t0 t' \<longrightarrow> process_children cs t' = Some (add_nf d t'))"
proof -
  let ?P = "\<lambda>cs t t1. same_shape t0 t \<longrightarrow> (\<forall>c\<in>set cs. c < length (inodes t0)) \<longrightarrow>
      (\<exists>d. t1 = add_nf d t \<and>
           (\<forall>t'. same_shape t0 t' \<longrightarrow> process_children cs t' = Some (add_nf d t')))"
  have "?P cs t t1"
  proof (rule process_children.raw_induct [where P = ?P, OF _ run])
    fix f cs t y
    assume IH: "\<And>cs t y. f cs t = Some y \<Longrightarrow> ?P cs t y"
      and body: "(case cs of [] \<Rightarrow> Some t
         | xS # rest \<Rightarrow>
             (case process_node xS t of None \<Rightarrow> None
              | Some t1 \<Rightarrow> Option.bind (f (map snd (internal_children (inodes t1 ! xS))) t1) (f rest))) = Some y"
    show "?P cs t y"
    proof (intro impI)
      assume sh: "same_shape t0 t" and cs: "\<forall>c\<in>set cs. c < length (inodes t0)"
      show "\<exists>d. y = add_nf d t \<and>
           (\<forall>t'. same_shape t0 t' \<longrightarrow> process_children cs t' = Some (add_nf d t'))"
      proof (cases cs)
        case Nil
        with body have "y = add_nf (\<lambda>_. 0) t" by (simp add: add_nf_zero)
        moreover have "process_children cs t' = Some (add_nf (\<lambda>_. 0) t')" for t'
          unfolding Nil by (subst process_children.simps) (simp add: add_nf_zero)
        ultimately show ?thesis by blast
      next
        case (Cons xS rest)
        have xS: "xS < length (inodes t0)" and rest: "\<forall>c\<in>set rest. c < length (inodes t0)"
          using cs Cons by simp_all
        from body Cons obtain ta tb where ta: "process_node xS t = Some ta"
          and tb: "f (map snd (internal_children (inodes ta ! xS))) ta = Some tb"
          and y: "f rest tb = Some y"
          by (auto split: option.splits Option.bind_splits)
        let ?d1 = "process_delta t0 xS"
        have pn: "process_node xS t' = Some (add_nf ?d1 t')" if "same_shape t0 t'" for t'
          using ta sh wf xS that by (intro process_node_same_shape [where t = t]) simp_all
        from pn [OF sh] ta have ta_eq: "ta = add_nf ?d1 t" by simp
        have sh_a: "same_shape t0 ta" using sh by (simp add: ta_eq)
        let ?ch = "map snd (internal_children (inodes t0 ! xS))"
        have ch: "map snd (internal_children (inodes t' ! xS)) = ?ch" if "same_shape t0 t'" for t'
          using same_shape_fields(3) [OF that xS] by simp
        have ch_ok: "\<forall>c\<in>set ?ch. c < length (inodes t0)"
        proof
          fix c assume "c \<in> set ?ch"
          then obtain k where "(k, c) \<in> set (internal_children (inodes t0 ! xS))" by auto
          moreover have "distinct (map fst (internal_children (inodes t0 ! xS)))"
            using tree_wf_node [OF wf xS] by (simp add: node_wf_def)
          ultimately have "map_of (internal_children (inodes t0 ! xS)) k = Some c" by simp
          then show "c < length (inodes t0)" using tree_wf_child [OF wf xS] by blast
        qed
        from tb have "f ?ch ta = Some tb" by (simp add: ch [OF sh_a])
        from IH [OF this] sh_a ch_ok obtain d2 where tb_eq: "tb = add_nf d2 ta"
          and r2: "\<And>t'. same_shape t0 t' \<Longrightarrow> process_children ?ch t' = Some (add_nf d2 t')"
          by blast
        have sh_b: "same_shape t0 tb" using sh_a by (simp add: tb_eq)
        from IH [OF y] sh_b rest obtain d3 where y_eq: "y = add_nf d3 tb"
          and r3: "\<And>t'. same_shape t0 t' \<Longrightarrow> process_children rest t' = Some (add_nf d3 t')"
          by blast
        let ?d = "\<lambda>u. ?d1 u + d2 u + d3 u"
        have "y = add_nf ?d t"
          by (simp add: y_eq tb_eq ta_eq add_nf_add_nf)
        moreover have "process_children cs t' = Some (add_nf ?d t')" if s': "same_shape t0 t'" for t'
        proof -
          have s1: "same_shape t0 (add_nf ?d1 t')" using s' by simp
          have s2: "same_shape t0 (add_nf d2 (add_nf ?d1 t'))" using s' by simp
          have "process_children cs t' =
              Option.bind (process_children (map snd (internal_children (inodes (add_nf ?d1 t') ! xS))) (add_nf ?d1 t'))
                (process_children rest)"
            unfolding Cons by (subst process_children.simps) (simp add: pn [OF s'])
          also have "\<dots> = Option.bind (process_children ?ch (add_nf ?d1 t')) (process_children rest)"
            by (simp only: ch [OF s1])
          also have "\<dots> = process_children rest (add_nf d2 (add_nf ?d1 t'))"
            by (simp add: r2 [OF s1])
          also have "\<dots> = Some (add_nf d3 (add_nf d2 (add_nf ?d1 t')))"
            by (rule r3 [OF s2])
          finally show ?thesis by (simp add: add_nf_add_nf)
        qed
        ultimately show ?thesis by blast
      qed
    qed
  qed
  with sh cs show ?thesis by blast
qed

lemma tree_wf_children_list:
  assumes "tree_wf t" "u < length (inodes t)" "(k, c) \<in> set (internal_children (inodes t ! u))"
  shows "c < length (inodes t)"
proof -
  have "distinct (map fst (internal_children (inodes t ! u)))"
    using tree_wf_node [OF assms(1,2)] by (simp add: node_wf_def)
  with assms(3) have "map_of (internal_children (inodes t ! u)) k = Some c" by simp
  then show ?thesis using tree_wf_child [OF assms(1,2)] by blast
qed

lemma report_children_same_shape:
  assumes run: "report_children t cs = Some out" and wf: "tree_wf t0"
    and sh: "same_shape t0 t" and sh': "same_shape t0 t'"
    and nz: "\<forall>u<length (inodes t0). nf (inodes t' ! u) \<noteq> 0 \<longrightarrow> nf (inodes t ! u) \<noteq> 0"
    and cs: "\<forall>x\<in>set cs. fst x < length (inodes t0)"
  shows "\<exists>out'. report_children t' cs = Some out'"
proof -
  let ?P = "\<lambda>t1 cs (out :: (string \<times> u32) list). t1 = t \<longrightarrow> (\<forall>x\<in>set cs. fst x < length (inodes t0)) \<longrightarrow>
      (\<exists>out'. report_children t' cs = Some out')"
  have "?P t cs out"
  proof (rule report_children.raw_induct [where P = ?P, OF _ run])
    fix f t1 cs y
    assume IH: "\<And>t1 cs y. f t1 cs = Some y \<Longrightarrow> ?P t1 cs y"
      and body: "(case cs of [] \<Rightarrow> Some []
         | (S, start_pos, string_depth) # rest \<Rightarrow>
             (case if nf (inodes t1 ! S) \<noteq> 0
                   then map_option (\<lambda>w. [(w, nf (inodes t1 ! S))])
                         (substr (txt t1) (unat start_pos) (unat string_depth))
                   else Some [] of
              None \<Rightarrow> None
              | Some out \<Rightarrow>
                  Option.bind
                   (f t1 (map (\<lambda>(_, child). (child, start_pos, string_depth + edge_length (inodes t1 ! child)))
                         (internal_children (inodes t1 ! S))))
                   (\<lambda>out1. Option.bind (f t1 rest) (\<lambda>out2. Some (out @ out1 @ out2))))) = Some y"
    show "?P t1 cs y"
    proof (intro impI)
      assume t1: "t1 = t" and cs: "\<forall>x\<in>set cs. fst x < length (inodes t0)"
      show "\<exists>out'. report_children t' cs = Some out'"
      proof (cases cs)
        case Nil
        show ?thesis unfolding Nil by (subst report_children.simps) simp
      next
        case (Cons x rest)
        obtain S sp sd where x: "x = (S, sp, sd)" by (cases x)
        have S: "S < length (inodes t0)" and rest: "\<forall>x\<in>set rest. fst x < length (inodes t0)"
          using cs Cons x by simp_all
        let ?chl = "\<lambda>t. map (\<lambda>(_, child). (child, sp, sd + edge_length (inodes t ! child)))
                         (internal_children (inodes t ! S))"
        from body Cons x t1 obtain o0 o1 o2 where
          o0: "(if nf (inodes t ! S) \<noteq> 0
                   then map_option (\<lambda>w. [(w, nf (inodes t ! S))]) (substr (txt t) (unat sp) (unat sd))
                   else Some []) = Some o0"
          and o1: "f t (?chl t) = Some o1" and o2: "f t rest = Some o2"
          by (auto split: option.splits Option.bind_splits)
        have chl_eq: "?chl t1 = ?chl t0" if "same_shape t0 t1" for t1
        proof -
          have "internal_children (inodes t1 ! S) = internal_children (inodes t0 ! S)"
            using same_shape_fields(3) [OF that S] .
          moreover have "edge_length (inodes t1 ! c) = edge_length (inodes t0 ! c)"
            if "(k, c) \<in> set (internal_children (inodes t0 ! S))" for k c
            using edge_length_same_shape [OF \<open>same_shape t0 t1\<close> tree_wf_children_list [OF wf S that]] .
          ultimately show ?thesis by (auto intro!: map_cong)
        qed
        have chl_ok: "\<forall>x\<in>set (?chl t0). fst x < length (inodes t0)"
          using tree_wf_children_list [OF wf S] by auto
        from o1 have "f t (?chl t0) = Some o1" by (simp only: chl_eq [OF sh])
        from IH [OF this] chl_ok obtain o1' where o1': "report_children t' (?chl t0) = Some o1'"
          by blast
        from IH [OF o2] rest obtain o2' where o2': "report_children t' rest = Some o2'"
          by blast
        have tx: "txt t' = txt t" using sh sh' by (simp add: same_shape_def)
        obtain o0' where o0': "(if nf (inodes t' ! S) \<noteq> 0
                   then map_option (\<lambda>w. [(w, nf (inodes t' ! S))]) (substr (txt t') (unat sp) (unat sd))
                   else Some []) = Some o0'"
        proof (cases "nf (inodes t' ! S) \<noteq> 0")
          case True
          with nz S have "nf (inodes t ! S) \<noteq> 0" by blast
          with o0 obtain w where "substr (txt t) (unat sp) (unat sd) = Some w" by auto
          with True tx that show ?thesis by simp
        next
          case False
          with that show ?thesis by simp
        qed
        have "report_children t' cs = Some (o0' @ o1' @ o2')"
          unfolding Cons x
          by (subst report_children.simps) (simp add: o0' chl_eq [OF sh'] o1' o2' del: map_map)
        then show ?thesis by blast
      qed
    qed
  qed
  with cs show ?thesis by blast
qed

lemma all_nf_Some:
  "all_nf t = Some (t1, out) \<longleftrightarrow>
     process_children (map snd (internal_children (inodes t ! root))) t = Some t1 \<and>
     report_children t1 (map (\<lambda>(_, S). (S, start (inodes t1 ! S), edge_length (inodes t1 ! S)))
                          (internal_children (inodes t1 ! root))) = Some out"
  by (auto simp: all_nf_def split: option.splits)

lemma all_nf_again:
  assumes wf: "tree_wf t" and z: "nf_zero t" and run: "all_nf t = Some (t1, out1)"
  shows "\<exists>t2 out2. all_nf t1 = Some (t2, out2) \<and>
           map nf (inodes t2) = map (\<lambda>n. 2 * n) (map nf (inodes t1))"
proof -
  let ?rc = "\<lambda>t. map snd (internal_children (inodes t ! root))"
  let ?rl = "\<lambda>t. map (\<lambda>(_, S). (S, start (inodes t ! S), edge_length (inodes t ! S)))
                          (internal_children (inodes t ! root))"
  have r: "root < length (inodes t)"
    using tree_wf_active [OF wf] by (cases "inodes t") (simp_all add: root_def)
  from run have p1: "process_children (?rc t) t = Some t1" and rep1: "report_children t1 (?rl t1) = Some out1"
    by (simp_all add: all_nf_Some)
  have rc_ok: "\<forall>c\<in>set (?rc t). c < length (inodes t)"
    using tree_wf_children_list [OF wf r] by auto
  from process_children_delta [OF p1 wf same_shape_refl rc_ok] obtain d where
    t1: "t1 = add_nf d t"
    and again: "\<And>t'. same_shape t t' \<Longrightarrow> process_children (?rc t) t' = Some (add_nf d t')"
    by blast
  define t2 where "t2 = add_nf d t1"
  have sh1: "same_shape t t1" by (simp add: t1)
  have sh2: "same_shape t t2" by (simp add: t2_def t1)
  have rc: "?rc t' = ?rc t" if "same_shape t t'" for t'
    using same_shape_fields(3) [OF that r] by simp
  have rl: "?rl t' = ?rl t" if "same_shape t t'" for t'
  proof -
    have "internal_children (inodes t' ! root) = internal_children (inodes t ! root)"
      using same_shape_fields(3) [OF that r] .
    moreover have "start (inodes t' ! c) = start (inodes t ! c)"
      "edge_length (inodes t' ! c) = edge_length (inodes t ! c)"
      if "(k, c) \<in> set (internal_children (inodes t ! root))" for k c
      using same_shape_fields(1) [OF \<open>same_shape t t'\<close> tree_wf_children_list [OF wf r that]]
        edge_length_same_shape [OF \<open>same_shape t t'\<close> tree_wf_children_list [OF wf r that]]
      by simp_all
    ultimately show ?thesis by (auto intro!: map_cong)
  qed
  have p2: "process_children (?rc t1) t1 = Some t2"
    unfolding rc [OF sh1] t2_def by (rule again [OF sh1])
  have nf1: "nf (inodes t1 ! u) = d u" if "u < length (inodes t)" for u
    using that z by (simp add: t1 nf_zero_def)
  have nf2: "nf (inodes t2 ! u) = 2 * d u" if "u < length (inodes t)" for u
    using that nf1 [OF that] by (simp add: t2_def t1)
  have rl_ok: "\<forall>x\<in>set (?rl t). fst x < length (inodes t)"
    using tree_wf_children_list [OF wf r] by auto
  have "\<exists>out'. report_children t2 (?rl t) = Some out'"
  proof (rule report_children_same_shape [OF _ wf sh1 sh2 _ rl_ok])
    show "report_children t1 (?rl t) = Some out1" using rep1 by (simp only: rl [OF sh1])
    show "\<forall>u<length (inodes t). nf (inodes t2 ! u) \<noteq> 0 \<longrightarrow> nf (inodes t1 ! u) \<noteq> 0"
      by (auto simp: nf1 nf2)
  qed
  then obtain out2 where "report_children t2 (?rl t2) = Some out2"
    by (auto simp only: rl [OF sh2])
  with p2 have "all_nf t1 = Some (t2, out2)" by (simp add: all_nf_Some)
  moreover have "map nf (inodes t2) = map (\<lambda>n. 2 * n) (map nf (inodes t1))"
  proof (rule nth_equalityI)
    show "length (map nf (inodes t2)) = length (map (\<lambda>n. 2 * n) (map nf (inodes t1)))"
      by (simp add: t2_def t1)
  next
    fix u assume "u < length (map nf (inodes t2))"
    then have u: "u < length (inodes t)" by (simp add: t2_def t1)
    then have "u < length (inodes t1)" "u < length (inodes t2)" by (simp_all add: t2_def t1)
    then show "map nf (inodes t2) ! u = map (\<lambda>n. 2 * n) (map nf (inodes t1)) ! u"
      using nf1 [OF u] nf2 [OF u] by simp
  qed
  ultimately show ?thesis by blast
qed

section \<open>Ukkonen's construction builds the suffix tree\<close>

subsection \<open>Equal substrings\<close>

lemma eqsub_refl [simp]: "eqsub T a a n"
  by (simp add: eqsub_def)

lemma eqsub_0 [simp]: "eqsub T a b 0"
  by (simp add: eqsub_def)

lemma eqsub_sym: "eqsub T a b n \<Longrightarrow> eqsub T b a n"
  by (simp add: eqsub_def)

lemma eqsub_trans: "eqsub T a b n \<Longrightarrow> eqsub T b c n \<Longrightarrow> eqsub T a c n"
  by (simp add: eqsub_def)

lemma eqsub_mono: "eqsub T a b n \<Longrightarrow> m \<le> n \<Longrightarrow> eqsub T a b m"
  by (simp add: eqsub_def)

lemma eqsub_nth: "eqsub T a b n \<Longrightarrow> m < n \<Longrightarrow> T ! (a + m) = T ! (b + m)"
  by (simp add: eqsub_def)

lemma eqsub_shift: "eqsub T a b n \<Longrightarrow> m \<le> n \<Longrightarrow> eqsub T (a + m) (b + m) (n - m)"
  unfolding eqsub_def
proof (intro allI impI)
  fix i assume a: "\<forall>m<n. T ! (a + m) = T ! (b + m)" "m \<le> n" "i < n - m"
  then have "m + i < n" by simp
  with a(1) have "T ! (a + (m + i)) = T ! (b + (m + i))" by blast
  then show "T ! (a + m + i) = T ! (b + m + i)" by (simp add: add.assoc)
qed

lemma eqsub_append:
  assumes "eqsub T a b n" "eqsub T (a + n) (b + n) m"
  shows "eqsub T a b (n + m)"
  unfolding eqsub_def
proof (intro allI impI)
  fix i assume i: "i < n + m"
  show "T ! (a + i) = T ! (b + i)"
  proof (cases "i < n")
    case True
    with assms(1) show ?thesis by (simp add: eqsub_def)
  next
    case False
    with i have "i - n < m" by simp
    with assms(2) have "T ! (a + n + (i - n)) = T ! (b + n + (i - n))" by (simp add: eqsub_def)
    with False show ?thesis by simp
  qed
qed

lemma eqsub_Suc: "eqsub T a b n \<Longrightarrow> T ! (a + n) = T ! (b + n) \<Longrightarrow> eqsub T a b (Suc n)"
  by (auto simp: eqsub_def less_Suc_eq)

subsection \<open>Reading the shape\<close>

lemma shape_wf: "shape G g t \<Longrightarrow> tree_wf t"
  by (simp add: shape_def)

lemma shape_root: "shape G g t \<Longrightarrow> sh_root G t"
  by (simp add: shape_def)

lemma shape_node: "shape G g t \<Longrightarrow> v < length (inodes t) \<Longrightarrow> v \<noteq> 0 \<Longrightarrow> sh_node G g t v"
  by (simp add: shape_def)

lemma shape_ichild: "shape G g t \<Longrightarrow> u < length (inodes t) \<Longrightarrow> sh_ichild G t u"
  by (simp add: shape_def)

lemma shape_lchild: "shape G g t \<Longrightarrow> u < length (inodes t) \<Longrightarrow> sh_lchild G t u"
  by (simp add: shape_def)

lemma shape_leaf: "shape G g t \<Longrightarrow> l < length (leaves t) \<Longrightarrow> sh_leaf G g t l"
  by (simp add: shape_def)

lemma shape_leafD:
  assumes "shape G g t" "l < length (leaves t)"
  shows "lpar G l < length (inodes t)"
    and "lc t (lpar G l) (txt t ! (l + dep G (lpar G l))) = Some l"
    and "Ls t l = l + dep G (lpar G l)"
    and "l + dep G (lpar G l) \<le> g"
    and "eqsub (txt t) l (pos G t (lpar G l)) (dep G (lpar G l))"
proof -
  have "sh_leaf G g t l" using assms by (rule shape_leaf)
  then have a: "lpar G l < length (inodes t)"
    "lc t (lpar G l) (txt t ! Ls t l) = Some l"
    "Ls t l = l + dep G (lpar G l)" "Ls t l \<le> g"
    "eqsub (txt t) l (pos G t (lpar G l)) (dep G (lpar G l))"
    unfolding sh_leaf_def by blast+
  show "lpar G l < length (inodes t)" "Ls t l = l + dep G (lpar G l)"
    "eqsub (txt t) l (pos G t (lpar G l)) (dep G (lpar G l))" by fact+
  from a(2) show "lc t (lpar G l) (txt t ! (l + dep G (lpar G l))) = Some l" by (simp only: a(3))
  from a(4) show "l + dep G (lpar G l) \<le> g" by (simp only: a(3))
qed

lemma shape_nodeD:
  assumes "shape G g t" "v < length (inodes t)" "v \<noteq> 0"
  shows "par G v < length (inodes t)"
    and "ic t (par G v) (txt t ! St t v) = Some v"
    and "St t v < En t v" and "En t v \<le> g"
    and "dep G v = dep G (par G v) + (En t v - St t v)"
    and "dep G v \<le> En t v"
    and "eqsub (txt t) (pos G t v) (pos G t (par G v)) (dep G (par G v))"
proof -
  have "sh_node G g t v" using assms by (rule shape_node)
  then show "par G v < length (inodes t)"
    and "ic t (par G v) (txt t ! St t v) = Some v"
    and "St t v < En t v" and "En t v \<le> g"
    and "dep G v = dep G (par G v) + (En t v - St t v)"
    and "dep G v \<le> En t v"
    and "eqsub (txt t) (pos G t v) (pos G t (par G v)) (dep G (par G v))"
    unfolding sh_node_def by blast+
qed

lemma shape_ichildD:
  assumes "shape G g t" "u < length (inodes t)" "ic t u c = Some v"
  shows "v \<noteq> 0" "par G v = u" "txt t ! St t v = c" "lc t u c = None" "v < length (inodes t)"
proof -
  have "sh_ichild G t u" using assms(1,2) by (rule shape_ichild)
  with assms(3) show "v \<noteq> 0" "par G v = u" "txt t ! St t v = c" "lc t u c = None"
    unfolding sh_ichild_def by blast+
  show "v < length (inodes t)"
    using tree_wf_child [OF shape_wf [OF assms(1)] assms(2,3)] .
qed

lemma shape_lchildD:
  assumes "shape G g t" "u < length (inodes t)" "lc t u c = Some l"
  shows "lpar G l = u" "txt t ! Ls t l = c" "l < length (leaves t)"
proof -
  have "sh_lchild G t u" using assms(1,2) by (rule shape_lchild)
  with assms(3) show "lpar G l = u" "txt t ! Ls t l = c"
    unfolding sh_lchild_def by blast+
  show "l < length (leaves t)"
    using tree_wf_leaf_child [OF shape_wf [OF assms(1)] assms(2,3)] .
qed

lemma shape_root_lt: "shape G g t \<Longrightarrow> 0 < length (inodes t)"
  by (auto dest!: shape_wf tree_wf_active)

lemma shape_par_lt: "shape G g t \<Longrightarrow> v < length (inodes t) \<Longrightarrow> par G v < length (inodes t)"
  by (cases "v = 0") (auto dest: shape_node shape_root simp: sh_node_def sh_root_def)

lemma shape_dep_par: "shape G g t \<Longrightarrow> v < length (inodes t) \<Longrightarrow> v \<noteq> 0 \<Longrightarrow> dep G (par G v) < dep G v"
  by (auto dest!: shape_node simp: sh_node_def)

lemma shape_dep_pos: "shape G g t \<Longrightarrow> v < length (inodes t) \<Longrightarrow> v \<noteq> 0 \<Longrightarrow> 0 < dep G v"
  by (auto dest!: shape_dep_par)

lemma shape_dep_0: "shape G g t \<Longrightarrow> v < length (inodes t) \<Longrightarrow> dep G v = 0 \<Longrightarrow> v = 0"
  using shape_dep_pos by fastforce

text \<open>The first byte of the edge into \<open>v\<close> is at offset \<open>dep (par v)\<close> of the string of \<open>v\<close>.\<close>

lemma shape_St: "shape G g t \<Longrightarrow> v < length (inodes t) \<Longrightarrow> v \<noteq> 0 \<Longrightarrow>
    St t v = pos G t v + dep G (par G v)"
  by (auto dest!: shape_node simp: sh_node_def pos_def)

subsection \<open>Ancestors\<close>

lemma anc_refl [simp]: "anc G v v"
  unfolding anc_def by (rule exI [of _ 0]) simp

lemma anc_par: "anc G u v \<Longrightarrow> anc G (par G u) v"
  unfolding anc_def
proof (elim exE)
  fix m assume "(par G ^^ m) v = u"
  then have "(par G ^^ Suc m) v = par G u" by simp
  then show "\<exists>m. (par G ^^ m) v = par G u" by blast
qed

lemma anc_step: "anc G u (par G v) \<Longrightarrow> anc G u v"
  unfolding anc_def
proof (elim exE)
  fix m assume "(par G ^^ m) (par G v) = u"
  then have "(par G ^^ Suc m) v = u" by (simp add: funpow_swap1)
  then show "\<exists>m. (par G ^^ m) v = u" by blast
qed

lemma anc_cases:
  assumes "anc G u v"
  shows "u = v \<or> anc G u (par G v)"
proof -
  from assms obtain m where m: "(par G ^^ m) v = u" by (auto simp: anc_def)
  show ?thesis
  proof (cases m)
    case 0
    with m show ?thesis by simp
  next
    case (Suc m')
    with m have "(par G ^^ m') (par G v) = u" by (simp add: funpow_swap1)
    then show ?thesis by (auto simp: anc_def)
  qed
qed

lemma anc_root:
  assumes "shape G g t" "v < length (inodes t)"
  shows "anc G 0 v"
  using assms(2)
proof (induction "dep G v" arbitrary: v rule: less_induct)
  case less
  show ?case
  proof (cases "v = 0")
    case True
    then show ?thesis by simp
  next
    case False
    have "anc G 0 (par G v)"
      using shape_dep_par [OF assms(1) less.prems False] shape_par_lt [OF assms(1) less.prems]
      by (rule less.hyps)
    then show ?thesis by (rule anc_step)
  qed
qed

lemma anc_str_aux:
  assumes sh: "shape G g t"
  shows "v < length (inodes t) \<Longrightarrow> (par G ^^ m) v = u \<Longrightarrow>
         u < length (inodes t) \<and> dep G u \<le> dep G v \<and> eqsub (txt t) (pos G t v) (pos G t u) (dep G u)"
proof (induction m arbitrary: v)
  case 0
  then show ?case by simp
next
  case (Suc m)
  show ?case
  proof (cases "v = 0")
    case True
    have "(par G ^^ n) 0 = 0" for n
      using shape_root [OF sh] by (induction n) (simp_all add: sh_root_def)
    from this [of "Suc m"] Suc.prems True have "u = 0" by simp
    with True Suc.prems(1) show ?thesis by simp
  next
    case False
    note nd = shape_node [OF sh Suc.prems(1) False]
    have p: "par G v < length (inodes t)" using nd by (simp add: sh_node_def)
    from Suc.prems(2) have "(par G ^^ m) (par G v) = u" by (simp add: funpow_swap1)
    from Suc.IH [OF p this] have u: "u < length (inodes t)" "dep G u \<le> dep G (par G v)"
      "eqsub (txt t) (pos G t (par G v)) (pos G t u) (dep G u)" by simp_all
    have "eqsub (txt t) (pos G t v) (pos G t (par G v)) (dep G u)"
      using nd u(2) by (auto simp: sh_node_def intro: eqsub_mono)
    with u show ?thesis using nd by (auto simp: sh_node_def intro: eqsub_trans)
  qed
qed

lemma anc_str:
  assumes "shape G g t" "v < length (inodes t)" "anc G u v"
  shows "u < length (inodes t)" "dep G u \<le> dep G v"
    "eqsub (txt t) (pos G t v) (pos G t u) (dep G u)"
  using assms anc_str_aux unfolding anc_def by blast+

text \<open>Below a proper ancestor \<open>u\<close> of \<open>v\<close> there is a child of \<open>u\<close> that is an ancestor of \<open>v\<close>.\<close>

lemma anc_down:
  assumes sh: "shape G g t" and v: "v < length (inodes t)" and a: "anc G u v" and ne: "u \<noteq> v"
  shows "\<exists>a<length (inodes t). a \<noteq> 0 \<and> par G a = u \<and> anc G a v"
  using v a ne
proof (induction "dep G v" arbitrary: v rule: less_induct)
  case less
  from less.prems(2,3) have ap: "anc G u (par G v)" using anc_cases by blast
  have v0: "v \<noteq> 0"
  proof
    assume "v = 0"
    then have "par G v = v" using shape_root [OF sh] by (simp add: sh_root_def)
    moreover have "dep G u \<le> dep G v" using anc_str(2) [OF sh less.prems(1,2)] .
    moreover have "u < length (inodes t)" using anc_str(1) [OF sh less.prems(1,2)] .
    ultimately have "u = 0" using \<open>v = 0\<close> shape_root [OF sh] shape_dep_0 [OF sh]
      by (simp add: sh_root_def)
    with \<open>v = 0\<close> less.prems(3) show False by simp
  qed
  show ?case
  proof (cases "u = par G v")
    case True
    with less.prems(1) v0 show ?thesis by auto
  next
    case False
    from less.hyps [OF shape_dep_par [OF sh less.prems(1) v0] shape_par_lt [OF sh less.prems(1)] ap False]
    obtain a where "a < length (inodes t)" "a \<noteq> 0" "par G a = u" "anc G a (par G v)" by blast
    then show ?thesis using anc_step by blast
  qed
qed

subsection \<open>The tree is a trie: a string has one locus\<close>

lemma leaf_anc_str:
  assumes sh: "shape G g t" and i: "i < length (leaves t)" and a: "anc G a (lpar G i)"
  shows "a < length (inodes t)" "dep G a \<le> dep G (lpar G i)"
    "eqsub (txt t) i (pos G t a) (dep G a)"
proof -
  note lf = shape_leaf [OF sh i]
  have l: "lpar G i < length (inodes t)" using lf by (simp add: sh_leaf_def)
  show "a < length (inodes t)" "dep G a \<le> dep G (lpar G i)"
    using anc_str [OF sh l a] by simp_all
  have "eqsub (txt t) i (pos G t (lpar G i)) (dep G a)"
    using lf anc_str(2) [OF sh l a] by (auto simp: sh_leaf_def intro: eqsub_mono)
  then show "eqsub (txt t) i (pos G t a) (dep G a)"
    using anc_str(3) [OF sh l a] by (rule eqsub_trans)
qed

lemma child_key:
  assumes sh: "shape G g t" and a: "a < length (inodes t)" "a \<noteq> 0"
    and e: "eqsub (txt t) i (pos G t a) (dep G a)"
  shows "txt t ! St t a = txt t ! (i + dep G (par G a))"
proof -
  have "dep G (par G a) < dep G a" using shape_dep_par [OF sh a] .
  from eqsub_nth [OF e this] show ?thesis
    by (simp add: shape_St [OF sh a])
qed

lemma trie:
  assumes sh: "shape G g t" and i: "i < length (leaves t)"
  shows "u < length (inodes t) \<Longrightarrow> eqsub (txt t) i (pos G t u) (dep G u) \<Longrightarrow> anc G u (lpar G i)"
proof (induction "dep G u" arbitrary: u rule: less_induct)
  case less
  note lf = shape_leaf [OF sh i]
  have l: "lpar G i < length (inodes t)" using lf by (simp add: sh_leaf_def)
  show ?case
  proof (cases "u = 0")
    case True
    then show ?thesis using anc_root [OF sh l] by simp
  next
    case False
    let ?p = "par G u"
    note nd = shape_node [OF sh less.prems(1) False]
    have p: "?p < length (inodes t)" and icu: "ic t ?p (txt t ! St t u) = Some u"
      using nd by (simp_all add: sh_node_def)
    have dp: "dep G ?p < dep G u" using shape_dep_par [OF sh less.prems(1) False] .
    have "eqsub (txt t) i (pos G t u) (dep G ?p)"
      using less.prems(2) dp by (auto intro: eqsub_mono)
    moreover have "eqsub (txt t) (pos G t u) (pos G t ?p) (dep G ?p)"
      using nd by (simp add: sh_node_def)
    ultimately have ep: "eqsub (txt t) i (pos G t ?p) (dep G ?p)" by (rule eqsub_trans)
    have ap: "anc G ?p (lpar G i)" using dp p ep by (rule less.hyps)
    have ku: "txt t ! St t u = txt t ! (i + dep G ?p)"
      using sh less.prems(1) False less.prems(2) by (rule child_key)
    show ?thesis
    proof (cases "?p = lpar G i")
      case True
      have s: "lc t ?p (txt t ! (i + dep G ?p)) = Some i"
        using shape_leafD(2) [OF sh i] by (simp only: True)
      have "lc t ?p (txt t ! St t u) = None"
        using shape_ichildD(4) [OF sh p icu] .
      then have "lc t ?p (txt t ! (i + dep G ?p)) = None" by (simp only: ku)
      with s show ?thesis by simp
    next
      case False
      from anc_down [OF sh l ap False] obtain a where a: "a < length (inodes t)" "a \<noteq> 0"
        and pa: "par G a = ?p" and al: "anc G a (lpar G i)" by blast
      have "txt t ! St t a = txt t ! (i + dep G (par G a))"
        using sh a leaf_anc_str(3) [OF sh i al] by (rule child_key)
      moreover have "ic t (par G a) (txt t ! St t a) = Some a"
        using shape_node [OF sh a] by (simp add: sh_node_def)
      ultimately have "a = u" using icu ku pa by simp
      with al show ?thesis by simp
    qed
  qed
qed

text \<open>
  The child lemma: if the string of \<open>u\<close> is a prefix of the suffix \<open>i\<close>, the child of
  \<open>u\<close> keyed by the next byte of that suffix is either the leaf \<open>i\<close> itself or an
  internal node whose string is again a prefix of the suffix.
\<close>

lemma child_towards_leaf:
  assumes sh: "shape G g t" and i: "i < length (leaves t)" and u: "u < length (inodes t)"
    and e: "eqsub (txt t) i (pos G t u) (dep G u)"
  shows "(lpar G i = u \<and> lc t u (txt t ! (i + dep G u)) = Some i \<and>
          ic t u (txt t ! (i + dep G u)) = None \<and> Ls t i = i + dep G u) \<or>
         (\<exists>a<length (inodes t). a \<noteq> 0 \<and> par G a = u \<and>
            ic t u (txt t ! (i + dep G u)) = Some a \<and> lc t u (txt t ! (i + dep G u)) = None \<and>
            eqsub (txt t) i (pos G t a) (dep G a) \<and> dep G a + i \<le> g)"
proof -
  note lf = shape_leaf [OF sh i]
  have l: "lpar G i < length (inodes t)" using lf by (simp add: sh_leaf_def)
  have an: "anc G u (lpar G i)" using sh i u e by (rule trie)
  show ?thesis
  proof (cases "u = lpar G i")
    case True
    have ls: "Ls t i = i + dep G u" and lcu: "lc t u (txt t ! (i + dep G u)) = Some i"
      using shape_leafD(2,3) [OF sh i] True by simp_all
    have "ic t u (txt t ! (i + dep G u)) = None"
    proof (cases "ic t u (txt t ! (i + dep G u))")
      case (Some v)
      with shape_ichild [OF sh u] lcu show ?thesis by (auto simp: sh_ichild_def)
    qed simp
    with True lcu ls show ?thesis by simp
  next
    case False
    from anc_down [OF sh l an False] obtain a where a: "a < length (inodes t)" "a \<noteq> 0"
      and pa: "par G a = u" and al: "anc G a (lpar G i)" by blast
    note ea = leaf_anc_str(3) [OF sh i al]
    have "txt t ! St t a = txt t ! (i + dep G (par G a))"
      using sh a ea by (rule child_key)
    moreover have "ic t (par G a) (txt t ! St t a) = Some a"
      using shape_node [OF sh a] by (simp add: sh_node_def)
    ultimately have icu: "ic t u (txt t ! (i + dep G u)) = Some a" using pa by simp
    then have "lc t u (txt t ! (i + dep G u)) = None"
      using shape_ichild [OF sh u] by (auto simp: sh_ichild_def)
    moreover have "dep G a + i \<le> g"
      using leaf_anc_str(2) [OF sh i al] shape_leafD(4) [OF sh i] by simp
    ultimately show ?thesis using a pa icu ea by blast
  qed
qed

subsection \<open>The state after each tree operation, field by field\<close>

lemma rule_2b_eq: "rule_2b k c t = add_links (active_node t) (rule_2b_pre k c t)"
  by (simp add: rule_2b_def rule_2b_pre_def Let_def)

lemma split_leaf_eq:
  assumes "split_leaf k c nd t = Some t'" "active_node t < length (inodes t)"
  obtains ck cn where "char_at (txt t) k = Some ck"
    "char_at (txt t) (start (leaves t ! nd) + active_length t) = Some cn"
    "t' = add_links (length (inodes t)) (split_leaf_pre k c nd ck cn t)"
  using assms unfolding split_leaf_pre_def by (rule split_leaf_Some)

lemma split_internal_eq:
  assumes "split_internal k c nd t = Some t'" "active_node t < length (inodes t)" "nd < length (inodes t)"
  obtains ck cn where "char_at (txt t) k = Some ck"
    "char_at (txt t) (start (inodes t ! nd) + active_length t) = Some cn"
    "t' = add_links (length (inodes t)) (split_internal_pre k c nd ck cn t)"
  using assms unfolding split_internal_pre_def by (rule split_internal_Some)

lemma rule_2b_pre_frame [simp]:
  "txt (rule_2b_pre k c t) = txt t"
  "global_end (rule_2b_pre k c t) = global_end t"
  "remainder (rule_2b_pre k c t) = remainder t"
  "active_node (rule_2b_pre k c t) = active_node t"
  "active_edge (rule_2b_pre k c t) = active_edge t"
  "active_length (rule_2b_pre k c t) = active_length t"
  "need_link (rule_2b_pre k c t) = need_link t"
  "length (inodes (rule_2b_pre k c t)) = length (inodes t)"
  "leaves (rule_2b_pre k c t) = leaves t @ [\<lparr>start = k\<rparr>]"
  by (simp_all add: rule_2b_pre_def)

lemma rule_2b_pre_node:
  assumes "active_node t < length (inodes t)"
  shows "inodes (rule_2b_pre k c t) ! u =
     (if u = active_node t
      then (inodes t ! u)\<lparr>leaf_children := AList.update c (length (leaves t)) (leaf_children (inodes t ! u))\<rparr>
      else inodes t ! u)"
  using assms by (simp add: rule_2b_pre_def nth_list_update)

lemma split_leaf_pre_frame [simp]:
  "txt (split_leaf_pre k c nd ck cn t) = txt t"
  "global_end (split_leaf_pre k c nd ck cn t) = global_end t"
  "remainder (split_leaf_pre k c nd ck cn t) = remainder t"
  "active_node (split_leaf_pre k c nd ck cn t) = active_node t"
  "active_edge (split_leaf_pre k c nd ck cn t) = active_edge t"
  "active_length (split_leaf_pre k c nd ck cn t) = active_length t"
  "need_link (split_leaf_pre k c nd ck cn t) = need_link t"
  "length (inodes (split_leaf_pre k c nd ck cn t)) = Suc (length (inodes t))"
  "length (leaves (split_leaf_pre k c nd ck cn t)) = Suc (length (leaves t))"
  by (simp_all add: split_leaf_pre_def)

lemma split_leaf_pre_node:
  assumes "active_node t < length (inodes t)"
  shows "inodes (split_leaf_pre k c nd ck cn t) ! u =
     (if u = active_node t
      then (inodes t ! u)\<lparr>internal_children := AList.update c (length (inodes t)) (internal_children (inodes t ! u)),
                 leaf_children := AList.delete c (leaf_children (inodes t ! u))\<rparr>
      else if u = length (inodes t)
      then (new_inode (start (leaves t ! nd)) (start (leaves t ! nd) + active_length t))
                       \<lparr>leaf_children := AList.update cn nd (AList.update ck (length (leaves t)) [])\<rparr>
      else if u < length (inodes t) then inodes t ! u
      else inodes (split_leaf_pre k c nd ck cn t) ! u)"
  using assms by (auto simp add: split_leaf_pre_def nth_append nth_list_update)

lemma split_leaf_pre_leaf:
  assumes "nd < length (leaves t)"
  shows "leaves (split_leaf_pre k c nd ck cn t) ! l =
     (if l = nd then \<lparr>start = start (leaves t ! nd) + active_length t\<rparr>
      else if l = length (leaves t) then \<lparr>start = k\<rparr>
      else if l < length (leaves t) then leaves t ! l
      else leaves (split_leaf_pre k c nd ck cn t) ! l)"
  using assms by (auto simp add: split_leaf_pre_def nth_append nth_list_update)

lemma split_internal_pre_frame [simp]:
  "txt (split_internal_pre k c nd ck cn t) = txt t"
  "global_end (split_internal_pre k c nd ck cn t) = global_end t"
  "remainder (split_internal_pre k c nd ck cn t) = remainder t"
  "active_node (split_internal_pre k c nd ck cn t) = active_node t"
  "active_edge (split_internal_pre k c nd ck cn t) = active_edge t"
  "active_length (split_internal_pre k c nd ck cn t) = active_length t"
  "need_link (split_internal_pre k c nd ck cn t) = need_link t"
  "length (inodes (split_internal_pre k c nd ck cn t)) = Suc (length (inodes t))"
  "leaves (split_internal_pre k c nd ck cn t) = leaves t @ [\<lparr>start = k\<rparr>]"
  by (simp_all add: split_internal_pre_def)

lemma split_internal_pre_node:
  assumes "active_node t < length (inodes t)" "nd < length (inodes t)" "nd \<noteq> active_node t"
  shows "inodes (split_internal_pre k c nd ck cn t) ! u =
     (if u = active_node t
      then (inodes t ! u)\<lparr>internal_children := AList.update c (length (inodes t)) (internal_children (inodes t ! u))\<rparr>
      else if u = nd then (inodes t ! nd)\<lparr>start := start (inodes t ! nd) + active_length t\<rparr>
      else if u = length (inodes t)
      then (new_inode (start (inodes t ! nd)) (start (inodes t ! nd) + active_length t))
                       \<lparr>leaf_children := AList.update ck (length (leaves t)) [],
                        internal_children := AList.update cn nd []\<rparr>
      else if u < length (inodes t) then inodes t ! u
      else inodes (split_internal_pre k c nd ck cn t) ! u)"
  using assms by (auto simp add: split_internal_pre_def nth_append nth_list_update)

lemma next_suffix_frame [simp]:
  "txt (next_suffix k t) = txt t"
  "global_end (next_suffix k t) = global_end t"
  "inodes (next_suffix k t) = inodes t"
  "leaves (next_suffix k t) = leaves t"
  "need_link (next_suffix k t) = need_link t"
  "remainder (next_suffix k t) = remainder t - 1"
  by (simp_all add: next_suffix_def Let_def split: option.splits)

subsection \<open>Machine arithmetic without wrap-around\<close>

lemma unat_add_nowrap: "unat a + unat b < 2 ^ 32 \<Longrightarrow> unat (a + b :: u32) = unat a + unat b"
  by (simp add: unat_add_lem [THEN iffD1])

lemma unat_sub_nowrap: "unat b \<le> unat a \<Longrightarrow> unat (a - b :: u32) = unat a - unat b"
  by (simp add: unat_sub word_le_nat_alt)

lemma unat_Suc_nowrap: "unat a < n \<Longrightarrow> n < 2 ^ 32 \<Longrightarrow> unat (a + 1 :: u32) = Suc (unat a)"
  using unat_add_nowrap [of a 1] by simp

lemma unat_pred_nowrap: "a \<noteq> 0 \<Longrightarrow> unat (a - 1 :: u32) = unat a - 1"
  by (simp add: unat_minus_one)

lemma unat_eq_0_iff: "unat (a :: u32) = 0 \<longleftrightarrow> a = 0"
  by (simp add: unat_eq_zero)

lemma char_at_Some: "char_at T w = Some c \<longleftrightarrow> unat w < length T \<and> c = T ! unat w"
  by (auto simp: char_at_def)

subsection \<open>The shape depends on few fields\<close>

lemma shape_cong:
  assumes sh: "shape G g t" and wf: "tree_wf t'"
    and "txt t' = txt t" "global_end t' = global_end t" "leaves t' = leaves t"
    and len: "length (inodes t') = length (inodes t)"
    and nodes: "\<And>u. u < length (inodes t) \<Longrightarrow>
          start (inodes t' ! u) = start (inodes t ! u) \<and>
          end_idx (inodes t' ! u) = end_idx (inodes t ! u) \<and>
          internal_children (inodes t' ! u) = internal_children (inodes t ! u) \<and>
          leaf_children (inodes t' ! u) = leaf_children (inodes t ! u)"
  shows "shape G g t'"
proof -
  have p: "pos G t' u = pos G t u" if "u < length (inodes t)" for u
    using nodes [OF that] by (simp add: pos_def)
  have rt: "0 < length (inodes t)" using sh by (rule shape_root_lt)
  have "sh_root G t'" using shape_root [OF sh] nodes [OF rt] by (simp add: sh_root_def)
  moreover have "sh_node G g t' v" if v: "v < length (inodes t)" "v \<noteq> 0" for v
  proof -
    have pv: "par G v < length (inodes t)" using shape_nodeD(1) [OF sh v] .
    have e: "start (inodes t' ! v) = start (inodes t ! v)"
      "end_idx (inodes t' ! v) = end_idx (inodes t ! v)"
      "internal_children (inodes t' ! par G v) = internal_children (inodes t ! par G v)"
      using nodes [OF v(1)] nodes [OF pv] by simp_all
    have "sh_node G g t' v = sh_node G g t v"
      unfolding sh_node_def by (simp only: e p [OF v(1)] p [OF pv] assms(3) len)
    then show ?thesis using shape_node [OF sh v] by simp
  qed
  moreover have "sh_ichild G t' u" if u: "u < length (inodes t)" for u
    unfolding sh_ichild_def
  proof (intro allI impI)
    fix c v assume "ic t' u c = Some v"
    then have i: "ic t u c = Some v" using nodes [OF u] by simp
    note d = shape_ichildD [OF sh u i]
    show "v \<noteq> 0 \<and> par G v = u \<and> txt t' ! St t' v = c \<and> lc t' u c = None"
      using d nodes [OF u] nodes [OF d(5)] assms(3) by simp
  qed
  moreover have "sh_lchild G t' u" if u: "u < length (inodes t)" for u
    unfolding sh_lchild_def
  proof (intro allI impI)
    fix c l assume "lc t' u c = Some l"
    then have i: "lc t u c = Some l" using nodes [OF u] by simp
    show "lpar G l = u \<and> txt t' ! Ls t' l = c"
      using shape_lchildD(1,2) [OF sh u i] assms(3,5) by simp
  qed
  moreover have "sh_leaf G g t' l" if l: "l < length (leaves t)" for l
  proof -
    have pl: "lpar G l < length (inodes t)" using shape_leafD(1) [OF sh l] .
    have e: "leaf_children (inodes t' ! lpar G l) = leaf_children (inodes t ! lpar G l)"
      using nodes [OF pl] by simp
    have "sh_leaf G g t' l = sh_leaf G g t l"
      unfolding sh_leaf_def by (simp only: e p [OF pl] assms(3,5) len)
    then show ?thesis using shape_leaf [OF sh l] by simp
  qed
  ultimately show ?thesis
    using sh wf assms(3-6) unfolding shape_def by simp
qed

lemma shape_add_links:
  assumes "shape G g t" "nd < length (inodes t)"
  shows "shape G g (add_links nd t)"
  using assms(1)
proof (rule shape_cong)
  show "tree_wf (add_links nd t)" using shape_wf [OF assms(1)] assms(2) by (rule wf_add_links)
qed simp_all

lemma pos_add_links [simp]: "pos G (add_links nd t) u = pos G t u"
  by (simp add: pos_def)

lemma shape_mono:
  assumes "shape G g t" "global_end t' = global_end t + 1" "g < length (txt t)"
    "inodes t' = inodes t" "leaves t' = leaves t" "txt t' = txt t" "tree_wf t'"
  shows "shape G (Suc g) t'"
proof -
  have ge: "unat (global_end t') = Suc g"
    using assms(1,2,3) unat_Suc_nowrap [of "global_end t" "length (txt t)"]
    by (simp add: shape_def)
  have p: "pos G t' u = pos G t u" for u by (simp add: pos_def assms(4))
  have "sh_node G (Suc g) t' v" if "sh_node G g t v" for v
    using that unfolding sh_node_def assms(4,6) p by auto
  moreover have "sh_leaf G (Suc g) t' l" if "sh_leaf G g t l" for l
    using that unfolding sh_leaf_def assms(4,5,6) p by auto
  ultimately show ?thesis
    using assms ge unfolding shape_def sh_root_def sh_ichild_def sh_lchild_def by simp
qed

lemma INV_D:
  assumes "INV G k t"
  shows "shape G k t"
    and "unat (remainder t) \<le> Suc k"
    and "length (leaves t) = Suc k - unat (remainder t)"
    and "dep G (active_node t) + unat (active_length t) = k - (Suc k - unat (remainder t))"
    and "eqsub (txt t) (Suc k - unat (remainder t)) (pos G t (active_node t)) (dep G (active_node t))"
    and "active_length t \<noteq> 0 \<Longrightarrow>
        unat (active_edge t) = Suc k - unat (remainder t) + dep G (active_node t)"
    and "Suc k - unat (remainder t) < k \<Longrightarrow>
        \<exists>i<Suc k - unat (remainder t). eqsub (txt t) i (Suc k - unat (remainder t)) (k - (Suc k - unat (remainder t)))"
    and "links_sem G t" and "links_all t"
    and "remainder t = 0 \<Longrightarrow> need_link t = Some 0"
    and "remainder t \<noteq> 0 \<Longrightarrow> pending_ok G k (Suc k - unat (remainder t)) t"
proof -
  note a = assms [unfolded INV_def]
  show "shape G k t" using a by (elim conjE)
  show "unat (remainder t) \<le> Suc k" using a by (elim conjE)
  show "length (leaves t) = Suc k - unat (remainder t)" using a by (elim conjE)
  show "dep G (active_node t) + unat (active_length t) = k - (Suc k - unat (remainder t))"
    using a by (elim conjE)
  show "eqsub (txt t) (Suc k - unat (remainder t)) (pos G t (active_node t)) (dep G (active_node t))"
    using a by (elim conjE)
  show "links_sem G t" using a by (elim conjE)
  show "links_all t" using a by (elim conjE)
  show "unat (active_edge t) = Suc k - unat (remainder t) + dep G (active_node t)"
    if "active_length t \<noteq> 0"
    using a that by (elim conjE) (erule (1) impE [rotated], assumption)
  show "\<exists>i<Suc k - unat (remainder t). eqsub (txt t) i (Suc k - unat (remainder t)) (k - (Suc k - unat (remainder t)))"
    if "Suc k - unat (remainder t) < k"
    using a that by (elim conjE) blast
  have i: "if remainder t = 0 then need_link t = Some 0
      else pending_ok G k (Suc k - unat (remainder t)) t"
    using a by (elim conjE)
  show "remainder t = 0 \<Longrightarrow> need_link t = Some 0" using i by (simp split: if_splits)
  show "remainder t \<noteq> 0 \<Longrightarrow> pending_ok G k (Suc k - unat (remainder t)) t"
    using i by (simp split: if_splits)
qed

lemma pending_okD:
  assumes "pending_ok G k j t" "need_link t = Some v"
  shows "v \<noteq> 0" "1 \<le> j" "dep G v = Suc (k - j)"
    "eqsub (txt t) (j - 1) (pos G t v) (dep G v)"
    "suffix_link (inodes t ! v) = Some u \<Longrightarrow> u = active_node t \<and> active_length t = 0"
    "active_length t \<noteq> 0 \<Longrightarrow> NB (txt t) j k"
  using assms unfolding pending_ok_def by blast+

lemma links_semD:
  assumes "links_sem G t"
  shows "suffix_link (inodes t ! 0) = None"
    and "v < length (inodes t) \<Longrightarrow> suffix_link (inodes t ! v) = Some u \<Longrightarrow>
        u < length (inodes t) \<and> dep G v = Suc (dep G u) \<and>
        eqsub (txt t) (Suc (pos G t v)) (pos G t u) (dep G u)"
    and "u < length (inodes t) \<Longrightarrow> v < length (inodes t) \<Longrightarrow>
        v \<in> set (weiner_links (inodes t ! u)) \<longleftrightarrow> suffix_link (inodes t ! v) = Some u"
  using assms unfolding links_sem_def by blast+

lemma pos_fields [simp]:
  "pos G (t\<lparr>need_link := x\<rparr>) = pos G t"
  "pos G (t\<lparr>remainder := r\<rparr>) = pos G t"
  "pos G (t\<lparr>active_node := a\<rparr>) = pos G t"
  "pos G (t\<lparr>active_edge := e\<rparr>) = pos G t"
  "pos G (t\<lparr>active_length := l\<rparr>) = pos G t"
  "pos G (t\<lparr>global_end := g\<rparr>) = pos G t"
  "pos G (t\<lparr>leaves := ls\<rparr>) = pos G t"
  by (simp_all add: pos_def fun_eq_iff)

lemma links_sem_fields [simp]:
  "links_sem G (t\<lparr>need_link := x\<rparr>) = links_sem G t"
  "links_sem G (t\<lparr>remainder := r\<rparr>) = links_sem G t"
  "links_sem G (t\<lparr>active_node := a\<rparr>) = links_sem G t"
  "links_sem G (t\<lparr>active_edge := e\<rparr>) = links_sem G t"
  "links_sem G (t\<lparr>active_length := l\<rparr>) = links_sem G t"
  "links_sem G (t\<lparr>global_end := g\<rparr>) = links_sem G t"
  "links_sem G (t\<lparr>leaves := ls\<rparr>) = links_sem G t"
  unfolding links_sem_def by simp_all

lemma links_all_fields [simp]:
  "links_all (t\<lparr>remainder := r\<rparr>) = links_all t"
  "links_all (t\<lparr>active_node := a\<rparr>) = links_all t"
  "links_all (t\<lparr>active_edge := e\<rparr>) = links_all t"
  "links_all (t\<lparr>active_length := l\<rparr>) = links_all t"
  "links_all (t\<lparr>global_end := g\<rparr>) = links_all t"
  "links_all (t\<lparr>leaves := ls\<rparr>) = links_all t"
  unfolding links_all_def by simp_all

lemma links_sem_add_links:
  assumes ls: "links_sem G t" and wf: "tree_wf t" and nd: "nd < length (inodes t)"
    and pend: "\<And>v0. need_link t = Some v0 \<Longrightarrow>
        v0 \<noteq> 0 \<and> dep G v0 = Suc (dep G nd) \<and>
        eqsub (txt t) (Suc (pos G t v0)) (pos G t nd) (dep G nd) \<and>
        (\<forall>u. suffix_link (inodes t ! v0) = Some u \<longrightarrow> u = nd)"
  shows "links_sem G (add_links nd t)"
proof (cases "need_link t")
  case None
  then have "add_links nd t = t\<lparr>need_link := Some nd\<rparr>" by (simp add: add_links_def)
  then show ?thesis using ls by simp
next
  case (Some v0)
  note p = pend [OF Some]
  have v0: "v0 < length (inodes t)" using wf Some by (simp add: tree_wf_def)
  have sl: "suffix_link (inodes (add_links nd t) ! v) =
      (if v = v0 then Some nd else suffix_link (inodes t ! v))" if "v < length (inodes t)" for v
    using add_links_suffix_link [OF that, of nd] Some by auto
  have wl: "set (weiner_links (inodes (add_links nd t) ! u)) =
      (if u = nd then insert v0 (set (weiner_links (inodes t ! nd))) else set (weiner_links (inodes t ! u)))"
    if "u < length (inodes t)" for u
    using add_links_weiner_links [OF that, of nd] Some by auto
  have c1: "suffix_link (inodes (add_links nd t) ! 0) = None"
  proof -
    have "0 < length (inodes t)" using nd by (cases "inodes t") simp_all
    from sl [OF this] show ?thesis
      using p links_semD(1) [OF ls] by auto
  qed
  have c2: "u < length (inodes (add_links nd t)) \<and> dep G v = Suc (dep G u) \<and>
        eqsub (txt (add_links nd t)) (Suc (pos G (add_links nd t) v)) (pos G (add_links nd t) u) (dep G u)"
    if v: "v < length (inodes (add_links nd t))"
      and s: "suffix_link (inodes (add_links nd t) ! v) = Some u" for v u
  proof -
    from v have v': "v < length (inodes t)" by simp
    show ?thesis
    proof (cases "v = v0")
      case True
      with s sl [OF v'] have "u = nd" by simp
      with True p nd show ?thesis by simp
    next
      case False
      with s sl [OF v'] have "suffix_link (inodes t ! v) = Some u" by simp
      from links_semD(2) [OF ls v' this] show ?thesis by simp
    qed
  qed
  have c3: "v \<in> set (weiner_links (inodes (add_links nd t) ! u)) \<longleftrightarrow>
          suffix_link (inodes (add_links nd t) ! v) = Some u"
    if "u < length (inodes (add_links nd t))" "v < length (inodes (add_links nd t))" for u v
  proof -
    from that have u: "u < length (inodes t)" and v: "v < length (inodes t)" by simp_all
    note old = links_semD(3) [OF ls u v]
    show ?thesis
    proof (cases "v = v0")
      case True
      show ?thesis
      proof (cases "u = nd")
        case True
        with \<open>v = v0\<close> wl [OF u] sl [OF v] show ?thesis by simp
      next
        case False
        have "v0 \<notin> set (weiner_links (inodes t ! u))"
          using old p False \<open>v = v0\<close> by auto
        with False \<open>v = v0\<close> wl [OF u] sl [OF v] show ?thesis by simp
      qed
    next
      case False
      then show ?thesis using old wl [OF u] sl [OF v] by auto
    qed
  qed
  show ?thesis unfolding links_sem_def using c1 c2 c3 by blast
qed

lemma links_all_add_links:
  assumes "\<And>v. v < length (inodes t) \<Longrightarrow> v \<noteq> 0 \<Longrightarrow> suffix_link (inodes t ! v) = None \<Longrightarrow>
             need_link t = Some v \<or> v = nd"
  shows "links_all (add_links nd t)"
  unfolding links_all_def
proof (intro allI impI)
  fix v assume v: "v < length (inodes (add_links nd t))" "v \<noteq> 0"
    and s: "suffix_link (inodes (add_links nd t) ! v) = None"
  from v have v': "v < length (inodes t)" by simp
  from s add_links_suffix_link [OF v', of nd] have n: "need_link t \<noteq> Some v"
    and "suffix_link (inodes t ! v) = None" by (auto split: if_splits)
  with assms [OF v' v(2)] have "v = nd" by blast
  then show "need_link (add_links nd t) = Some v" by simp
qed

subsection \<open>The edge below the active node\<close>

text \<open>
  \<open>i\<close> is a suffix that starts with the string \<open>T[j..j+m)\<close>, and the string of the node
  \<open>u\<close> is the proper prefix \<open>T[j..j+dep u)\<close> of it. Then the child of \<open>u\<close> keyed by
  \<open>T[j + dep u]\<close> lies on the path to the leaf \<open>i\<close>.
\<close>

lemma edge_towards:
  assumes sh: "shape G g t" and u: "u < length (inodes t)" and i: "i < length (leaves t)"
    and ij: "eqsub (txt t) i j m" and ju: "eqsub (txt t) j (pos G t u) (dep G u)"
    and d: "dep G u < m"
  shows "lc t u (txt t ! (j + dep G u)) = Some l \<Longrightarrow> l = i \<and> Ls t l = i + dep G u"
    and "ic t u (txt t ! (j + dep G u)) = Some v \<Longrightarrow>
          v < length (inodes t) \<and> v \<noteq> 0 \<and> par G v = u \<and>
          eqsub (txt t) i (pos G t v) (dep G v) \<and> dep G v + i \<le> g"
    and "lc t u (txt t ! (j + dep G u)) \<noteq> None \<or> ic t u (txt t ! (j + dep G u)) \<noteq> None"
proof -
  have "eqsub (txt t) i j (dep G u)" using ij d by (auto intro: eqsub_mono)
  then have e: "eqsub (txt t) i (pos G t u) (dep G u)" using ju by (rule eqsub_trans)
  have c: "txt t ! (i + dep G u) = txt t ! (j + dep G u)" using ij d by (rule eqsub_nth)
  note ch = child_towards_leaf [OF sh i u e, unfolded c]
  show "lc t u (txt t ! (j + dep G u)) = Some l \<Longrightarrow> l = i \<and> Ls t l = i + dep G u"
    using ch by auto
  show "ic t u (txt t ! (j + dep G u)) = Some v \<Longrightarrow>
          v < length (inodes t) \<and> v \<noteq> 0 \<and> par G v = u \<and>
          eqsub (txt t) i (pos G t v) (dep G v) \<and> dep G v + i \<le> g"
    using ch by auto
  show "lc t u (txt t ! (j + dep G u)) \<noteq> None \<or> ic t u (txt t ! (j + dep G u)) \<noteq> None"
    using ch by auto
qed

text \<open>The byte at offset \<open>m - dep u\<close> of that edge is the byte \<open>T[i + m]\<close>.\<close>

lemma edge_byte_leaf:
  assumes sh: "shape G g t" and u: "u < length (inodes t)" and i: "i < length (leaves t)"
    and ij: "eqsub (txt t) i j m" and ju: "eqsub (txt t) j (pos G t u) (dep G u)"
    and d: "dep G u < m" and l: "lc t u (txt t ! (j + dep G u)) = Some l"
  shows "Ls t l + (m - dep G u) = i + m"
proof -
  from edge_towards(1) [OF sh u i ij ju d l] have "Ls t l = i + dep G u" by blast
  with d show ?thesis by linarith
qed

lemma edge_byte_internal:
  assumes sh: "shape G g t" and u: "u < length (inodes t)" and i: "i < length (leaves t)"
    and ij: "eqsub (txt t) i j m" and ju: "eqsub (txt t) j (pos G t u) (dep G u)"
    and d: "dep G u < m" and v: "ic t u (txt t ! (j + dep G u)) = Some v"
    and m: "m < dep G v"
  shows "txt t ! (St t v + (m - dep G u)) = txt t ! (i + m)"
proof -
  note e = edge_towards(2) [OF sh u i ij ju d v]
  have "St t v = pos G t v + dep G u" using shape_St [OF sh] e by auto
  then have "St t v + (m - dep G u) = pos G t v + m" using d by simp
  moreover have "txt t ! (i + m) = txt t ! (pos G t v + m)"
    using e m by (auto intro: eqsub_nth)
  ultimately show ?thesis by simp
qed

text \<open>Lengths of edges as natural numbers.\<close>

lemma edge_length_unat:
  assumes "shape G g t" "v < length (inodes t)" "v \<noteq> 0"
  shows "unat (edge_length (inodes t ! v)) = En t v - St t v"
    and "dep G v = dep G (par G v) + unat (edge_length (inodes t ! v))"
    and "0 < unat (edge_length (inodes t ! v))"
proof -
  note d = shape_nodeD [OF assms]
  show e: "unat (edge_length (inodes t ! v)) = En t v - St t v"
    unfolding edge_length_def using d(3) by (intro unat_sub_nowrap) simp
  show "dep G v = dep G (par G v) + unat (edge_length (inodes t ! v))"
    using d(5) e by simp
  show "0 < unat (edge_length (inodes t ! v))" using d(3) e by simp
qed

lemma leaf_edge_length_unat:
  assumes "shape G g t" "l < length (leaves t)"
  shows "unat (leaf_edge_length t (leaves t ! l)) = g - Ls t l"
proof -
  have "Ls t l \<le> g" using shape_leafD(3,4) [OF assms] by simp
  moreover have "unat (global_end t) = g" using assms(1) by (simp add: shape_def)
  ultimately show ?thesis
    unfolding leaf_edge_length_def by (simp add: unat_sub_nowrap)
qed

subsection \<open>Pointer validity of the states before add_links\<close>

lemma wf_rule_2b_pre:
  assumes "tree_wf t"
  shows "tree_wf (rule_2b_pre k c t)"
proof (rule tree_wfI)
  let ?t1 = "rule_2b_pre k c t"
  have an: "active_node t < length (inodes t)" using assms by (rule tree_wf_active)
  fix u assume "u < length (inodes ?t1)"
  then have u: "u < length (inodes t)" by simp
  note w = tree_wf_node [OF assms u]
  show "node_wf (length (inodes ?t1)) (length (leaves ?t1)) (inodes ?t1 ! u)"
  proof (cases "u = active_node t")
    case True
    with w u show ?thesis
      by (auto simp: rule_2b_pre_node [OF an] node_wf_def distinct_update map_of_update_Some less_Suc_eq
          split: if_splits)
  next
    case False
    with node_wf_mono [OF w, of "length (inodes t)" "Suc (length (leaves t))"] u
    show ?thesis by (simp add: rule_2b_pre_node [OF an])
  qed
qed (use assms in \<open>simp_all add: tree_wf_def\<close>)

lemma wf_split_leaf_pre:
  assumes wf: "tree_wf t" and nd: "nd < length (leaves t)"
  shows "tree_wf (split_leaf_pre k c nd ck cn t)"
proof (rule tree_wfI)
  let ?t1 = "split_leaf_pre k c nd ck cn t"
  have an: "active_node t < length (inodes t)" using wf by (rule tree_wf_active)
  fix u assume "u < length (inodes ?t1)"
  then consider "u = length (inodes t)" | "u = active_node t" "u < length (inodes t)"
    | "u \<noteq> active_node t" "u < length (inodes t)"
    using an by (auto simp: less_Suc_eq)
  then show "node_wf (length (inodes ?t1)) (length (leaves ?t1)) (inodes ?t1 ! u)"
  proof cases
    case 1
    then show ?thesis using nd an
      by (auto simp: split_leaf_pre_node [OF an] node_wf_def new_inode_def distinct_update map_of_update_Some
          split: if_splits)
  next
    case 2
    with tree_wf_node [OF wf 2(2)] show ?thesis
      by (auto simp: split_leaf_pre_node [OF an] node_wf_def distinct_update distinct_delete
           map_of_update_Some map_of_delete_Some less_Suc_eq split: if_splits)
  next
    case 3
    with node_wf_mono [OF tree_wf_node [OF wf 3(2)], of "Suc (length (inodes t))" "Suc (length (leaves t))"]
    show ?thesis by (simp add: split_leaf_pre_node [OF an])
  qed
next
  show "active_node (split_leaf_pre k c nd ck cn t) < length (inodes (split_leaf_pre k c nd ck cn t))"
    using tree_wf_active [OF wf] by simp
next
  fix v assume "need_link (split_leaf_pre k c nd ck cn t) = Some v"
  then show "v < length (inodes (split_leaf_pre k c nd ck cn t))"
    using wf by (auto simp: tree_wf_def less_Suc_eq)
qed

lemma wf_split_internal_pre:
  assumes wf: "tree_wf t" and nd: "nd < length (inodes t)" and ne: "nd \<noteq> active_node t"
  shows "tree_wf (split_internal_pre k c nd ck cn t)"
proof (rule tree_wfI)
  let ?t1 = "split_internal_pre k c nd ck cn t"
  have an: "active_node t < length (inodes t)" using wf by (rule tree_wf_active)
  note node = split_internal_pre_node [OF an nd ne]
  fix u assume "u < length (inodes ?t1)"
  then consider "u = length (inodes t)" | "u = active_node t" "u < length (inodes t)"
    | "u = nd" "u < length (inodes t)"
    | "u \<noteq> active_node t" "u \<noteq> nd" "u < length (inodes t)"
    using an by (auto simp: less_Suc_eq)
  then show "node_wf (length (inodes ?t1)) (length (leaves ?t1)) (inodes ?t1 ! u)"
  proof cases
    case 1
    then show ?thesis using nd an ne
      by (auto simp: node node_wf_def new_inode_def distinct_update map_of_update_Some
          split: if_splits)
  next
    case 2
    with tree_wf_node [OF wf 2(2)] show ?thesis
      by (auto simp: node node_wf_def distinct_update
           map_of_update_Some less_Suc_eq split: if_splits)
  next
    case 3
    with node_wf_mono [OF tree_wf_node [OF wf 3(2)], of "Suc (length (inodes t))" "Suc (length (leaves t))"] ne
    show ?thesis by (simp add: node node_wf_def)
  next
    case 4
    with node_wf_mono [OF tree_wf_node [OF wf 4(3)], of "Suc (length (inodes t))" "Suc (length (leaves t))"]
    show ?thesis by (simp add: node)
  qed
next
  show "active_node (split_internal_pre k c nd ck cn t) < length (inodes (split_internal_pre k c nd ck cn t))"
    using tree_wf_active [OF wf] by simp
next
  fix v assume "need_link (split_internal_pre k c nd ck cn t) = Some v"
  then show "v < length (inodes (split_internal_pre k c nd ck cn t))"
    using wf by (auto simp: tree_wf_def less_Suc_eq)
qed

subsection \<open>The shape after a new leaf is hung below the active node\<close>

lemma shape_rule_2b_pre:
  assumes sh: "shape G g t"
    and lcN: "lc t (active_node t) c = None" and icN: "ic t (active_node t) c = None"
    and c: "c = txt t ! unat kw"
    and kw: "unat kw = length (leaves t) + dep G (active_node t)" and kg: "unat kw \<le> g"
    and e: "eqsub (txt t) (length (leaves t)) (pos G t (active_node t)) (dep G (active_node t))"
  shows "shape (G\<lparr>lpar := (lpar G)(length (leaves t) := active_node t)\<rparr>) g (rule_2b_pre kw c t)"
proof -
  let ?an = "active_node t" and ?L = "length (leaves t)"
  let ?G = "G\<lparr>lpar := (lpar G)(?L := ?an)\<rparr>" and ?t = "rule_2b_pre kw c t"
  have wf: "tree_wf t" using sh by (rule shape_wf)
  have an: "?an < length (inodes t)" using wf by (rule tree_wf_active)
  note node = rule_2b_pre_node [OF an]
  have st: "start (inodes ?t ! u) = start (inodes t ! u)"
    and en: "end_idx (inodes ?t ! u) = end_idx (inodes t ! u)"
    and ic: "internal_children (inodes ?t ! u) = internal_children (inodes t ! u)" for u
    by (simp_all add: node)
  have lc: "lc ?t u = (if u = ?an then (lc t ?an)(c \<mapsto> ?L) else lc t u)" for u
    by (simp add: node update_conv')
  have ps: "pos ?G ?t u = pos G t u" for u by (simp add: pos_def en)
  have lv: "leaves ?t ! l = leaves t ! l" if "l < ?L" for l using that by (simp add: nth_append)
  have lvL: "leaves ?t ! ?L = \<lparr>start = kw\<rparr>" by simp
  have "sh_root ?G ?t" using shape_root [OF sh] by (simp add: sh_root_def st en)
  moreover have "sh_node ?G g ?t v" if v: "v < length (inodes t)" "v \<noteq> 0" for v
  proof -
    have "sh_node ?G g ?t v = sh_node G g t v"
      unfolding sh_node_def by (simp add: st en ic ps)
    then show ?thesis using shape_node [OF sh v] by simp
  qed
  moreover have "sh_ichild ?G ?t u" if u: "u < length (inodes t)" for u
    unfolding sh_ichild_def
  proof (intro allI impI)
    fix c' v assume "ic ?t u c' = Some v"
    then have i: "ic t u c' = Some v" by (simp only: ic)
    note d = shape_ichildD [OF sh u i]
    have "lc ?t u c' = None"
    proof (cases "u = ?an")
      case True
      with i icN have "c' \<noteq> c" by auto
      with True d(4) show ?thesis by (simp add: lc)
    next
      case False
      with d(4) show ?thesis by (simp add: lc)
    qed
    with d show "v \<noteq> 0 \<and> par ?G v = u \<and> txt ?t ! St ?t v = c' \<and> lc ?t u c' = None"
      by (simp add: st)
  qed
  moreover have "sh_lchild ?G ?t u" if u: "u < length (inodes t)" for u
    unfolding sh_lchild_def
  proof (intro allI impI)
    fix c' l assume a: "lc ?t u c' = Some l"
    show "lpar ?G l = u \<and> txt ?t ! Ls ?t l = c'"
    proof (cases "u = ?an \<and> c' = c")
      case True
      with a have "l = ?L" by (simp add: lc)
      with True c show ?thesis by simp
    next
      case False
      with a have o: "lc t u c' = Some l" by (auto simp: lc split: if_splits)
      note d = shape_lchildD [OF sh u o]
      with d(3) show ?thesis by (simp add: nth_append)
    qed
  qed
  moreover have "sh_leaf ?G g ?t l" if l: "l < Suc ?L" for l
  proof (cases "l = ?L")
    case True
    have "lc ?t ?an c = Some ?L" by (simp only: lc) simp
    then have "lc ?t ?an (txt t ! unat kw) = Some ?L" by (simp only: c)
    with True an kw kg e show ?thesis
      unfolding sh_leaf_def by (simp add: ps)
  next
    case False
    with l have l': "l < ?L" by simp
    note d = shape_leafD [OF sh l']
    have d2: "lc t (lpar G l) (txt t ! Ls t l) = Some l" using d(2) by (simp only: d(3))
    have ne: "txt t ! Ls t l \<noteq> c" if "lpar G l = ?an"
      using d2 lcN that by auto
    have "lc ?t (lpar G l) (txt t ! Ls t l) = Some l"
      using d2 ne by (auto simp: lc)
    with d(1,3,4,5) l' False show ?thesis
      unfolding sh_leaf_def by (simp add: ps nth_append)
  qed
  ultimately show ?thesis
    using sh wf_rule_2b_pre [OF wf, of kw c] unfolding shape_def by simp
qed

subsection \<open>The invariant at the head of an iteration\<close>

lemma INV_L:
  assumes inv: "INV G k t" and r: "remainder t \<noteq> 0"
  shows "length (leaves t) \<le> k"
    and "Suc k - unat (remainder t) = length (leaves t)"
    and "dep G (active_node t) + unat (active_length t) + length (leaves t) = k"
    and "eqsub (txt t) (length (leaves t)) (pos G t (active_node t)) (dep G (active_node t))"
    and "active_length t \<noteq> 0 \<Longrightarrow>
           unat (active_edge t) = length (leaves t) + dep G (active_node t)"
    and "length (leaves t) < k \<Longrightarrow>
           \<exists>i<length (leaves t). eqsub (txt t) i (length (leaves t)) (k - length (leaves t))"
    and "unat (remainder t - 1) = k - length (leaves t)"
    and "active_node t < length (inodes t)"
    and "pending_ok G k (length (leaves t)) t"
    and "unat (remainder t) + length (leaves t) = Suc k"
proof -
  note d = INV_D [OF inv]
  have r1: "1 \<le> unat (remainder t)" using r by (simp add: unat_eq_0_iff Suc_le_eq unat_gt_0)
  show L: "Suc k - unat (remainder t) = length (leaves t)" using d(3) by simp
  show Lk: "length (leaves t) \<le> k" using d(2,3) r1 by linarith
  show "dep G (active_node t) + unat (active_length t) + length (leaves t) = k"
    using d(4) Lk unfolding L by linarith
  show "eqsub (txt t) (length (leaves t)) (pos G t (active_node t)) (dep G (active_node t))"
    using d(5) unfolding L .
  show "unat (active_edge t) = length (leaves t) + dep G (active_node t)"
    if "active_length t \<noteq> 0" using d(6) [OF that] unfolding L .
  show "\<exists>i<length (leaves t). eqsub (txt t) i (length (leaves t)) (k - length (leaves t))"
    if "length (leaves t) < k" using d(7) that unfolding L by blast
  show "unat (remainder t - 1) = k - length (leaves t)"
    using unat_pred_nowrap [OF r] d(2,3) r1 by linarith
  show "active_node t < length (inodes t)" using shape_wf [OF d(1)] by (rule tree_wf_active)
  show "pending_ok G k (length (leaves t)) t" using d(11) [OF r] unfolding L .
  show "unat (remainder t) + length (leaves t) = Suc k" using d(2,3) by linarith
qed

lemma shape_frame:
  assumes "shape G g t" "tree_wf t'" "txt t' = txt t" "global_end t' = global_end t"
    "leaves t' = leaves t" "inodes t' = inodes t"
  shows "shape G g t'"
  using assms(1,2) by (rule shape_cong) (simp_all add: assms)

lemma shape_fields:
  assumes "shape G g t"
  shows "shape G g (t\<lparr>remainder := r\<rparr>)"
    and "shape G g (t\<lparr>active_edge := e\<rparr>)"
    and "shape G g (t\<lparr>active_length := l\<rparr>)"
    and "shape G g (t\<lparr>need_link := None\<rparr>)"
    and "a < length (inodes t) \<Longrightarrow> shape G g (t\<lparr>active_node := a\<rparr>)"
  using shape_wf [OF assms]
  by (auto intro!: shape_frame [OF assms] simp: tree_wf_def)

lemma pending_ok_active_edge [simp]:
  "pending_ok G k j (t\<lparr>active_edge := e\<rparr>) = pending_ok G k j t"
  unfolding pending_ok_def by simp

lemma INV_I:
  assumes "shape G k t" "remainder t \<noteq> 0"
    and "unat (remainder t) + length (leaves t) = Suc k"
    and "dep G (active_node t) + unat (active_length t) + length (leaves t) = k"
    and "eqsub (txt t) (length (leaves t)) (pos G t (active_node t)) (dep G (active_node t))"
    and "active_length t \<noteq> 0 \<Longrightarrow>
           unat (active_edge t) = length (leaves t) + dep G (active_node t)"
    and "length (leaves t) < k \<Longrightarrow>
           \<exists>i<length (leaves t). eqsub (txt t) i (length (leaves t)) (k - length (leaves t))"
    and "links_sem G t" "links_all t" "pending_ok G k (length (leaves t)) t"
  shows "INV G k t"
proof -
  have j: "Suc k - unat (remainder t) = length (leaves t)" using assms(3) by linarith
  have "unat (remainder t) \<le> Suc k" using assms(3) by linarith
  moreover have "dep G (active_node t) + unat (active_length t) = k - length (leaves t)"
    using assms(4) by linarith
  ultimately show ?thesis
    unfolding INV_def j using assms(1,2,5-10) by simp
qed

lemma INV_I0:
  assumes "shape G k t" "remainder t = 0" "length (leaves t) = Suc k"
    and "dep G (active_node t) = 0" "active_length t = 0"
    and "links_sem G t" "links_all t" "need_link t = Some 0"
  shows "INV G k t"
  unfolding INV_def using assms by simp

lemma prepared:
  assumes inv: "INV G k t0" and r: "remainder t0 \<noteq> 0" and kw: "unat kw = k"
    and t: "t = (if active_length t0 = 0 then t0\<lparr>active_edge := kw\<rparr> else t0)"
  shows "INV G k t" and "remainder t \<noteq> 0"
    and "unat (active_edge t) = length (leaves t) + dep G (active_node t)"
    and "active_length t = 0 \<Longrightarrow> active_edge t = kw"
    and "length (leaves t) + dep G (active_node t) \<le> k"
proof -
  note L = INV_L [OF inv r]
  show r': "remainder t \<noteq> 0" using r t by simp
  show inv': "INV G k t"
  proof (cases "active_length t0 = 0")
    case True
    have "INV G k (t0\<lparr>active_edge := kw\<rparr>)"
    proof (rule INV_I)
      show "shape G k (t0\<lparr>active_edge := kw\<rparr>)"
        using INV_D(1) [OF inv] by (rule shape_fields)
      show "remainder (t0\<lparr>active_edge := kw\<rparr>) \<noteq> 0" using r by simp
      show "unat (remainder (t0\<lparr>active_edge := kw\<rparr>)) + length (leaves (t0\<lparr>active_edge := kw\<rparr>)) = Suc k"
        using L(10) by simp
      show "dep G (active_node (t0\<lparr>active_edge := kw\<rparr>)) + unat (active_length (t0\<lparr>active_edge := kw\<rparr>)) +
          length (leaves (t0\<lparr>active_edge := kw\<rparr>)) = k"
        using L(3) by simp
      show "eqsub (txt (t0\<lparr>active_edge := kw\<rparr>)) (length (leaves (t0\<lparr>active_edge := kw\<rparr>)))
          (pos G (t0\<lparr>active_edge := kw\<rparr>) (active_node (t0\<lparr>active_edge := kw\<rparr>)))
          (dep G (active_node (t0\<lparr>active_edge := kw\<rparr>)))"
        using L(4) by simp
      show "links_sem G (t0\<lparr>active_edge := kw\<rparr>)" using INV_D(8) [OF inv] by simp
      show "links_all (t0\<lparr>active_edge := kw\<rparr>)" using INV_D(9) [OF inv] by simp
      show "pending_ok G k (length (leaves (t0\<lparr>active_edge := kw\<rparr>))) (t0\<lparr>active_edge := kw\<rparr>)"
        using L(9) by simp
      show "\<exists>i<length (leaves (t0\<lparr>active_edge := kw\<rparr>)).
          eqsub (txt (t0\<lparr>active_edge := kw\<rparr>)) i (length (leaves (t0\<lparr>active_edge := kw\<rparr>)))
            (k - length (leaves (t0\<lparr>active_edge := kw\<rparr>)))"
        if "length (leaves (t0\<lparr>active_edge := kw\<rparr>)) < k"
        using L(6) that by simp
    qed (simp add: True)
    with True t show ?thesis by simp
  next
    case False
    with t inv show ?thesis by simp
  qed
  show "active_length t = 0 \<Longrightarrow> active_edge t = kw" using t by (simp split: if_splits)
  show "unat (active_edge t) = length (leaves t) + dep G (active_node t)"
  proof (cases "active_length t0 = 0")
    case True
    then have "unat (active_length t0) = 0" by simp
    with L(3) have "length (leaves t0) + dep G (active_node t0) = k" by linarith
    with True t kw show ?thesis by simp
  next
    case False
    with t L(5) show ?thesis by simp
  qed
  show "length (leaves t) + dep G (active_node t) \<le> k"
    using INV_L(3) [OF inv' r'] by linarith
qed

subsection \<open>Links in a tree that has grown by at most one internal node\<close>

lemma links_sem_ext:
  assumes ls: "links_sem G t" and wf: "tree_wf t" and tx: "txt t' = txt t"
    and len: "length (inodes t') = length (inodes t) \<or>
        length (inodes t') = Suc (length (inodes t)) \<and>
        suffix_link (inodes t' ! length (inodes t)) = None \<and>
        weiner_links (inodes t' ! length (inodes t)) = []"
    and nodes: "\<And>u. u < length (inodes t) \<Longrightarrow>
        suffix_link (inodes t' ! u) = suffix_link (inodes t ! u) \<and>
        weiner_links (inodes t' ! u) = weiner_links (inodes t ! u) \<and>
        end_idx (inodes t' ! u) = end_idx (inodes t ! u) \<and> dep G' u = dep G u"
  shows "links_sem G' t'"
proof -
  let ?N = "length (inodes t)"
  have rt: "0 < ?N" using tree_wf_active [OF wf] by (cases "inodes t") simp_all
  have ps: "pos G' t' u = pos G t u" if "u < ?N" for u
    using nodes [OF that] by (simp add: pos_def)
  have new: "suffix_link (inodes t' ! v) = None \<and> weiner_links (inodes t' ! v) = []"
    if "v < length (inodes t')" "\<not> v < ?N" for v
  proof -
    from that len have "v = ?N" by auto
    with that len show ?thesis by auto
  qed
  have c1: "suffix_link (inodes t' ! 0) = None"
    using nodes [OF rt] links_semD(1) [OF ls] by simp
  have c2: "u < length (inodes t') \<and> dep G' v = Suc (dep G' u) \<and>
        eqsub (txt t') (Suc (pos G' t' v)) (pos G' t' u) (dep G' u)"
    if v: "v < length (inodes t')" and s: "suffix_link (inodes t' ! v) = Some u" for v u
  proof -
    have v': "v < ?N" using new [OF v] s by auto
    with s nodes [OF v'] have s': "suffix_link (inodes t ! v) = Some u" by simp
    note d = links_semD(2) [OF ls v' s']
    then have u: "u < ?N" by simp
    have "u < length (inodes t')" using u len by auto
    then show ?thesis using d nodes [OF u] nodes [OF v'] ps [OF u] ps [OF v'] tx by simp
  qed
  have c3: "v \<in> set (weiner_links (inodes t' ! u)) \<longleftrightarrow> suffix_link (inodes t' ! v) = Some u"
    if u: "u < length (inodes t')" and v: "v < length (inodes t')" for u v
  proof (cases "u < ?N")
    case u': True
    show ?thesis
    proof (cases "v < ?N")
      case True
      show ?thesis using links_semD(3) [OF ls u' True] nodes [OF u'] nodes [OF True] by simp
    next
      case False
      have "\<forall>w \<in> set (weiner_links (inodes t ! u)). w < ?N"
        using tree_wf_node [OF wf u'] by (simp add: node_wf_def)
      with False have "v \<notin> set (weiner_links (inodes t ! u))" by auto
      with new [OF v False] nodes [OF u'] show ?thesis by simp
    qed
  next
    case False
    have "suffix_link (inodes t' ! v) \<noteq> Some u"
    proof
      assume "suffix_link (inodes t' ! v) = Some u"
      with new [OF v] have v': "v < ?N" by auto
      with \<open>suffix_link (inodes t' ! v) = Some u\<close> nodes [OF v']
      have "suffix_link (inodes t ! v) = Some u" by simp
      from links_semD(2) [OF ls v' this] False show False by simp
    qed
    with new [OF u False] show ?thesis by simp
  qed
  show ?thesis unfolding links_sem_def using c1 c2 c3 by blast
qed

lemma shape_bounds:
  assumes "shape G g t"
  shows "g \<le> length (txt t)" "length (txt t) < 2 ^ 32" "unat (global_end t) = g" "dep G 0 = 0"
  using assms unfolding shape_def sh_root_def by blast+

lemma NB_Suc:
  assumes "NB T L k" "L < k"
  shows "NB T (Suc L) k"
proof -
  from assms(1) obtain p where p: "p + (k - L) < k" "eqsub T p L (k - L)"
    "T ! (p + (k - L)) \<noteq> T ! k" unfolding NB_def by blast
  have "eqsub T (p + 1) (L + 1) (k - L - 1)" using p(2) by (rule eqsub_shift) (use assms(2) in simp)
  then have a: "eqsub T (Suc p) (Suc L) (k - Suc L)" by simp
  have b: "Suc p + (k - Suc L) = p + (k - L)" using assms(2) by simp
  have "Suc p + (k - Suc L) < k \<and> eqsub T (Suc p) (Suc L) (k - Suc L) \<and>
      T ! (Suc p + (k - Suc L)) \<noteq> T ! k"
    unfolding b using a p(1,3) by blast
  then show ?thesis unfolding NB_def by blast
qed

lemma occ_Suc:
  assumes "\<exists>i<L. eqsub T i L (k - L)"
  shows "\<exists>i<Suc L. eqsub T i (Suc L) (k - Suc L)"
proof -
  from assms obtain i where i: "i < L" "eqsub T i L (k - L)" by blast
  have "eqsub T (i + 1) (L + 1) (k - L - 1)"
  proof (cases "L < k")
    case True
    show ?thesis using i(2) by (rule eqsub_shift) (use True in simp)
  next
    case False
    then show ?thesis by simp
  qed
  with i(1) show ?thesis by (intro exI [of _ "Suc i"]) simp
qed

lemma INV_next_fields:
  assumes f: "txt t' = txt t" "inodes t' = inodes t" "leaves t' = leaves t"
      "need_link t' = need_link t" "global_end t' = global_end t"
  shows "pos G t' = pos G t" "links_sem G t' = links_sem G t"
  unfolding links_sem_def pos_def f by simp_all

subsection \<open>Moving to the next suffix\<close>

lemma step_next_suffix:
  assumes sh: "shape G k t" and kw: "unat kw = k"
    and lv: "length (leaves t) = Suc L"
    and r: "unat (remainder t) + L = Suc k"
    and d: "dep G (active_node t) + unat (active_length t) + L = k"
    and e: "eqsub (txt t) L (pos G t (active_node t)) (dep G (active_node t))"
    and ae: "active_length t \<noteq> 0 \<Longrightarrow> unat (active_edge t) = L + dep G (active_node t)"
    and occ: "L < k \<Longrightarrow> \<exists>i<L. eqsub (txt t) i L (k - L)"
    and ls: "links_sem G t"
    and nl: "need_link t = Some M" and M: "M < length (inodes t)" and dM: "dep G M = k - L"
    and eM: "eqsub (txt t) L (pos G t M) (dep G M)"
    and all: "\<And>v. v < length (inodes t) \<Longrightarrow> v \<noteq> 0 \<Longrightarrow>
                suffix_link (inodes t ! v) = None \<Longrightarrow> v = M"
    and Mn: "M \<noteq> active_node t \<Longrightarrow> suffix_link (inodes t ! M) = None"
    and Ma: "M = active_node t \<Longrightarrow> active_length t = 0"
    and an_l: "active_node t \<noteq> 0 \<Longrightarrow> suffix_link (inodes t ! active_node t) \<noteq> None"
    and nb: "active_length t \<noteq> 0 \<Longrightarrow> NB (txt t) L k"
  shows "INV G k (next_suffix kw t)"
proof -
  let ?an = "active_node t" and ?al = "active_length t" and ?t = "next_suffix kw t"
  have wf: "tree_wf t" using sh by (rule shape_wf)
  have an: "?an < length (inodes t)" using wf by (rule tree_wf_active)
  have rt: "0 < length (inodes t)" using sh by (rule shape_root_lt)
  note b = shape_bounds [OF sh]
  have Lk: "L \<le> k" using d by linarith
  have rn0: "remainder t \<noteq> 0" using r Lk by (auto simp: unat_eq_0_iff [symmetric])
  have r1: "unat (remainder t - 1) = k - L" using unat_pred_nowrap [OF rn0] r by linarith
  have f: "txt ?t = txt t" "inodes ?t = inodes t" "leaves ?t = leaves t"
    "need_link ?t = need_link t" "global_end ?t = global_end t" by simp_all
  note g = INV_next_fields [OF f]
  have rem: "remainder ?t = remainder t - 1" by simp
  have la: "links_all ?t" unfolding links_all_def f nl using all by blast
  have ls': "links_sem G ?t" unfolding g using ls .
  have M0: "M \<noteq> 0" if "L < k"
  proof
    assume "M = 0"
    with dM b(4) that show False by simp
  qed
  show ?thesis
  proof (cases "?an = 0 \<and> ?al \<noteq> 0")
    case True
    then have an0: "?an = 0" and al0: "?al \<noteq> 0" by simp_all
    have fa: "active_node ?t = 0" "active_length ?t = ?al - 1"
      "active_edge ?t = kw - (remainder t - 1) + 1"
      using True by (simp_all add: next_suffix_def Let_def root_def word_gt_0)
    have al1: "1 \<le> unat ?al" using al0 by (simp add: unat_eq_0_iff Suc_le_eq unat_gt_0)
    have alp: "unat (?al - 1) = unat ?al - 1" using al0 by (rule unat_pred_nowrap)
    have dL: "unat ?al + L = k" using d an0 b(4) by simp
    have Lk': "L < k" using dL al1 by linarith
    have sh': "shape G k ?t"
      using sh wf_next_suffix [OF wf] f(1,5,3,2) by (rule shape_frame)
    have ae': "unat (kw - (remainder t - 1) + 1) = Suc L"
    proof -
      have "unat (kw - (remainder t - 1)) = k - (k - L)"
        using unat_sub_nowrap [of "remainder t - 1" kw] kw r1 by simp
      then have "unat (kw - (remainder t - 1)) = L" using Lk by simp
      then show ?thesis
        using unat_Suc_nowrap [of "kw - (remainder t - 1)" k] Lk' b(1,2) by simp
    qed
    show ?thesis
    proof (rule INV_I)
      show "shape G k ?t" by (rule sh')
      show "remainder ?t \<noteq> 0"
        unfolding rem using r1 Lk' by (auto simp: unat_eq_0_iff [symmetric])
      show "unat (remainder ?t) + length (leaves ?t) = Suc k"
        unfolding rem f lv r1 using Lk' by simp
      show "dep G (active_node ?t) + unat (active_length ?t) + length (leaves ?t) = k"
        unfolding fa f lv alp b(4) using dL al1 by simp
      show "eqsub (txt ?t) (length (leaves ?t)) (pos G ?t (active_node ?t)) (dep G (active_node ?t))"
        unfolding fa b(4) by simp
      show "unat (active_edge ?t) = length (leaves ?t) + dep G (active_node ?t)"
        unfolding fa f lv b(4) ae' by simp
      show "\<exists>i<length (leaves ?t). eqsub (txt ?t) i (length (leaves ?t)) (k - length (leaves ?t))"
        unfolding f lv using occ [OF Lk'] by (rule occ_Suc)
      show "links_sem G ?t" by (rule ls')
      show "links_all ?t" by (rule la)
      show "pending_ok G k (length (leaves ?t)) ?t"
        unfolding pending_ok_def f g lv nl
      proof (intro allI impI)
        fix v assume "Some M = Some v"
        then have v: "v = M" by simp
        have "M \<noteq> ?an" using Ma al0 by blast
        then have "suffix_link (inodes t ! M) = None" by (rule Mn)
        moreover have "NB (txt t) (Suc L) k" using nb [OF al0] Lk' by (rule NB_Suc)
        moreover have "dep G M = Suc (k - Suc L)" using dM Lk' by simp
        moreover have "eqsub (txt t) (Suc L - 1) (pos G t M) (dep G M)" using eM by simp
        ultimately show "v \<noteq> 0 \<and> 1 \<le> Suc L \<and> dep G v = Suc (k - Suc L) \<and>
          eqsub (txt t) (Suc L - 1) (pos G t v) (dep G v) \<and>
          (\<forall>u. suffix_link (inodes t ! v) = Some u \<longrightarrow>
             u = active_node ?t \<and> active_length ?t = 0) \<and>
          (active_length ?t \<noteq> 0 \<longrightarrow> NB (txt t) (Suc L) k)"
          unfolding v using M0 [OF Lk'] by simp
      qed
    qed
  next
    case False
    show ?thesis
    proof (cases "?an = 0")
      case an0: True
      with False have al0: "?al = 0" by simp
      have sl: "suffix_link (inodes t ! 0) = None" using ls by (rule links_semD(1))
      have fa: "active_node ?t = 0" "active_length ?t = 0"
        using an0 al0 sl by (simp_all add: next_suffix_def Let_def root_def)
      have "L = k" using d an0 al0 b(4) by simp
      have "dep G M = 0" using dM \<open>L = k\<close> by simp
      with sh M have M0': "M = 0" by (rule shape_dep_0)
      have "unat (remainder t - 1) = 0" using r1 \<open>L = k\<close> by simp
      then have r0: "remainder t - 1 = 0" by (simp add: unat_eq_0_iff)
      show ?thesis
      proof (rule INV_I0)
        show "shape G k ?t"
          using sh wf_next_suffix [OF wf] f(1,5,3,2) by (rule shape_frame)
        show "remainder ?t = 0" unfolding rem by (rule r0)
        show "length (leaves ?t) = Suc k" unfolding f lv \<open>L = k\<close> ..
        show "dep G (active_node ?t) = 0" unfolding fa by (rule b(4))
        show "active_length ?t = 0" by (rule fa)
        show "links_sem G ?t" by (rule ls')
        show "links_all ?t" by (rule la)
        show "need_link ?t = Some 0" unfolding f nl M0' ..
      qed
    next
      case an1: False
      from an_l [OF an1] obtain u where u: "suffix_link (inodes t ! ?an) = Some u" by blast
      note lu = links_semD(2) [OF ls an u]
      have fa: "active_node ?t = u" "active_length ?t = ?al" "active_edge ?t = active_edge t"
        using an1 u by (simp_all add: next_suffix_def Let_def root_def)
      have dpos: "0 < dep G ?an" using sh an an1 by (rule shape_dep_pos)
      have Lk': "L < k" using d dpos by linarith
      have du: "dep G u + unat ?al + Suc L = k" using d lu by linarith
      show ?thesis
      proof (rule INV_I)
        show "shape G k ?t"
          using sh wf_next_suffix [OF wf] f(1,5,3,2) by (rule shape_frame)
        show "remainder ?t \<noteq> 0"
          unfolding rem using r1 Lk' by (auto simp: unat_eq_0_iff [symmetric])
        show "unat (remainder ?t) + length (leaves ?t) = Suc k"
          unfolding rem f lv r1 using Lk' by simp
        show "dep G (active_node ?t) + unat (active_length ?t) + length (leaves ?t) = k"
          unfolding fa f lv by (rule du)
        show "eqsub (txt ?t) (length (leaves ?t)) (pos G ?t (active_node ?t)) (dep G (active_node ?t))"
          unfolding fa f g lv
        proof -
          have "eqsub (txt t) (L + 1) (pos G t ?an + 1) (dep G ?an - 1)"
            using e by (rule eqsub_shift) (use dpos in simp)
          then have "eqsub (txt t) (Suc L) (Suc (pos G t ?an)) (dep G u)" using lu by simp
          moreover have "eqsub (txt t) (Suc (pos G t ?an)) (pos G t u) (dep G u)" using lu by simp
          ultimately show "eqsub (txt t) (Suc L) (pos G t u) (dep G u)" by (rule eqsub_trans)
        qed
        show "unat (active_edge ?t) = length (leaves ?t) + dep G (active_node ?t)"
          if "active_length ?t \<noteq> 0"
        proof -
          have "?al \<noteq> 0" using that unfolding fa .
          from ae [OF this] lu show ?thesis unfolding fa f lv by simp
        qed
        show "\<exists>i<length (leaves ?t). eqsub (txt ?t) i (length (leaves ?t)) (k - length (leaves ?t))"
          unfolding f lv using occ [OF Lk'] by (rule occ_Suc)
        show "links_sem G ?t" by (rule ls')
        show "links_all ?t" by (rule la)
        show "pending_ok G k (length (leaves ?t)) ?t"
          unfolding pending_ok_def f g lv nl
        proof (intro allI impI)
          fix v assume "Some M = Some v"
          then have v: "v = M" by simp
          have sl: "\<forall>u'. suffix_link (inodes t ! M) = Some u' \<longrightarrow> u' = u \<and> ?al = 0"
          proof (cases "M = ?an")
            case True
            from Ma [OF True] u True show ?thesis by simp
          next
            case False
            from Mn [OF this] show ?thesis by simp
          qed
          have nb': "?al \<noteq> 0 \<longrightarrow> NB (txt t) (Suc L) k" using nb Lk' by (auto intro: NB_Suc)
          have "dep G M = Suc (k - Suc L)" using dM Lk' by simp
          moreover have "eqsub (txt t) (Suc L - 1) (pos G t M) (dep G M)" using eM by simp
          ultimately show "v \<noteq> 0 \<and> 1 \<le> Suc L \<and> dep G v = Suc (k - Suc L) \<and>
            eqsub (txt t) (Suc L - 1) (pos G t v) (dep G v) \<and>
            (\<forall>u. suffix_link (inodes t ! v) = Some u \<longrightarrow>
               u = active_node ?t \<and> active_length ?t = 0) \<and>
            (active_length ?t \<noteq> 0 \<longrightarrow> NB (txt t) (Suc L) k)"
            unfolding v fa using M0 [OF Lk'] sl nb' by simp
        qed
      qed
    qed
  qed
qed

lemma linked_after_add_links:
  assumes la: "links_all t" and v: "v < length (inodes t)" "v \<noteq> 0"
    and nl: "need_link t2 = need_link t"
    and sl: "suffix_link (inodes t2 ! v) = suffix_link (inodes t ! v)"
    and v2: "v < length (inodes t2)"
  shows "suffix_link (inodes (add_links nd t2) ! v) \<noteq> None"
proof
  assume a: "suffix_link (inodes (add_links nd t2) ! v) = None"
  then have "need_link t \<noteq> Some v" "suffix_link (inodes t ! v) = None"
    unfolding add_links_suffix_link [OF v2] nl sl by (auto split: if_splits)
  with la v show False unfolding links_all_def by blast
qed

lemma pending_target:
  assumes po: "pending_ok G k L t" and nl: "need_link t = Some v0"
    and e: "eqsub (txt t) L p (k - L)"
  shows "v0 \<noteq> 0" "dep G v0 = Suc (k - L)" "eqsub (txt t) (Suc (pos G t v0)) p (k - L)"
proof -
  note p = pending_okD [OF po nl]
  show "v0 \<noteq> 0" "dep G v0 = Suc (k - L)" using p by simp_all
  have "eqsub (txt t) (L - 1 + 1) (pos G t v0 + 1) (dep G v0 - 1)"
    using p(4) by (rule eqsub_shift) (use p(3) in simp)
  then have "eqsub (txt t) L (Suc (pos G t v0)) (k - L)" using p(2,3) by simp
  then have "eqsub (txt t) (Suc (pos G t v0)) L (k - L)" by (rule eqsub_sym)
  then show "eqsub (txt t) (Suc (pos G t v0)) p (k - L)" using e by (rule eqsub_trans)
qed

subsection \<open>Rule 2b\<close>

lemma step_rule_2b:
  assumes inv: "INV G k t" and r: "remainder t \<noteq> 0" and kw: "unat kw = k"
    and ae: "unat (active_edge t) = length (leaves t) + dep G (active_node t)"
    and c: "char_at (txt t) (active_edge t) = Some c"
    and lcN: "lc t (active_node t) c = None" and icN: "ic t (active_node t) c = None"
  shows "\<exists>G'. INV G' k (next_suffix kw (rule_2b kw c t))"
proof -
  let ?an = "active_node t" and ?L = "length (leaves t)"
  let ?G = "G\<lparr>lpar := (lpar G)(?L := ?an)\<rparr>"
  let ?t2 = "rule_2b_pre kw c t"
  let ?t3 = "add_links ?an ?t2"
  note L = INV_L [OF inv r] and d = INV_D [OF inv]
  have sh: "shape G k t" by (rule d(1))
  have wf: "tree_wf t" using sh by (rule shape_wf)
  have an: "?an < length (inodes t)" by (rule L(8))
  have c': "c = txt t ! (?L + dep G ?an)" using c ae by (simp add: char_at_Some)
  have al0: "active_length t = 0"
  proof (rule ccontr)
    assume "active_length t \<noteq> 0"
    then have "0 < unat (active_length t)" by (simp add: unat_gt_0)
    with L(3) have Lk: "?L < k" and dd: "dep G ?an < k - ?L" by linarith+
    from L(6) [OF Lk] obtain i where i: "i < ?L" "eqsub (txt t) i ?L (k - ?L)" by blast
    from edge_towards(3) [OF sh an i L(4) dd] lcN icN show False unfolding c' by simp
  qed
  have dk: "?L + dep G ?an = k" using L(3) al0 by simp
  have dk': "dep G ?an = k - ?L" using dk by linarith
  have ckw: "c = txt t ! unat kw" unfolding c' dk kw ..
  have sh2: "shape ?G k ?t2"
    using sh lcN icN ckw _ _ L(4)
  proof (rule shape_rule_2b_pre)
    show "unat kw = ?L + dep G ?an" using kw dk by simp
    show "unat kw \<le> k" using kw by simp
  qed
  have sh3: "shape ?G k ?t3" using sh2 by (rule shape_add_links) (simp add: an)
  have nd: "suffix_link (inodes ?t2 ! u) = suffix_link (inodes t ! u)"
    "weiner_links (inodes ?t2 ! u) = weiner_links (inodes t ! u)"
    "end_idx (inodes ?t2 ! u) = end_idx (inodes t ! u)" for u
    by (simp_all add: rule_2b_pre_node [OF an])
  have ps: "pos ?G ?t2 u = pos G t u" for u by (simp add: pos_def nd)
  have ls2: "links_sem ?G ?t2"
    using d(8) wf by (rule links_sem_ext) (simp_all add: nd)
  have wf2: "tree_wf ?t2" using wf by (rule wf_rule_2b_pre)
  have ls3: "links_sem ?G ?t3"
    using ls2 wf2
  proof (rule links_sem_add_links)
    show "?an < length (inodes ?t2)" using an by simp
    fix v0 assume "need_link ?t2 = Some v0"
    then have nl: "need_link t = Some v0" by simp
    have e: "eqsub (txt t) ?L (pos G t ?an) (k - ?L)" using L(4) unfolding dk' .
    note p = pending_target [OF L(9) nl e]
    have "\<forall>u. suffix_link (inodes t ! v0) = Some u \<longrightarrow> u = ?an"
      using pending_okD(5) [OF L(9) nl] by blast
    then show "v0 \<noteq> 0 \<and> dep ?G v0 = Suc (dep ?G ?an) \<and>
        eqsub (txt ?t2) (Suc (pos ?G ?t2 v0)) (pos ?G ?t2 ?an) (dep ?G ?an) \<and>
        (\<forall>u. suffix_link (inodes ?t2 ! v0) = Some u \<longrightarrow> u = ?an)"
      unfolding ps nd using p dk' by simp
  qed
  have linked: "suffix_link (inodes ?t3 ! v) \<noteq> None" if "v < length (inodes t)" "v \<noteq> 0" for v
    using d(9) that by (rule linked_after_add_links) (simp_all add: nd that)
  have "INV ?G k (next_suffix kw ?t3)"
    using sh3 kw
  proof (rule step_next_suffix [where L = ?L and M = ?an])
    show "length (leaves ?t3) = Suc ?L" by simp
    show "unat (remainder ?t3) + ?L = Suc k" using L(10) by simp
    show "dep ?G (active_node ?t3) + unat (active_length ?t3) + ?L = k" using L(3) by simp
    show "eqsub (txt ?t3) ?L (pos ?G ?t3 (active_node ?t3)) (dep ?G (active_node ?t3))"
      using L(4) by (simp add: ps)
    show "eqsub (txt ?t3) ?L (pos ?G ?t3 ?an) (dep ?G ?an)"
      using L(4) by (simp add: ps)
    show "?L < k \<Longrightarrow> \<exists>i<?L. eqsub (txt ?t3) i ?L (k - ?L)" using L(6) by simp
    show "links_sem ?G ?t3" by (rule ls3)
    show "need_link ?t3 = Some ?an" by simp
    show "?an < length (inodes ?t3)" using an by simp
    show "dep ?G ?an = k - ?L" using dk' by simp
    show "v = ?an" if "v < length (inodes ?t3)" "v \<noteq> 0" "suffix_link (inodes ?t3 ! v) = None" for v
      using linked [of v] that by simp
    show "active_node ?t3 \<noteq> 0 \<Longrightarrow> suffix_link (inodes ?t3 ! active_node ?t3) \<noteq> None"
      using linked [of ?an] an by simp
  qed (simp_all add: al0)
  then show ?thesis unfolding rule_2b_eq by blast
qed

subsection \<open>Walking down\<close>

lemma step_walk_down:
  assumes inv: "INV G k t" and r: "remainder t \<noteq> 0" and kw: "unat kw = k"
    and ae: "unat (active_edge t) = length (leaves t) + dep G (active_node t)"
    and c: "char_at (txt t) (active_edge t) = Some c"
    and icv: "ic t (active_node t) c = Some v"
    and len: "edge_length (inodes t ! v) \<le> active_length t"
  shows "INV G k (t\<lparr>active_edge := active_edge t + edge_length (inodes t ! v),
                    active_length := active_length t - edge_length (inodes t ! v),
                    active_node := v\<rparr>)"
proof -
  let ?an = "active_node t" and ?L = "length (leaves t)" and ?el = "edge_length (inodes t ! v)"
  let ?t = "t\<lparr>active_edge := active_edge t + ?el, active_length := active_length t - ?el,
               active_node := v\<rparr>"
  note L = INV_L [OF inv r] and d = INV_D [OF inv]
  have sh: "shape G k t" by (rule d(1))
  have wf: "tree_wf t" using sh by (rule shape_wf)
  have an: "?an < length (inodes t)" by (rule L(8))
  note b = shape_bounds [OF sh]
  have c': "c = txt t ! (?L + dep G ?an)" using c ae by (simp add: char_at_Some)
  note ch = shape_ichildD [OF sh an icv]
  note el = edge_length_unat [OF sh ch(5) ch(1)]
  have le: "unat ?el \<le> unat (active_length t)" using len by (simp add: word_le_nat_alt)
  have dv: "dep G v = dep G ?an + unat ?el" using el(2) ch(2) by simp
  have al0: "active_length t \<noteq> 0" using le el(3) by auto
  have Lk: "?L < k" and dd: "dep G ?an < k - ?L" using L(3) le el(3) by linarith+
  from L(6) [OF Lk] obtain i where i: "i < ?L" "eqsub (txt t) i ?L (k - ?L)" by blast
  have icv': "ic t ?an (txt t ! (?L + dep G ?an)) = Some v" using icv unfolding c' .
  note et = edge_towards(2) [OF sh an i L(4) dd icv']
  have dvk: "dep G v \<le> k - ?L" using dv L(3) le by linarith
  have ev: "eqsub (txt t) ?L (pos G t v) (dep G v)"
  proof -
    have "eqsub (txt t) i ?L (dep G v)" using i(2) dvk by (rule eqsub_mono)
    then have "eqsub (txt t) ?L i (dep G v)" by (rule eqsub_sym)
    moreover have "eqsub (txt t) i (pos G t v) (dep G v)" using et by simp
    ultimately show ?thesis by (rule eqsub_trans)
  qed
  have f: "txt ?t = txt t" "inodes ?t = inodes t" "leaves ?t = leaves t"
    "need_link ?t = need_link t" "global_end ?t = global_end t" "remainder ?t = remainder t"
    "active_node ?t = v" "active_length ?t = active_length t - ?el"
    "active_edge ?t = active_edge t + ?el"
    by simp_all
  note g = INV_next_fields [OF f(1-5)]
  have wf': "tree_wf ?t" using wf ch(5) by (simp add: tree_wf_def)
  have ual: "unat (active_length t - ?el) = unat (active_length t) - unat ?el"
    using le by (rule unat_sub_nowrap)
  have uae: "unat (active_edge t + ?el) = ?L + dep G v"
  proof -
    have "unat (active_edge t) + unat ?el < 2 ^ 32"
      using ae dv dvk Lk b(1,2) by linarith
    from unat_add_nowrap [OF this] ae dv show ?thesis by simp
  qed
  show ?thesis
  proof (rule INV_I)
    show "shape G k ?t" using sh wf' f(1,5,3,2) by (rule shape_frame)
    show "remainder ?t \<noteq> 0" unfolding f by (rule r)
    show "unat (remainder ?t) + length (leaves ?t) = Suc k" unfolding f by (rule L(10))
    show "dep G (active_node ?t) + unat (active_length ?t) + length (leaves ?t) = k"
      unfolding f ual using dv L(3) le by linarith
    show "eqsub (txt ?t) (length (leaves ?t)) (pos G ?t (active_node ?t)) (dep G (active_node ?t))"
      unfolding f g by (rule ev)
    show "unat (active_edge ?t) = length (leaves ?t) + dep G (active_node ?t)"
      unfolding f by (rule uae)
    show "\<exists>i<length (leaves ?t). eqsub (txt ?t) i (length (leaves ?t)) (k - length (leaves ?t))"
      unfolding f using i by blast
    show "links_sem G ?t" unfolding g by (rule d(8))
    show "links_all ?t" using d(9) unfolding links_all_def f .
    show "pending_ok G k (length (leaves ?t)) ?t"
      unfolding pending_ok_def f g
    proof (intro allI impI)
      fix v0 assume nl: "need_link t = Some v0"
      note p = pending_okD [OF L(9) nl]
      have "suffix_link (inodes t ! v0) = None"
      proof (cases "suffix_link (inodes t ! v0)")
        case (Some u)
        from p(5) [OF this] al0 show ?thesis by simp
      qed simp
      then show "v0 \<noteq> 0 \<and> 1 \<le> ?L \<and> dep G v0 = Suc (k - ?L) \<and>
          eqsub (txt t) (?L - 1) (pos G t v0) (dep G v0) \<and>
          (\<forall>u. suffix_link (inodes t ! v0) = Some u \<longrightarrow> u = v \<and> active_length t - ?el = 0) \<and>
          (active_length t - ?el \<noteq> 0 \<longrightarrow> NB (txt t) ?L k)"
        using p(1-4) p(6) [OF al0] by simp
    qed
  qed
qed

subsection \<open>The byte after the active point\<close>

lemma locus_leaf:
  assumes inv: "INV G k t" and r: "remainder t \<noteq> 0"
    and ae: "unat (active_edge t) = length (leaves t) + dep G (active_node t)"
    and c: "char_at (txt t) (active_edge t) = Some c"
    and lcl: "lc t (active_node t) c = Some l"
    and x: "char_at (txt t) (start (leaves t ! l) + active_length t) = Some x"
  shows "l < length (leaves t)"
    and "eqsub (txt t) l (length (leaves t)) (k - length (leaves t))"
    and "txt t ! (l + (k - length (leaves t))) = x"
    and "lpar G l = active_node t" and "Ls t l = l + dep G (active_node t)"
    and "unat (start (leaves t ! l) + active_length t) = l + (k - length (leaves t))"
    and "active_length t \<noteq> 0 \<Longrightarrow> p + (k - length (leaves t)) < k \<Longrightarrow>
          eqsub (txt t) p (length (leaves t)) (k - length (leaves t)) \<Longrightarrow> p = l"
    and "active_length t = 0 \<Longrightarrow> x = c"
proof -
  let ?an = "active_node t" and ?L = "length (leaves t)"
  note L = INV_L [OF inv r] and d = INV_D [OF inv]
  have sh: "shape G k t" by (rule d(1))
  have an: "?an < length (inodes t)" by (rule L(8))
  note b = shape_bounds [OF sh]
  have c': "c = txt t ! (?L + dep G ?an)" using c ae by (simp add: char_at_Some)
  note ch = shape_lchildD [OF sh an lcl]
  note lf = shape_leafD [OF sh ch(3)]
  show l: "l < ?L" by (rule ch(3))
  show lp: "lpar G l = ?an" by (rule ch(1))
  show ls: "Ls t l = l + dep G ?an" using lf(3) unfolding lp .
  have el: "eqsub (txt t) l (pos G t ?an) (dep G ?an)" using lf(5) unfolding lp .
  have "eqsub (txt t) (pos G t ?an) ?L (dep G ?an)" using L(4) by (rule eqsub_sym)
  with el have elL: "eqsub (txt t) l ?L (dep G ?an)" by (rule eqsub_trans)
  have uniq: "p = l" if "p < ?L" "eqsub (txt t) p ?L m" "dep G ?an < m" for p m
  proof -
    have "lc t ?an (txt t ! (?L + dep G ?an)) = Some l" using lcl unfolding c' .
    from edge_towards(1) [OF sh an that(1,2) L(4) that(3) this] show ?thesis by simp
  qed
  show e: "eqsub (txt t) l ?L (k - ?L)"
  proof (cases "active_length t = 0")
    case True
    then have "dep G ?an = k - ?L" using L(3) by simp
    with elL show ?thesis by simp
  next
    case False
    then have "0 < unat (active_length t)" by (simp add: unat_gt_0)
    with L(3) have Lk: "?L < k" and dd: "dep G ?an < k - ?L" by linarith+
    from L(6) [OF Lk] obtain i where i: "i < ?L" "eqsub (txt t) i ?L (k - ?L)" by blast
    from uniq [OF i dd] i(2) show ?thesis by simp
  qed
  have sum: "Ls t l + unat (active_length t) = l + (k - ?L)" unfolding ls using L(3) by linarith
  show u: "unat (start (leaves t ! l) + active_length t) = l + (k - ?L)"
  proof -
    have "Ls t l + unat (active_length t) < 2 ^ 32" unfolding sum using l L(1) b(1,2) by linarith
    from unat_add_nowrap [OF this] sum show ?thesis by simp
  qed
  show "txt t ! (l + (k - ?L)) = x" using x unfolding char_at_Some u by simp
  show "p = l" if "active_length t \<noteq> 0" "p + (k - ?L) < k"
    "eqsub (txt t) p ?L (k - ?L)" for p
  proof -
    from that(1) have "0 < unat (active_length t)" by (simp add: unat_gt_0)
    with L(3) have dd: "dep G ?an < k - ?L" by linarith
    have "p < ?L" using that(2) L(1) by linarith
    from uniq [OF this that(3) dd] show ?thesis .
  qed
  show "x = c" if "active_length t = 0"
  proof -
    have "x = txt t ! Ls t l" using x that by (simp add: char_at_Some)
    with ch(2) show ?thesis by simp
  qed
qed

lemma locus_internal:
  assumes inv: "INV G k t" and r: "remainder t \<noteq> 0"
    and ae: "unat (active_edge t) = length (leaves t) + dep G (active_node t)"
    and c: "char_at (txt t) (active_edge t) = Some c"
    and icv: "ic t (active_node t) c = Some v"
    and len: "active_length t < edge_length (inodes t ! v)"
    and x: "char_at (txt t) (start (inodes t ! v) + active_length t) = Some x"
  shows "pos G t v < length (leaves t)"
    and "eqsub (txt t) (pos G t v) (length (leaves t)) (k - length (leaves t))"
    and "txt t ! (pos G t v + (k - length (leaves t))) = x"
    and "k - length (leaves t) < dep G v"
    and "unat (start (inodes t ! v) + active_length t) = pos G t v + (k - length (leaves t))"
    and "active_length t \<noteq> 0 \<Longrightarrow> p + (k - length (leaves t)) < k \<Longrightarrow>
          eqsub (txt t) p (length (leaves t)) (k - length (leaves t)) \<Longrightarrow>
          txt t ! (p + (k - length (leaves t))) = x"
    and "active_length t = 0 \<Longrightarrow> x = c"
proof -
  let ?an = "active_node t" and ?L = "length (leaves t)"
  note L = INV_L [OF inv r] and d = INV_D [OF inv]
  have sh: "shape G k t" by (rule d(1))
  have an: "?an < length (inodes t)" by (rule L(8))
  note b = shape_bounds [OF sh]
  have c': "c = txt t ! (?L + dep G ?an)" using c ae by (simp add: char_at_Some)
  note ch = shape_ichildD [OF sh an icv]
  note nd = shape_nodeD [OF sh ch(5) ch(1)]
  note el = edge_length_unat [OF sh ch(5) ch(1)]
  have lt: "unat (active_length t) < unat (edge_length (inodes t ! v))"
    using len by (simp add: word_less_nat_alt)
  have dv: "dep G v = dep G ?an + unat (edge_length (inodes t ! v))" using el(2) ch(2) by simp
  show kd: "k - ?L < dep G v" using dv lt L(3) by linarith
  have pv: "pos G t v + dep G v = En t v" using nd(6) by (simp add: pos_def)
  show pL: "pos G t v < ?L" using pv nd(4) kd L(1) by linarith
  have st: "St t v = pos G t v + dep G ?an" using shape_St [OF sh ch(5) ch(1)] ch(2) by simp
  have sum: "St t v + unat (active_length t) = pos G t v + (k - ?L)"
    unfolding st using L(3) by linarith
  show u: "unat (start (inodes t ! v) + active_length t) = pos G t v + (k - ?L)"
  proof -
    have "St t v + unat (active_length t) < 2 ^ 32" unfolding sum using pL L(1) b(1,2) by linarith
    from unat_add_nowrap [OF this] sum show ?thesis by simp
  qed
  show xx: "txt t ! (pos G t v + (k - ?L)) = x" using x unfolding char_at_Some u by simp
  have towards: "eqsub (txt t) p (pos G t v) (dep G v)"
    if "p < ?L" "eqsub (txt t) p ?L m" "dep G ?an < m" for p m
  proof -
    have "ic t ?an (txt t ! (?L + dep G ?an)) = Some v" using icv unfolding c' .
    from edge_towards(2) [OF sh an that(1,2) L(4) that(3) this] show ?thesis by simp
  qed
  show "eqsub (txt t) (pos G t v) ?L (k - ?L)"
  proof (cases "active_length t = 0")
    case True
    then have dk: "dep G ?an = k - ?L" using L(3) by simp
    have "eqsub (txt t) (pos G t v) (pos G t ?an) (dep G ?an)" using nd(7) unfolding ch(2) .
    moreover have "eqsub (txt t) (pos G t ?an) ?L (dep G ?an)" using L(4) by (rule eqsub_sym)
    ultimately show ?thesis unfolding dk by (rule eqsub_trans)
  next
    case False
    then have "0 < unat (active_length t)" by (simp add: unat_gt_0)
    with L(3) have Lk: "?L < k" and dd: "dep G ?an < k - ?L" by linarith+
    from L(6) [OF Lk] obtain i where i: "i < ?L" "eqsub (txt t) i ?L (k - ?L)" by blast
    have "eqsub (txt t) i (pos G t v) (k - ?L)"
      using towards [OF i dd] kd by (auto intro: eqsub_mono)
    then have "eqsub (txt t) (pos G t v) i (k - ?L)" by (rule eqsub_sym)
    then show ?thesis using i(2) by (rule eqsub_trans)
  qed
  show "txt t ! (p + (k - ?L)) = x" if "active_length t \<noteq> 0" "p + (k - ?L) < k"
    "eqsub (txt t) p ?L (k - ?L)" for p
  proof -
    from that(1) have "0 < unat (active_length t)" by (simp add: unat_gt_0)
    with L(3) have dd: "dep G ?an < k - ?L" by linarith
    have "p < ?L" using that(2) L(1) by linarith
    from towards [OF this that(3) dd] kd have "txt t ! (p + (k - ?L)) = txt t ! (pos G t v + (k - ?L))"
      by (rule eqsub_nth)
    then show ?thesis unfolding xx .
  qed
  show "x = c" if "active_length t = 0"
  proof -
    have "x = txt t ! St t v" using x that by (simp add: char_at_Some)
    with ch(3) show ?thesis by simp
  qed
qed

subsection \<open>Rule 3\<close>

lemma step_rule_3:
  assumes inv: "INV G k t" and r: "remainder t \<noteq> 0" and kw: "unat kw = k"
    and kT: "k < length (txt t)"
    and ae: "unat (active_edge t) = length (leaves t) + dep G (active_node t)"
    and q: "q < length (leaves t)" "eqsub (txt t) q (length (leaves t)) (k - length (leaves t))"
      "txt t ! (q + (k - length (leaves t))) = x"
    and all: "\<And>p. active_length t \<noteq> 0 \<Longrightarrow> p + (k - length (leaves t)) < k \<Longrightarrow>
          eqsub (txt t) p (length (leaves t)) (k - length (leaves t)) \<Longrightarrow>
          txt t ! (p + (k - length (leaves t))) = x"
    and y: "char_at (txt t) kw = Some x"
    and t': "t' = add_links (active_node t) (t\<lparr>active_length := active_length t + 1\<rparr>)"
  shows "PH G (Suc k) (t'\<lparr>global_end := global_end t' + 1\<rparr>)"
proof -
  let ?an = "active_node t" and ?L = "length (leaves t)"
  let ?t1 = "t\<lparr>active_length := active_length t + 1\<rparr>"
  let ?tf = "t'\<lparr>global_end := global_end t' + 1\<rparr>"
  let ?t = "?tf\<lparr>need_link := None, remainder := remainder ?tf + 1\<rparr>"
  note L = INV_L [OF inv r] and d = INV_D [OF inv]
  have sh: "shape G k t" by (rule d(1))
  have wf: "tree_wf t" using sh by (rule shape_wf)
  have an: "?an < length (inodes t)" by (rule L(8))
  note b = shape_bounds [OF sh]
  have xk: "x = txt t ! k" using y kw by (simp add: char_at_Some)
  have sh1: "shape G k ?t1" using sh by (rule shape_fields)
  have wf1: "tree_wf ?t1" using wf by simp
  have sh3: "shape G k t'" unfolding t' using sh1 by (rule shape_add_links) (simp add: an)
  have wf3: "tree_wf t'" using sh3 by (rule shape_wf)
  have f: "txt ?t = txt t" "leaves ?t = leaves t" "need_link ?t = None"
    "remainder ?t = remainder t + 1" "active_node ?t = ?an"
    "active_length ?t = active_length t + 1" "active_edge ?t = active_edge t"
    "inodes ?t = inodes t'" "length (inodes t') = length (inodes t)"
    unfolding t' by simp_all
  have ps: "pos G ?t = pos G t" unfolding t' by (simp add: fun_eq_iff)
  have ur: "unat (remainder t + 1) = Suc (unat (remainder t))"
    using unat_Suc_nowrap [of "remainder t" "length (txt t)"] L(10) q(1) kT b(2) by simp
  have ual: "unat (active_length t + 1) = Suc (unat (active_length t))"
    using unat_Suc_nowrap [of "active_length t" "length (txt t)"] L(3) kT b(2) by simp
  have al0: "active_length t = 0" if nl: "need_link t = Some v0" for v0
  proof (rule ccontr)
    assume a: "active_length t \<noteq> 0"
    from pending_okD(6) [OF L(9) nl a] obtain p where p: "p + (k - ?L) < k"
      "eqsub (txt t) p ?L (k - ?L)" "txt t ! (p + (k - ?L)) \<noteq> txt t ! k"
      unfolding NB_def by blast
    from all [OF a p(1,2)] p(3) xk show False by simp
  qed
  have ls3: "links_sem G t'"
    unfolding t'
  proof (rule links_sem_add_links)
    show "links_sem G ?t1" using d(8) by simp
    show "tree_wf ?t1" by (rule wf1)
    show "?an < length (inodes ?t1)" using an by simp
    fix v0 assume "need_link ?t1 = Some v0"
    then have nl: "need_link t = Some v0" by simp
    have dk: "dep G ?an = k - ?L" using L(3) al0 [OF nl] by simp
    have e: "eqsub (txt t) ?L (pos G t ?an) (k - ?L)" using L(4) unfolding dk .
    note p = pending_target [OF L(9) nl e]
    have "\<forall>u. suffix_link (inodes t ! v0) = Some u \<longrightarrow> u = ?an"
      using pending_okD(5) [OF L(9) nl] by blast
    then show "v0 \<noteq> 0 \<and> dep G v0 = Suc (dep G ?an) \<and>
        eqsub (txt ?t1) (Suc (pos G ?t1 v0)) (pos G ?t1 ?an) (dep G ?an) \<and>
        (\<forall>u. suffix_link (inodes ?t1 ! v0) = Some u \<longrightarrow> u = ?an)"
      using p dk by simp
  qed
  have linked: "suffix_link (inodes t' ! v) \<noteq> None" if "v < length (inodes t)" "v \<noteq> 0" for v
    unfolding t' using d(9) that by (rule linked_after_add_links) (simp_all add: that)
  have inv': "INV G (Suc k) ?t"
  proof (rule INV_I)
    show "shape G (Suc k) ?t"
      using sh3
    proof (rule shape_mono)
      show "tree_wf ?t" using wf3 by (simp add: tree_wf_def)
      show "k < length (txt t')" using kT unfolding t' by simp
    qed simp_all
    show "remainder ?t \<noteq> 0" unfolding f using ur by (auto simp: unat_eq_0_iff [symmetric])
    show "unat (remainder ?t) + length (leaves ?t) = Suc (Suc k)" unfolding f ur using L(10) by simp
    show "dep G (active_node ?t) + unat (active_length ?t) + length (leaves ?t) = Suc k"
      unfolding f ual using L(3) by simp
    show "eqsub (txt ?t) (length (leaves ?t)) (pos G ?t (active_node ?t)) (dep G (active_node ?t))"
      unfolding f ps by (rule L(4))
    show "unat (active_edge ?t) = length (leaves ?t) + dep G (active_node ?t)"
      unfolding f by (rule ae)
    show "\<exists>i<length (leaves ?t). eqsub (txt ?t) i (length (leaves ?t)) (Suc k - length (leaves ?t))"
      unfolding f
    proof (intro exI conjI)
      show "q < ?L" by (rule q(1))
      have "txt t ! (q + (k - ?L)) = txt t ! (?L + (k - ?L))" using q(3) xk L(1) by simp
      with q(2) have "eqsub (txt t) q ?L (Suc (k - ?L))" by (rule eqsub_Suc)
      then show "eqsub (txt t) q ?L (Suc k - ?L)" using L(1) by (simp add: Suc_diff_le)
    qed
    show "links_sem G ?t" using ls3 by simp
    show "links_all ?t" unfolding links_all_def f using linked by simp
    show "pending_ok G (Suc k) (length (leaves ?t)) ?t" unfolding pending_ok_def f by simp
  qed
  have "unat (remainder ?tf) \<le> Suc k" unfolding t' using L(10) by simp
  moreover have "\<forall>l<length (leaves ?tf). Ls ?tf l < Suc k"
  proof (intro allI impI)
    fix l assume "l < length (leaves ?tf)"
    then have l: "l < ?L" unfolding t' by simp
    from shape_leafD(3,4) [OF sh l] show "Ls ?tf l < Suc k" unfolding t' by simp
  qed
  ultimately show ?thesis unfolding PH_def using inv' by blast
qed

subsection \<open>The shape after a leaf edge is split\<close>

lemma shape_split_leaf_pre:
  assumes sh: "shape G k t"
    and lcl: "lc t (active_node t) c = Some l"
    and m: "0 < unat (active_length t)"
    and dm: "dep G (active_node t) + unat (active_length t) + length (leaves t) = k"
    and eL: "eqsub (txt t) (length (leaves t)) l (k - length (leaves t))"
    and ck: "ck = txt t ! k" and cn: "cn = txt t ! (l + (k - length (leaves t)))"
    and ne: "ck \<noteq> cn" and kw: "unat kw = k"
  shows "shape (G\<lparr>dep := (dep G)(length (inodes t) := k - length (leaves t)),
                  par := (par G)(length (inodes t) := active_node t),
                  lpar := (lpar G)(l := length (inodes t), length (leaves t) := length (inodes t))\<rparr>)
           k (split_leaf_pre kw c l ck cn t)"
proof -
  let ?an = "active_node t" and ?L = "length (leaves t)" and ?N = "length (inodes t)"
  let ?m = "unat (active_length t)"
  let ?G = "G\<lparr>dep := (dep G)(?N := k - ?L), par := (par G)(?N := ?an),
               lpar := (lpar G)(l := ?N, ?L := ?N)\<rparr>"
  let ?t = "split_leaf_pre kw c l ck cn t"
  have wf: "tree_wf t" using sh by (rule shape_wf)
  have an: "?an < ?N" using wf by (rule tree_wf_active)
  have rt: "0 < ?N" using sh by (rule shape_root_lt)
  note b = shape_bounds [OF sh]
  note ch = shape_lchildD [OF sh an lcl]
  note lf = shape_leafD [OF sh ch(3)]
  have l: "l < ?L" by (rule ch(3))
  have lp: "lpar G l = ?an" by (rule ch(1))
  have ls: "Ls t l = l + dep G ?an" using lf(3) unfolding lp .
  have key: "txt t ! Ls t l = c" by (rule ch(2))
  have kL: "k - ?L = dep G ?an + ?m" and Lk: "?L \<le> k" using dm by linarith+
  have sum: "Ls t l + ?m = l + (k - ?L)" unfolding ls kL by simp
  have lt: "l + (k - ?L) < k" using l Lk by linarith
  have uen: "unat (start (leaves t ! l) + active_length t) = l + (k - ?L)"
  proof -
    have "Ls t l + ?m < 2 ^ 32" unfolding sum using lt b(1,2) by linarith
    from unat_add_nowrap [OF this] sum show ?thesis by simp
  qed
  note node = split_leaf_pre_node [OF an, of kw c l ck cn]
  note leaf = split_leaf_pre_leaf [OF l, of kw c ck cn]
  have st: "St ?t u = St t u" and en: "En ?t u = En t u" if "u < ?N" for u
    using that by (simp_all add: node)
  have icu: "ic ?t u = (if u = ?an then (ic t ?an)(c \<mapsto> ?N) else ic t u)"
    and lcu: "lc ?t u = (if u = ?an then (lc t ?an)(c := None) else lc t u)" if "u < ?N" for u
    using that by (simp_all add: node update_conv' delete_conv')
  have stN: "St ?t ?N = Ls t l" and enN: "En ?t ?N = l + (k - ?L)"
    and icN: "ic ?t ?N = Map.empty"
    and lcN: "lc ?t ?N = [ck \<mapsto> ?L, cn \<mapsto> l]"
    using an by (simp_all add: node new_inode_def uen update_conv' fun_eq_iff)
  have lsl: "Ls ?t l = l + (k - ?L)" and lsL: "Ls ?t ?L = k"
    using l kw by (simp_all add: leaf uen)
  have lso: "Ls ?t l' = Ls t l'" if "l' < ?L" "l' \<noteq> l" for l'
    using that by (simp add: leaf)
  have dp: "dep ?G u = dep G u" "par ?G u = par G u" if "u < ?N" for u
    using that by simp_all
  have dpN: "dep ?G ?N = k - ?L" "par ?G ?N = ?an" by simp_all
  have lpl: "lpar ?G l = ?N" "lpar ?G ?L = ?N" using l by simp_all
  have lpo: "lpar ?G l' = lpar G l'" if "l' < ?L" "l' \<noteq> l" for l'
    using that by simp
  have ps: "pos ?G ?t u = pos G t u" if "u < ?N" for u
    using that by (simp add: pos_def node)
  have psN: "pos ?G ?t ?N = l" unfolding pos_def enN dpN by simp
  have tx: "txt ?t = txt t" by simp
  have len: "length (inodes ?t) = Suc ?N" by simp
  have c1: "sh_root ?G ?t"
    using shape_root [OF sh] rt unfolding sh_root_def by (simp add: st en)
  have c2: "sh_node ?G k ?t v" if v: "v < Suc ?N" "v \<noteq> 0" for v
  proof (cases "v = ?N")
    case True
    have n1: "?an < Suc ?N" using an by simp
    have n2: "ic ?t ?an (txt t ! Ls t l) = Some ?N" unfolding icu [OF an] key by simp
    have n3: "Ls t l < l + (k - ?L)" using sum m by linarith
    have n4: "l + (k - ?L) \<le> k" using lt by simp
    have n5: "k - ?L = dep G ?an + (l + (k - ?L) - Ls t l)" using sum kL by linarith
    have n6: "k - ?L \<le> l + (k - ?L)" by simp
    have n7: "eqsub (txt t) l (pos G t ?an) (dep G ?an)" using lf(5) unfolding lp .
    show ?thesis
      unfolding True sh_node_def dpN stN enN psN tx dp [OF an] ps [OF an] len
      using n1 n2 n3 n4 n5 n6 n7 by blast
  next
    case False
    with v have v': "v < ?N" by simp
    note d = shape_nodeD [OF sh v' v(2)]
    have "ic ?t (par G v) (txt t ! St t v) = Some v"
    proof (cases "par G v = ?an")
      case True
      have "lc t ?an (txt t ! St t v) = None"
        using shape_ichildD(4) [OF sh an] d(2) unfolding True by blast
      with lcl have "txt t ! St t v \<noteq> c" by auto
      with d(2) show ?thesis unfolding True icu [OF an] by simp
    next
      case False
      with d(2) show ?thesis unfolding icu [OF d(1)] by simp
    qed
    with d show ?thesis
      unfolding sh_node_def dp [OF v'] dp [OF d(1)] st [OF v'] en [OF v'] ps [OF v'] ps [OF d(1)] tx
      by simp
  qed
  have c3: "sh_ichild ?G ?t u" if u: "u < Suc ?N" for u
    unfolding sh_ichild_def
  proof (intro allI impI)
    fix c' v assume a: "ic ?t u c' = Some v"
    have u': "u < ?N" using a icN u by (cases "u = ?N") simp_all
    show "v \<noteq> 0 \<and> par ?G v = u \<and> txt ?t ! St ?t v = c' \<and> lc ?t u c' = None"
    proof (cases "u = ?an \<and> c' = c")
      case True
      with a have "v = ?N" unfolding icu [OF u'] by simp
      with True rt key show ?thesis unfolding lcu [OF u'] by (simp add: stN)
    next
      case False
      with a have o: "ic t u c' = Some v" unfolding icu [OF u'] by (auto split: if_splits)
      note d = shape_ichildD [OF sh u' o]
      have "lc ?t u c' = None" using d(4) unfolding lcu [OF u'] by auto
      with d show ?thesis unfolding dp [OF d(5)] st [OF d(5)] tx by simp
    qed
  qed
  have c4: "sh_lchild ?G ?t u" if u: "u < Suc ?N" for u
    unfolding sh_lchild_def
  proof (intro allI impI)
    fix c' l' assume a: "lc ?t u c' = Some l'"
    show "lpar ?G l' = u \<and> txt ?t ! Ls ?t l' = c'"
    proof (cases "u = ?N")
      case True
      from a consider "c' = cn" "l' = l" | "c' = ck" "l' = ?L"
        unfolding True lcN by (auto split: if_splits)
      then show ?thesis
      proof cases
        case 1
        show ?thesis unfolding True 1 lpl lsl tx using cn by simp
      next
        case 2
        show ?thesis unfolding True 2 lpl lsL tx using ck by simp
      qed
    next
      case False
      with u have u': "u < ?N" by simp
      from a have o: "lc t u c' = Some l'" and cc: "u = ?an \<longrightarrow> c' \<noteq> c"
        unfolding lcu [OF u'] by (auto split: if_splits)
      note d = shape_lchildD [OF sh u' o]
      have "l' \<noteq> l"
      proof
        assume "l' = l"
        with d(1,2) lp key cc show False by simp
      qed
      with d show ?thesis unfolding tx by (simp add: lpo lso)
    qed
  qed
  have c5: "sh_leaf ?G k ?t l'" if l': "l' < Suc ?L" for l'
  proof -
    consider "l' = ?L" | "l' = l" | "l' < ?L" "l' \<noteq> l" using l' by linarith
    then show ?thesis
    proof cases
      case 1
      have "lc ?t ?N (txt t ! k) = Some ?L" unfolding lcN using ne ck by simp
      then show ?thesis
        unfolding 1 sh_leaf_def lpl lsL tx dpN psN using eL Lk by simp
    next
      case 2
      have "lc ?t ?N (txt t ! (l + (k - ?L))) = Some l" unfolding lcN using cn by simp
      then show ?thesis
        unfolding 2 sh_leaf_def lpl lsl tx dpN psN using lt by simp
    next
      case 3
      note d = shape_leafD [OF sh 3(1)]
      have d2: "lc t (lpar G l') (txt t ! Ls t l') = Some l'" using d(2) unfolding d(3) .
      have "lc ?t (lpar G l') (txt t ! Ls t l') = Some l'"
      proof (cases "lpar G l' = ?an")
        case True
        have "txt t ! Ls t l' \<noteq> c" using d2 lcl 3(2) unfolding True by auto
        with d2 show ?thesis unfolding True lcu [OF an] by simp
      next
        case False
        with d2 show ?thesis unfolding lcu [OF d(1)] by simp
      qed
      with d(1,3,4,5) show ?thesis
        unfolding sh_leaf_def lpo [OF 3] lso [OF 3] tx dp [OF d(1)] ps [OF d(1)] by simp
    qed
  qed
  have "tree_wf ?t" using wf l by (rule wf_split_leaf_pre)
  then show ?thesis
    unfolding shape_def using b(1,2,3) c1 c2 c3 c4 c5 by simp
qed

subsection \<open>Rule 2a on a leaf edge\<close>

lemma step_split_leaf:
  assumes inv: "INV G k t" and r: "remainder t \<noteq> 0" and kw: "unat kw = k"
    and ae: "unat (active_edge t) = length (leaves t) + dep G (active_node t)"
    and c: "char_at (txt t) (active_edge t) = Some c"
    and lcl: "lc t (active_node t) c = Some l"
    and x: "char_at (txt t) (start (leaves t ! l) + active_length t) = Some x"
    and y: "char_at (txt t) kw = Some y" and xy: "x \<noteq> y"
    and sp: "split_leaf kw c l t = Some t'"
  shows "\<exists>G'. INV G' k (next_suffix kw t')"
proof -
  let ?an = "active_node t" and ?L = "length (leaves t)" and ?N = "length (inodes t)"
  let ?G = "G\<lparr>dep := (dep G)(?N := k - ?L), par := (par G)(?N := ?an),
               lpar := (lpar G)(l := ?N, ?L := ?N)\<rparr>"
  note L = INV_L [OF inv r] and d = INV_D [OF inv]
  have sh: "shape G k t" by (rule d(1))
  have wf: "tree_wf t" using sh by (rule shape_wf)
  have an: "?an < ?N" by (rule L(8))
  note lo = locus_leaf [OF inv r ae c lcl x]
  have yk: "y = txt t ! k" using y kw by (simp add: char_at_Some)
  have c': "c = txt t ! (?L + dep G ?an)" using c ae by (simp add: char_at_Some)
  have al0: "active_length t \<noteq> 0"
  proof
    assume a: "active_length t = 0"
    then have "?L + dep G ?an = k" using L(3) by simp
    with lo(8) [OF a] c' yk xy show False by simp
  qed
  then have m: "0 < unat (active_length t)" by (simp add: unat_gt_0)
  from sp an obtain ck cn where ck: "char_at (txt t) kw = Some ck"
    and cn: "char_at (txt t) (start (leaves t ! l) + active_length t) = Some cn"
    and t': "t' = add_links ?N (split_leaf_pre kw c l ck cn t)"
    by (rule split_leaf_eq)
  let ?t2 = "split_leaf_pre kw c l ck cn t"
  have ck': "ck = txt t ! k" using ck y yk by simp
  have cn': "cn = txt t ! (l + (k - ?L))" using cn x lo(3) by simp
  have ne: "ck \<noteq> cn" using ck y cn x xy by simp
  have eL: "eqsub (txt t) ?L l (k - ?L)" using lo(2) by (rule eqsub_sym)
  have sh2: "shape ?G k ?t2" using sh lcl m L(3) eL ck' cn' ne kw by (rule shape_split_leaf_pre)
  have wf2: "tree_wf ?t2" using sh2 by (rule shape_wf)
  have sh3: "shape ?G k t'" unfolding t' using sh2 by (rule shape_add_links) simp
  note node = split_leaf_pre_node [OF an, of kw c l ck cn]
  have nd: "suffix_link (inodes ?t2 ! u) = suffix_link (inodes t ! u)"
    "weiner_links (inodes ?t2 ! u) = weiner_links (inodes t ! u)"
    "end_idx (inodes ?t2 ! u) = end_idx (inodes t ! u)" if "u < ?N" for u
    using that by (simp_all add: node)
  have ndN: "suffix_link (inodes ?t2 ! ?N) = None" "weiner_links (inodes ?t2 ! ?N) = []"
    "En ?t2 ?N = l + (k - ?L)"
    using an lo(6) by (simp_all add: node new_inode_def)
  have ps: "pos ?G ?t2 u = pos G t u" if "u < ?N" for u
    using that by (simp add: pos_def nd)
  have psN: "pos ?G ?t2 ?N = l" unfolding pos_def ndN by simp
  have dp: "dep ?G u = dep G u" if "u < ?N" for u using that by simp
  have dpN: "dep ?G ?N = k - ?L" by simp
  have ls2: "links_sem ?G ?t2"
    using d(8) wf
  proof (rule links_sem_ext)
    show "length (inodes ?t2) = ?N \<or> length (inodes ?t2) = Suc ?N \<and>
        suffix_link (inodes ?t2 ! ?N) = None \<and> weiner_links (inodes ?t2 ! ?N) = []"
      using ndN by simp
  qed (simp_all add: nd)
  have nlt: "v0 < ?N" if "need_link t = Some v0" for v0
    using wf that by (simp add: tree_wf_def)
  have ls3: "links_sem ?G t'"
    unfolding t' using ls2 wf2
  proof (rule links_sem_add_links)
    show "?N < length (inodes ?t2)" by simp
    fix v0 assume "need_link ?t2 = Some v0"
    then have nl: "need_link t = Some v0" by simp
    note v0 = nlt [OF nl]
    note p = pending_target [OF L(9) nl eL]
    have "suffix_link (inodes t ! v0) = None"
    proof (cases "suffix_link (inodes t ! v0)")
      case (Some u)
      from pending_okD(5) [OF L(9) nl this] al0 show ?thesis by simp
    qed simp
    then show "v0 \<noteq> 0 \<and> dep ?G v0 = Suc (dep ?G ?N) \<and>
        eqsub (txt ?t2) (Suc (pos ?G ?t2 v0)) (pos ?G ?t2 ?N) (dep ?G ?N) \<and>
        (\<forall>u. suffix_link (inodes ?t2 ! v0) = Some u \<longrightarrow> u = ?N)"
      unfolding ps [OF v0] psN dp [OF v0] dpN nd [OF v0] using p by simp
  qed
  have linked: "suffix_link (inodes t' ! v) \<noteq> None" if "v < ?N" "v \<noteq> 0" for v
    unfolding t' using d(9) that by (rule linked_after_add_links) (simp_all add: that nd less_SucI)
  have slN: "suffix_link (inodes t' ! ?N) = None"
  proof -
    have "need_link ?t2 \<noteq> Some ?N" using nlt [of ?N] by auto
    then show ?thesis unfolding t' using ndN(1) by (simp add: add_links_suffix_link)
  qed
  have pst: "pos ?G t' = pos ?G ?t2" unfolding t' by (simp add: fun_eq_iff)
  have "INV ?G k (next_suffix kw t')"
    using sh3 kw
  proof (rule step_next_suffix [where L = ?L and M = ?N])
    show "length (leaves t') = Suc ?L" unfolding t' by simp
    show "unat (remainder t') + ?L = Suc k" unfolding t' using L(10) by simp
    show "dep ?G (active_node t') + unat (active_length t') + ?L = k"
      unfolding t' using L(3) an by simp
    show "eqsub (txt t') ?L (pos ?G t' (active_node t')) (dep ?G (active_node t'))"
      unfolding pst unfolding t' using L(4) an by (simp add: ps)
    show "unat (active_edge t') = ?L + dep ?G (active_node t')"
      unfolding t' using ae an by simp
    show "?L < k \<Longrightarrow> \<exists>i<?L. eqsub (txt t') i ?L (k - ?L)" unfolding t' using L(6) by simp
    show "links_sem ?G t'" by (rule ls3)
    show "need_link t' = Some ?N" unfolding t' by simp
    show "?N < length (inodes t')" unfolding t' by simp
    show "dep ?G ?N = k - ?L" by simp
    show "eqsub (txt t') ?L (pos ?G t' ?N) (dep ?G ?N)"
      unfolding pst psN dpN unfolding t' using eL by simp
    show "v = ?N" if "v < length (inodes t')" "v \<noteq> 0" "suffix_link (inodes t' ! v) = None" for v
    proof (rule ccontr)
      assume "v \<noteq> ?N"
      with that(1) have "v < ?N" unfolding t' by simp
      from linked [OF this that(2)] that(3) show False by simp
    qed
    show "suffix_link (inodes t' ! ?N) = None" by (rule slN)
    show "active_length t' = 0" if "?N = active_node t'"
      using that an unfolding t' by simp
    show "suffix_link (inodes t' ! active_node t') \<noteq> None" if "active_node t' \<noteq> 0"
    proof -
      have "active_node t' = ?an" unfolding t' by simp
      with that linked [OF an] show ?thesis by simp
    qed
    show "NB (txt t') ?L k"
    proof -
      have "l + (k - ?L) < k" using lo(1) L(1) by linarith
      moreover have "txt t ! (l + (k - ?L)) \<noteq> txt t ! k" using lo(3) xy yk by simp
      ultimately have "NB (txt t) ?L k" unfolding NB_def using lo(2) by blast
      then show ?thesis unfolding t' by simp
    qed
  qed
  then show ?thesis by blast
qed

subsection \<open>The shape after an internal edge is split\<close>

lemma shape_split_internal_pre:
  assumes sh: "shape G k t"
    and icv: "ic t (active_node t) c = Some v"
    and m: "0 < unat (active_length t)"
    and dm: "dep G (active_node t) + unat (active_length t) + length (leaves t) = k"
    and kd: "k - length (leaves t) < dep G v"
    and eL: "eqsub (txt t) (length (leaves t)) (pos G t v) (k - length (leaves t))"
    and ck: "ck = txt t ! k" and cn: "cn = txt t ! (pos G t v + (k - length (leaves t)))"
    and ne: "ck \<noteq> cn" and kw: "unat kw = k"
  shows "shape (G\<lparr>dep := (dep G)(length (inodes t) := k - length (leaves t)),
                  par := (par G)(length (inodes t) := active_node t, v := length (inodes t)),
                  lpar := (lpar G)(length (leaves t) := length (inodes t))\<rparr>)
           k (split_internal_pre kw c v ck cn t)"
proof -
  let ?an = "active_node t" and ?L = "length (leaves t)" and ?N = "length (inodes t)"
  let ?m = "unat (active_length t)"
  let ?G = "G\<lparr>dep := (dep G)(?N := k - ?L), par := (par G)(?N := ?an, v := ?N),
               lpar := (lpar G)(?L := ?N)\<rparr>"
  let ?t = "split_internal_pre kw c v ck cn t"
  let ?p = "pos G t v"
  have wf: "tree_wf t" using sh by (rule shape_wf)
  have an: "?an < ?N" using wf by (rule tree_wf_active)
  have rt: "0 < ?N" using sh by (rule shape_root_lt)
  note b = shape_bounds [OF sh]
  note ch = shape_ichildD [OF sh an icv]
  have v: "v < ?N" and v0: "v \<noteq> 0" and pv: "par G v = ?an" by (rule ch)+
  note nv = shape_nodeD [OF sh v v0]
  have key: "txt t ! St t v = c" by (rule ch(3))
  have vne: "v \<noteq> ?an" using shape_dep_par [OF sh v v0] pv by auto
  have kL: "k - ?L = dep G ?an + ?m" and Lk: "?L \<le> k" using dm by linarith+
  have pe: "?p + dep G v = En t v" using nv(6) by (simp add: pos_def)
  have stv: "St t v = ?p + dep G ?an" using shape_St [OF sh v v0] pv by simp
  have sum: "St t v + ?m = ?p + (k - ?L)" unfolding stv kL by simp
  have lt: "?p + (k - ?L) < En t v" using pe kd by linarith
  have ltk: "?p + (k - ?L) < k" using lt nv(4) by linarith
  have uen: "unat (start (inodes t ! v) + active_length t) = ?p + (k - ?L)"
  proof -
    have "St t v + ?m < 2 ^ 32" unfolding sum using ltk b(1,2) by linarith
    from unat_add_nowrap [OF this] sum show ?thesis by simp
  qed
  note node = split_internal_pre_node [OF an v vne, of kw c ck cn]
  have st: "St ?t u = St t u" if "u < ?N" "u \<noteq> v" for u
    using that by (simp add: node)
  have stv': "St ?t v = ?p + (k - ?L)" using v vne uen by (simp add: node)
  have en: "En ?t u = En t u" if "u < ?N" for u
    using that by (simp add: node)
  have icu: "ic ?t u = (if u = ?an then (ic t ?an)(c \<mapsto> ?N) else ic t u)"
    and lcu: "lc ?t u = lc t u" if "u < ?N" for u
    using that by (simp_all add: node update_conv')
  have stN: "St ?t ?N = St t v" and enN: "En ?t ?N = ?p + (k - ?L)"
    and icN: "ic ?t ?N = [cn \<mapsto> v]"
    and lcN: "lc ?t ?N = [ck \<mapsto> ?L]"
    using an v vne by (simp_all add: node new_inode_def uen update_conv' fun_eq_iff)
  have lsL: "Ls ?t ?L = k" using kw by simp
  have lso: "Ls ?t l' = Ls t l'" if "l' < ?L" for l'
    using that by (simp add: nth_append)
  have dp: "dep ?G u = dep G u" if "u < ?N" for u using that by simp
  have pr: "par ?G u = par G u" if "u < ?N" "u \<noteq> v" for u using that by simp
  have dpN: "dep ?G ?N = k - ?L" by simp
  have prN: "par ?G ?N = ?an" "par ?G v = ?N" using v by simp_all
  have lpL: "lpar ?G ?L = ?N" by simp
  have lpo: "lpar ?G l' = lpar G l'" if "l' < ?L" for l' using that by simp
  have ps: "pos ?G ?t u = pos G t u" if "u < ?N" for u
    using that by (simp add: pos_def node)
  have psN: "pos ?G ?t ?N = ?p" unfolding pos_def enN dpN by simp
  have tx: "txt ?t = txt t" by simp
  have len: "length (inodes ?t) = Suc ?N" by simp
  have lenl: "length (leaves ?t) = Suc ?L" by simp
  have c1: "sh_root ?G ?t"
  proof -
    have "St ?t 0 = St t 0" using rt v0 by (simp add: st)
    moreover have "par ?G 0 = par G 0" using rt v0 by (simp add: pr)
    ultimately show ?thesis
      using shape_root [OF sh] rt unfolding sh_root_def by (simp add: en dp)
  qed
  have c2: "sh_node ?G k ?t w" if w: "w < Suc ?N" "w \<noteq> 0" for w
  proof -
    consider "w = ?N" | "w = v" | "w < ?N" "w \<noteq> v" using w by linarith
    then show ?thesis
    proof cases
      case 1
      have n1: "?an < Suc ?N" using an by simp
      have n2: "ic ?t ?an (txt t ! St t v) = Some ?N" unfolding icu [OF an] key by simp
      have n3: "St t v < ?p + (k - ?L)" using sum m by linarith
      have n4: "?p + (k - ?L) \<le> k" using ltk by simp
      have n5: "k - ?L = dep G ?an + (?p + (k - ?L) - St t v)" using sum kL by linarith
      have n6: "k - ?L \<le> ?p + (k - ?L)" by simp
      have n7: "eqsub (txt t) ?p (pos G t ?an) (dep G ?an)" using nv(7) unfolding pv .
      show ?thesis
        unfolding 1 sh_node_def dpN prN stN enN psN tx dp [OF an] ps [OF an] len
        using n1 n2 n3 n4 n5 n6 n7 by blast
    next
      case 2
      have n1: "?N < Suc ?N" by simp
      have n2: "ic ?t ?N (txt t ! (?p + (k - ?L))) = Some v" unfolding icN using cn by simp
      have n3: "?p + (k - ?L) < En t v" by (rule lt)
      have n4: "En t v \<le> k" by (rule nv(4))
      have n5: "dep G v = k - ?L + (En t v - (?p + (k - ?L)))" using pe kd by linarith
      have n6: "dep G v \<le> En t v" by (rule nv(6))
      have n7: "eqsub (txt t) ?p ?p (k - ?L)" by simp
      show ?thesis
        unfolding 2 sh_node_def dpN prN stv' en [OF v] psN tx dp [OF v] ps [OF v] len
        using n1 n2 n3 n4 n5 n6 n7 by blast
    next
      case 3
      note d = shape_nodeD [OF sh 3(1) w(2)]
      have n2: "ic ?t (par G w) (txt t ! St t w) = Some w"
      proof (cases "par G w = ?an")
        case True
        have "txt t ! St t w \<noteq> c" using d(2) icv 3(2) unfolding True by auto
        with d(2) show ?thesis unfolding True icu [OF an] by simp
      next
        case False
        with d(2) show ?thesis unfolding icu [OF d(1)] by simp
      qed
      have n1: "par G w < Suc ?N" using d(1) by simp
      show ?thesis
        unfolding sh_node_def pr [OF 3] dp [OF 3(1)] dp [OF d(1)] st [OF 3] en [OF 3(1)]
          ps [OF 3(1)] ps [OF d(1)] tx len
        using n1 n2 d(3-7) by blast
    qed
  qed
  have c3: "sh_ichild ?G ?t u" if u: "u < Suc ?N" for u
    unfolding sh_ichild_def
  proof (intro allI impI)
    fix c' w assume a: "ic ?t u c' = Some w"
    show "w \<noteq> 0 \<and> par ?G w = u \<and> txt ?t ! St ?t w = c' \<and> lc ?t u c' = None"
    proof (cases "u = ?N")
      case True
      from a have e: "c' = cn" "w = v" unfolding True icN by (auto split: if_splits)
      have "lc ?t ?N cn = None" unfolding lcN using ne by simp
      then show ?thesis unfolding True e prN stv' tx using v0 cn by simp
    next
      case False
      with u have u': "u < ?N" by simp
      show ?thesis
      proof (cases "u = ?an \<and> c' = c")
        case True
        with a have e: "w = ?N" unfolding icu [OF u'] by simp
        have "lc ?t ?an c = None" unfolding lcu [OF an] by (rule ch(4))
        then show ?thesis using True rt key unfolding e prN stN tx by simp
      next
        case False
        with a have o: "ic t u c' = Some w" unfolding icu [OF u'] by (auto split: if_splits)
        note d = shape_ichildD [OF sh u' o]
        have wv: "w \<noteq> v"
        proof
          assume "w = v"
          with d(2,3) pv key False show False by simp
        qed
        show ?thesis
          unfolding pr [OF d(5) wv] st [OF d(5) wv] lcu [OF u'] tx using d(1-4) by blast
      qed
    qed
  qed
  have c4: "sh_lchild ?G ?t u" if u: "u < Suc ?N" for u
    unfolding sh_lchild_def
  proof (intro allI impI)
    fix c' l' assume a: "lc ?t u c' = Some l'"
    show "lpar ?G l' = u \<and> txt ?t ! Ls ?t l' = c'"
    proof (cases "u = ?N")
      case True
      from a have e: "c' = ck" "l' = ?L" unfolding True lcN by (auto split: if_splits)
      show ?thesis unfolding True e lpL lsL tx using ck by simp
    next
      case False
      with u have u': "u < ?N" by simp
      from a have o: "lc t u c' = Some l'" unfolding lcu [OF u'] .
      note d = shape_lchildD [OF sh u' o]
      show ?thesis unfolding lpo [OF d(3)] lso [OF d(3)] tx using d(1,2) by blast
    qed
  qed
  have c5: "sh_leaf ?G k ?t l'" if l': "l' < Suc ?L" for l'
  proof (cases "l' = ?L")
    case True
    have n1: "?N < Suc ?N" by simp
    have n2: "lc ?t ?N (txt t ! k) = Some ?L" unfolding lcN using ck by simp
    have n3: "k = ?L + (k - ?L)" using Lk by simp
    show ?thesis
      unfolding True sh_leaf_def lpL lsL tx dpN psN len
      using n1 n2 n3 eL by simp
  next
    case False
    with l' have l: "l' < ?L" by simp
    note d = shape_leafD [OF sh l]
    have d2: "lc t (lpar G l') (txt t ! Ls t l') = Some l'" using d(2) unfolding d(3) .
    have n1: "lpar G l' < Suc ?N" using d(1) by simp
    have n4: "Ls t l' \<le> k" using d(3,4) by simp
    show ?thesis
      unfolding sh_leaf_def lpo [OF l] lso [OF l] tx dp [OF d(1)] ps [OF d(1)] lcu [OF d(1)] len
      using n1 d2 d(3) n4 d(5) by blast
  qed
  have "tree_wf ?t" using wf v vne by (rule wf_split_internal_pre)
  then show ?thesis
    unfolding shape_def len lenl using b(1,2,3) c1 c2 c3 c4 c5 by simp
qed

subsection \<open>Rule 2a on an internal edge\<close>

lemma step_split_internal:
  assumes inv: "INV G k t" and r: "remainder t \<noteq> 0" and kw: "unat kw = k"
    and ae: "unat (active_edge t) = length (leaves t) + dep G (active_node t)"
    and c: "char_at (txt t) (active_edge t) = Some c"
    and icv: "ic t (active_node t) c = Some v"
    and len: "active_length t < edge_length (inodes t ! v)"
    and x: "char_at (txt t) (start (inodes t ! v) + active_length t) = Some x"
    and y: "char_at (txt t) kw = Some y" and xy: "x \<noteq> y"
    and sp: "split_internal kw c v t = Some t'"
  shows "\<exists>G'. INV G' k (next_suffix kw t')"
proof -
  let ?an = "active_node t" and ?L = "length (leaves t)" and ?N = "length (inodes t)"
  let ?G = "G\<lparr>dep := (dep G)(?N := k - ?L), par := (par G)(?N := ?an, v := ?N),
               lpar := (lpar G)(?L := ?N)\<rparr>"
  let ?p = "pos G t v"
  note L = INV_L [OF inv r] and d = INV_D [OF inv]
  have sh: "shape G k t" by (rule d(1))
  have wf: "tree_wf t" using sh by (rule shape_wf)
  have an: "?an < ?N" by (rule L(8))
  note lo = locus_internal [OF inv r ae c icv len x]
  note ch = shape_ichildD [OF sh an icv]
  have v: "v < ?N" by (rule ch(5))
  have vne: "v \<noteq> ?an" using shape_dep_par [OF sh v ch(1)] ch(2) by auto
  have yk: "y = txt t ! k" using y kw by (simp add: char_at_Some)
  have c': "c = txt t ! (?L + dep G ?an)" using c ae by (simp add: char_at_Some)
  have al0: "active_length t \<noteq> 0"
  proof
    assume a: "active_length t = 0"
    then have "?L + dep G ?an = k" using L(3) by simp
    with lo(7) [OF a] c' yk xy show False by simp
  qed
  then have m: "0 < unat (active_length t)" by (simp add: unat_gt_0)
  from sp an v obtain ck cn where ck: "char_at (txt t) kw = Some ck"
    and cn: "char_at (txt t) (start (inodes t ! v) + active_length t) = Some cn"
    and t': "t' = add_links ?N (split_internal_pre kw c v ck cn t)"
    by (rule split_internal_eq)
  let ?t2 = "split_internal_pre kw c v ck cn t"
  have ck': "ck = txt t ! k" using ck y yk by simp
  have cn': "cn = txt t ! (?p + (k - ?L))" using cn x lo(3) by simp
  have ne: "ck \<noteq> cn" using ck y cn x xy by simp
  have eL: "eqsub (txt t) ?L ?p (k - ?L)" using lo(2) by (rule eqsub_sym)
  have sh2: "shape ?G k ?t2"
    using sh icv m L(3) lo(4) eL ck' cn' ne kw by (rule shape_split_internal_pre)
  have wf2: "tree_wf ?t2" using sh2 by (rule shape_wf)
  have sh3: "shape ?G k t'" unfolding t' using sh2 by (rule shape_add_links) simp
  note node = split_internal_pre_node [OF an v vne, of kw c ck cn]
  have nd: "suffix_link (inodes ?t2 ! u) = suffix_link (inodes t ! u)"
    "weiner_links (inodes ?t2 ! u) = weiner_links (inodes t ! u)"
    "end_idx (inodes ?t2 ! u) = end_idx (inodes t ! u)" if "u < ?N" for u
    using that by (simp_all add: node)
  have ndN: "suffix_link (inodes ?t2 ! ?N) = None" "weiner_links (inodes ?t2 ! ?N) = []"
    "En ?t2 ?N = ?p + (k - ?L)"
    using an v vne lo(5) by (simp_all add: node new_inode_def)
  have ps: "pos ?G ?t2 u = pos G t u" if "u < ?N" for u
    using that by (simp add: pos_def nd)
  have psN: "pos ?G ?t2 ?N = ?p" unfolding pos_def ndN by simp
  have dp: "dep ?G u = dep G u" if "u < ?N" for u using that by simp
  have dpN: "dep ?G ?N = k - ?L" by simp
  have ls2: "links_sem ?G ?t2"
    using d(8) wf
  proof (rule links_sem_ext)
    show "length (inodes ?t2) = ?N \<or> length (inodes ?t2) = Suc ?N \<and>
        suffix_link (inodes ?t2 ! ?N) = None \<and> weiner_links (inodes ?t2 ! ?N) = []"
      using ndN by simp
  qed (simp_all add: nd)
  have nlt: "v0 < ?N" if "need_link t = Some v0" for v0
    using wf that by (simp add: tree_wf_def)
  have ls3: "links_sem ?G t'"
    unfolding t' using ls2 wf2
  proof (rule links_sem_add_links)
    show "?N < length (inodes ?t2)" by simp
    fix v0 assume "need_link ?t2 = Some v0"
    then have nl: "need_link t = Some v0" by simp
    note v0 = nlt [OF nl]
    note p = pending_target [OF L(9) nl eL]
    have "suffix_link (inodes t ! v0) = None"
    proof (cases "suffix_link (inodes t ! v0)")
      case (Some u)
      from pending_okD(5) [OF L(9) nl this] al0 show ?thesis by simp
    qed simp
    then show "v0 \<noteq> 0 \<and> dep ?G v0 = Suc (dep ?G ?N) \<and>
        eqsub (txt ?t2) (Suc (pos ?G ?t2 v0)) (pos ?G ?t2 ?N) (dep ?G ?N) \<and>
        (\<forall>u. suffix_link (inodes ?t2 ! v0) = Some u \<longrightarrow> u = ?N)"
      unfolding ps [OF v0] psN dp [OF v0] dpN nd [OF v0] using p by simp
  qed
  have linked: "suffix_link (inodes t' ! u) \<noteq> None" if "u < ?N" "u \<noteq> 0" for u
    unfolding t' using d(9) that by (rule linked_after_add_links) (simp_all add: that nd less_SucI)
  have slN: "suffix_link (inodes t' ! ?N) = None"
  proof -
    have "need_link ?t2 \<noteq> Some ?N" using nlt [of ?N] by auto
    then show ?thesis unfolding t' using ndN(1) by (simp add: add_links_suffix_link)
  qed
  have pst: "pos ?G t' = pos ?G ?t2" unfolding t' by (simp add: fun_eq_iff)
  have "INV ?G k (next_suffix kw t')"
    using sh3 kw
  proof (rule step_next_suffix [where L = ?L and M = ?N])
    show "length (leaves t') = Suc ?L" unfolding t' by simp
    show "unat (remainder t') + ?L = Suc k" unfolding t' using L(10) by simp
    show "dep ?G (active_node t') + unat (active_length t') + ?L = k"
      unfolding t' using L(3) an by simp
    show "eqsub (txt t') ?L (pos ?G t' (active_node t')) (dep ?G (active_node t'))"
      unfolding pst unfolding t' using L(4) an by (simp add: ps)
    show "unat (active_edge t') = ?L + dep ?G (active_node t')"
      unfolding t' using ae an by simp
    show "?L < k \<Longrightarrow> \<exists>i<?L. eqsub (txt t') i ?L (k - ?L)" unfolding t' using L(6) by simp
    show "links_sem ?G t'" by (rule ls3)
    show "need_link t' = Some ?N" unfolding t' by simp
    show "?N < length (inodes t')" unfolding t' by simp
    show "dep ?G ?N = k - ?L" by simp
    show "eqsub (txt t') ?L (pos ?G t' ?N) (dep ?G ?N)"
      unfolding pst psN dpN unfolding t' using eL by simp
    show "u = ?N" if "u < length (inodes t')" "u \<noteq> 0" "suffix_link (inodes t' ! u) = None" for u
    proof (rule ccontr)
      assume "u \<noteq> ?N"
      with that(1) have "u < ?N" unfolding t' by simp
      from linked [OF this that(2)] that(3) show False by simp
    qed
    show "suffix_link (inodes t' ! ?N) = None" by (rule slN)
    show "active_length t' = 0" if "?N = active_node t'"
      using that an unfolding t' by simp
    show "suffix_link (inodes t' ! active_node t') \<noteq> None" if "active_node t' \<noteq> 0"
    proof -
      have "active_node t' = ?an" unfolding t' by simp
      with that linked [OF an] show ?thesis by simp
    qed
    show "NB (txt t') ?L k"
    proof -
      have "?p + (k - ?L) < k" using lo(1) L(1) by linarith
      moreover have "txt t ! (?p + (k - ?L)) \<noteq> txt t ! k" using lo(3) xy yk by simp
      ultimately have "NB (txt t) ?L k" unfolding NB_def using lo(2) by blast
      then show ?thesis unfolding t' by simp
    qed
  qed
  then show ?thesis by blast
qed

subsection \<open>One iteration of the loop of extend\<close>

lemma step_Continue:
  assumes inv: "INV G k t0" and r: "remainder t0 \<noteq> 0" and kw: "unat kw = k"
    and body: "extend_body kw t0 = Continue t'"
  shows "\<exists>G'. INV G' k t'"
proof -
  define t where "t = (if active_length t0 = 0 then t0\<lparr>active_edge := kw\<rparr> else t0)"
  note p = prepared [OF inv r kw t_def]
  have ne: "Continue t' \<noteq> Abort" by simp
  from body ne t_def show ?thesis
  proof (cases rule: extend_body_cases)
    case (rule_2b c)
    from step_rule_2b [OF p(1,2) kw p(3) rule_2b(1,2,3)] rule_2b(4) show ?thesis by simp
  next
    case (walk_down c v)
    from step_walk_down [OF p(1,2) kw p(3) walk_down(1,3,4)] walk_down(5) show ?thesis by auto
  next
    case (split_leaf c l x y t'')
    from step_split_leaf [OF p(1,2) kw p(3) split_leaf(1,2,5,6,7,8)] split_leaf(9)
    show ?thesis by simp
  next
    case (split_internal c v x y t'')
    from step_split_internal [OF p(1,2) kw p(3) split_internal(1,3,4,5,6,7,8)] split_internal(9)
    show ?thesis by simp
  qed simp_all
qed

lemma step_Break:
  assumes inv: "INV G k t0" and r: "remainder t0 \<noteq> 0" and kw: "unat kw = k"
    and kT: "k < length (txt t0)"
    and body: "extend_body kw t0 = Break t'"
  shows "PH G (Suc k) (t'\<lparr>global_end := global_end t' + 1\<rparr>)"
proof -
  define t where "t = (if active_length t0 = 0 then t0\<lparr>active_edge := kw\<rparr> else t0)"
  note p = prepared [OF inv r kw t_def]
  have kT': "k < length (txt t)" using kT by (simp add: t_def)
  have ne: "Break t' \<noteq> Abort" by simp
  from body ne t_def show ?thesis
  proof (cases rule: extend_body_cases)
    case (rule_3_leaf c l x)
    note lo = locus_leaf [OF p(1,2,3) rule_3_leaf(1,2,5)]
    have t': "t' = add_links (active_node t) (t\<lparr>active_length := active_length t + 1\<rparr>)"
      using rule_3_leaf(7) by simp
    show ?thesis
      using p(1,2) kw kT' p(3) lo(1,2,3) _ rule_3_leaf(6) t'
    proof (rule step_rule_3)
      fix q assume "active_length t \<noteq> 0" "q + (k - length (leaves t)) < k"
        "eqsub (txt t) q (length (leaves t)) (k - length (leaves t))"
      from lo(7) [OF this] lo(3) show "txt t ! (q + (k - length (leaves t))) = x" by simp
    qed
  next
    case (rule_3_internal c v x)
    note lo = locus_internal [OF p(1,2,3) rule_3_internal(1,3,4,5)]
    have t': "t' = add_links (active_node t) (t\<lparr>active_length := active_length t + 1\<rparr>)"
      using rule_3_internal(7) by simp
    show ?thesis
      using p(1,2) kw kT' p(3) lo(1,2,3) lo(6) rule_3_internal(6) t'
      by (rule step_rule_3)
  qed simp_all
qed

lemma step_exit:
  assumes inv: "INV G k t" and r: "remainder t = 0" and kT: "k < length (txt t)"
  shows "PH G (Suc k) (t\<lparr>global_end := global_end t + 1\<rparr>)"
proof -
  let ?tf = "t\<lparr>global_end := global_end t + 1\<rparr>"
  let ?t = "?tf\<lparr>need_link := None, remainder := remainder ?tf + 1\<rparr>"
  note d = INV_D [OF inv]
  have sh: "shape G k t" by (rule d(1))
  have wf: "tree_wf t" using sh by (rule shape_wf)
  have lv: "length (leaves t) = Suc k" using d(3) r by simp
  have da: "dep G (active_node t) = 0" "active_length t = 0"
    using d(4) r by (simp_all add: unat_eq_0_iff)
  have nl: "need_link t = Some 0" using d(10) [OF r] .
  have inv': "INV G (Suc k) ?t"
  proof (rule INV_I)
    show "shape G (Suc k) ?t"
      using sh
    proof (rule shape_mono)
      show "tree_wf ?t" using wf by (simp add: tree_wf_def)
    qed (simp_all add: kT)
    show "links_all ?t" using d(9) nl unfolding links_all_def by auto
    show "pending_ok G (Suc k) (length (leaves ?t)) ?t" unfolding pending_ok_def by simp
    show "links_sem G ?t" using d(8) by simp
  qed (simp_all add: r lv da)
  have "\<forall>l<length (leaves ?tf). Ls ?tf l < Suc k"
  proof (intro allI impI)
    fix l assume "l < length (leaves ?tf)"
    then have l: "l < length (leaves t)" by simp
    from shape_leafD(3,4) [OF sh l] show "Ls ?tf l < Suc k" by simp
  qed
  then show ?thesis unfolding PH_def using inv' r by simp
qed

subsection \<open>The text is never changed\<close>

lemma txt_extend_body:
  assumes wf0: "tree_wf t0" and body: "extend_body k t0 = Break t' \<or> extend_body k t0 = Continue t'"
  shows "txt t' = txt t0"
proof -
  define t where "t = (if active_length t0 = 0 then t0\<lparr>active_edge := k\<rparr> else t0)"
  have wf: "tree_wf t" using wf0 by (simp add: t_def)
  have tx: "txt t = txt t0" by (simp add: t_def)
  note an = tree_wf_active [OF wf]
  define r where "r = extend_body k t0"
  have r: "r = Break t' \<or> r = Continue t'" using body by (simp add: r_def)
  then have ne: "r \<noteq> Abort" by auto
  from r_def [symmetric] ne t_def have "txt t' = txt t"
  proof (cases rule: extend_body_cases)
    case (rule_2b c)
    with r show ?thesis by (auto simp: rule_2b_eq)
  next
    case (walk_down c v)
    with r show ?thesis by auto
  next
    case (rule_3_leaf c l x)
    with r show ?thesis by auto
  next
    case (rule_3_internal c v x)
    with r show ?thesis by auto
  next
    case (split_leaf c l x y t'')
    from split_leaf(8) an obtain ck cn where
      "t'' = add_links (length (inodes t)) (split_leaf_pre k c l ck cn t)"
      by (rule split_leaf_eq)
    with r split_leaf(9) show ?thesis by auto
  next
    case (split_internal c v x y t'')
    have v: "v < length (inodes t)" using wf an split_internal(3) by (rule tree_wf_child)
    from split_internal(8) an v obtain ck cn where
      "t'' = add_links (length (inodes t)) (split_internal_pre k c v ck cn t)"
      by (rule split_internal_eq)
    with r split_internal(9) show ?thesis by auto
  qed
  then show ?thesis unfolding tx .
qed

lemma txt_extend:
  assumes "extend k t = Some t'" "tree_wf t"
  shows "txt t' = txt t"
proof -
  from assms(1) obtain t1 where run: "extend_loop k (t\<lparr>need_link := None, remainder := remainder t + 1\<rparr>) = Some t1"
    and t': "t' = t1\<lparr>global_end := global_end t1 + 1\<rparr>"
    unfolding extend_def by (auto split: option.splits)
  have "tree_wf t1 \<and> txt t1 = txt t"
    using run
  proof (rule extend_loop_rule [where I = "\<lambda>s. tree_wf s \<and> txt s = txt t"])
    show "tree_wf (t\<lparr>need_link := None, remainder := remainder t + 1\<rparr>) \<and>
        txt (t\<lparr>need_link := None, remainder := remainder t + 1\<rparr>) = txt t"
      using assms(2) by (simp add: tree_wf_def)
  qed (auto intro: wf_extend_body dest: txt_extend_body)
  then show ?thesis unfolding t' by simp
qed

subsection \<open>One phase, and all phases\<close>

lemma PH_extend:
  assumes ph: "PH G k t" and kw: "unat kw = k" and kT: "k < length (txt t)"
    and run: "extend kw t = Some t'"
  shows "\<exists>G'. PH G' (Suc k) t'"
proof -
  let ?t0 = "t\<lparr>need_link := None, remainder := remainder t + 1\<rparr>"
  from run obtain t1 where loop: "extend_loop kw ?t0 = Some t1"
    and t': "t' = t1\<lparr>global_end := global_end t1 + 1\<rparr>"
    unfolding extend_def by (auto split: option.splits)
  have inv0: "INV G k ?t0" using ph unfolding PH_def by blast
  have "\<exists>G'. PH G' (Suc k) (t1\<lparr>global_end := global_end t1 + 1\<rparr>)"
    using loop
  proof (rule extend_loop_rule [where I = "\<lambda>s. (\<exists>G. INV G k s) \<and> txt s = txt t"])
    show "(\<exists>G. INV G k ?t0) \<and> txt ?t0 = txt t" using inv0 by auto
  next
    fix s s' assume I: "(\<exists>G. INV G k s) \<and> txt s = txt t" and r: "remainder s \<noteq> 0"
      and body: "extend_body kw s = Continue s'"
    from I obtain G1 where inv: "INV G1 k s" and tx: "txt s = txt t" by blast
    have wf: "tree_wf s" using INV_D(1) [OF inv] by (rule shape_wf)
    have "txt s' = txt s" using wf body by (auto dest: txt_extend_body)
    with step_Continue [OF inv r kw body] tx
    show "(\<exists>G. INV G k s') \<and> txt s' = txt t" by simp
  next
    fix s s' assume I: "(\<exists>G. INV G k s) \<and> txt s = txt t" and r: "remainder s \<noteq> 0"
      and body: "extend_body kw s = Break s'"
    from I obtain G1 where inv: "INV G1 k s" and tx: "txt s = txt t" by blast
    have "k < length (txt s)" using kT tx by simp
    from step_Break [OF inv r kw this body]
    show "\<exists>G'. PH G' (Suc k) (s'\<lparr>global_end := global_end s' + 1\<rparr>)" by blast
  next
    fix s assume I: "(\<exists>G. INV G k s) \<and> txt s = txt t" and r: "remainder s = 0"
    from I obtain G1 where inv: "INV G1 k s" and tx: "txt s = txt t" by blast
    have "k < length (txt s)" using kT tx by simp
    from step_exit [OF inv r this]
    show "\<exists>G'. PH G' (Suc k) (s\<lparr>global_end := global_end s + 1\<rparr>)" by blast
  qed
  then show ?thesis unfolding t' .
qed

lemma PH_init:
  assumes "length T < 2 ^ 32"
  shows "PH \<lparr>dep = \<lambda>_. 0, par = \<lambda>_. 0, lpar = \<lambda>_. 0\<rparr> 0 (init_tree T)"
proof -
  let ?G = "\<lparr>dep = \<lambda>_. 0, par = \<lambda>_. 0, lpar = \<lambda>_. 0\<rparr>"
  let ?t = "(init_tree T)\<lparr>need_link := None, remainder := remainder (init_tree T) + 1\<rparr>"
  have f: "txt ?t = T" "inodes ?t = [new_inode 0 0]" "leaves ?t = []" "need_link ?t = None"
    "global_end ?t = 0" "remainder ?t = 1" "active_node ?t = 0" "active_length ?t = 0"
    by (simp_all add: init_tree_def root_def)
  have wf: "tree_wf ?t" unfolding tree_wf_def f by (simp add: node_wf_def new_inode_def)
  have sh: "shape ?G 0 ?t"
    unfolding shape_def sh_root_def sh_ichild_def sh_lchild_def f
    using wf assms by (simp add: new_inode_def)
  have "INV ?G 0 ?t"
    using sh
  proof (rule INV_I)
    show "links_sem ?G ?t" unfolding links_sem_def f by (simp add: new_inode_def)
    show "links_all ?t" unfolding links_all_def f by simp
    show "pending_ok ?G 0 (length (leaves ?t)) ?t" unfolding pending_ok_def f by simp
  qed (simp_all add: f)
  then show ?thesis unfolding PH_def by (simp add: init_tree_def)
qed

lemma SuffixTree_txt:
  assumes "SuffixTree T = Some t"
  shows "txt t = T"
  using assms unfolding SuffixTree_def
proof (rule build_loop_rule [where I = "\<lambda>k s. built s \<and> txt s = T"])
  show "built (init_tree T) \<and> txt (init_tree T) = T"
    by (simp add: init_tree_def built_def tree_wf_def nf_zero_def node_wf_def new_inode_def root_def)
next
  fix k s s' assume "built s \<and> txt s = T" "extend k s = Some s'"
  then show "built s' \<and> txt s' = T"
    using built_extend [of k s s'] txt_extend [of k s s'] by (auto simp: built_def)
qed simp

lemma SuffixTree_length:
  assumes "SuffixTree T = Some t"
  shows "length T < 2 ^ 32"
proof (rule ccontr)
  assume big: "\<not> length T < 2 ^ 32"
  have "False"
    using assms unfolding SuffixTree_def
  proof (rule build_loop_rule [where I = "\<lambda>k s. built s \<and> txt s = T"])
    show "built (init_tree T) \<and> txt (init_tree T) = T"
      by (simp add: init_tree_def built_def tree_wf_def nf_zero_def node_wf_def new_inode_def root_def)
  next
    fix k s s' assume "built s \<and> txt s = T" "extend k s = Some s'"
    then show "built s' \<and> txt s' = T"
      using built_extend [of k s s'] txt_extend [of k s s'] by (auto simp: built_def)
  next
    fix k :: u32 and s assume "built s \<and> txt s = T" "\<not> unat k < length (txt s)"
    moreover have "unat k < 2 ^ 32" using unsigned_less [of k] by simp
    ultimately show False using big by simp
  qed
  then show False .
qed

lemma SuffixTree_PH:
  assumes run: "SuffixTree T = Some t"
  shows "\<exists>G. PH G (length T) t"
proof -
  have len: "length T < 2 ^ 32" using run by (rule SuffixTree_length)
  have "\<exists>G. PH G (length T) t"
    using run unfolding SuffixTree_def
  proof (rule build_loop_rule [where I = "\<lambda>k s. built s \<and> txt s = T \<and> (\<exists>G. PH G (unat k) s)"])
    show "built (init_tree T) \<and> txt (init_tree T) = T \<and> (\<exists>G. PH G (unat (0 :: u32)) (init_tree T))"
      using PH_init [OF len]
      by (auto simp: init_tree_def built_def tree_wf_def nf_zero_def node_wf_def new_inode_def root_def)
  next
    fix k s s'
    assume I: "built s \<and> txt s = T \<and> (\<exists>G. PH G (unat k) s)"
      and k: "unat k < length (txt s)" and e: "extend k s = Some s'"
    from I obtain G where b: "built s" and tx: "txt s = T" and ph: "PH G (unat k) s" by blast
    have wf: "tree_wf s" using b by (simp add: built_def)
    from PH_extend [OF ph refl k e] obtain G' where ph': "PH G' (Suc (unat k)) s'" by blast
    have "unat (k + 1) = Suc (unat k)"
      using unat_Suc_nowrap [of k "length T"] k tx len by simp
    with ph' built_extend [OF e b] txt_extend [OF e wf] tx
    show "built s' \<and> txt s' = T \<and> (\<exists>G. PH G (unat (k + 1)) s')" by auto
  next
    fix k s
    assume I: "built s \<and> txt s = T \<and> (\<exists>G. PH G (unat k) s)" and k: "\<not> unat k < length (txt s)"
    from I obtain G where tx: "txt s = T" and ph: "PH G (unat k) s" by blast
    have "shape G (unat k) (s\<lparr>need_link := None, remainder := remainder s + 1\<rparr>)"
      using ph unfolding PH_def by (blast dest: INV_D(1))
    from shape_bounds(1) [OF this] have "unat k \<le> length T" using tx by simp
    with k tx have "unat k = length T" by simp
    with ph show "\<exists>G. PH G (length T) s" by auto
  qed
  then show ?thesis .
qed

lemma sentinel_last:
  assumes "sentinel T" "i < length T - 1"
  shows "T ! i \<noteq> T ! (length T - 1)"
proof -
  have "T \<noteq> []" using assms(1) by (simp add: sentinel_def)
  have "butlast T ! i \<in> set (butlast T)" using assms(2) by simp
  then have "T ! i \<in> set (butlast T)" using assms(2) by (simp add: nth_butlast)
  moreover have "last T = T ! (length T - 1)" using \<open>T \<noteq> []\<close> by (rule last_conv_nth)
  ultimately show ?thesis using assms(1) unfolding sentinel_def by metis
qed

lemma unat_Suc_ne0: "w + 1 \<noteq> 0 \<Longrightarrow> unat (w + 1 :: u32) = Suc (unat w)"
  by (metis add.commute unatSuc)

lemma SuffixTree_FIN:
  assumes run: "SuffixTree T = Some t"
  shows "\<exists>G. FIN G t"
proof -
  from SuffixTree_PH [OF run] obtain G where ph: "PH G (length T) t" by blast
  have tx: "txt t = T" using run by (rule SuffixTree_txt)
  have wf: "tree_wf t" using built_SuffixTree [OF run] by (simp add: built_def)
  let ?n = "length T"
  let ?t0 = "t\<lparr>need_link := None, remainder := remainder t + 1\<rparr>"
  have inv: "INV G ?n ?t0" and lb: "\<forall>l<length (leaves t). Ls t l < ?n"
    using ph unfolding PH_def by blast+
  note d = INV_D [OF inv]
  have sh: "shape G ?n t" using d(1) wf by (rule shape_frame) simp_all
  have ls: "links_sem G t" using d(8) by simp
  have la: "\<forall>v<length (inodes t). v \<noteq> 0 \<longrightarrow> suffix_link (inodes t ! v) \<noteq> None"
    using d(9) unfolding links_all_def by simp
  have r0: "remainder t + 1 \<noteq> 0"
  proof
    assume "remainder t + 1 = 0"
    then have "remainder ?t0 = 0" by simp
    from d(10) [OF this] show False by simp
  qed
  have ur: "unat (remainder ?t0) = Suc (unat (remainder t))" using unat_Suc_ne0 [OF r0] by simp
  have lv: "length (leaves t) = ?n - unat (remainder t)" using d(3) unfolding ur by simp
  have "length (leaves t) = ?n" if s: "sentinel T"
  proof (rule ccontr)
    assume "length (leaves t) \<noteq> ?n"
    with lv have lt: "length (leaves t) < ?n" by linarith
    let ?j = "length (leaves t)"
    have j: "Suc ?n - unat (remainder ?t0) = ?j" unfolding ur lv by simp
    from d(7) [unfolded j, OF lt] obtain i where i: "i < ?j" "eqsub T i ?j (?n - ?j)"
      using tx by auto
    have "T ! (i + (?n - ?j - 1)) = T ! (?j + (?n - ?j - 1))"
      using i(2) by (rule eqsub_nth) (use lt in simp)
    moreover have "?j + (?n - ?j - 1) = ?n - 1" using lt by simp
    moreover have "i + (?n - ?j - 1) < ?n - 1" using i(1) lt by linarith
    ultimately show False using sentinel_last [OF s] by metis
  qed
  then show ?thesis unfolding FIN_def tx using sh ls la lb by blast
qed

lemma FIN_D:
  assumes "FIN G t"
  shows "shape G (length (txt t)) t" "links_sem G t"
    "v < length (inodes t) \<Longrightarrow> v \<noteq> 0 \<Longrightarrow> suffix_link (inodes t ! v) \<noteq> None"
    "l < length (leaves t) \<Longrightarrow> Ls t l < length (txt t)"
    "sentinel (txt t) \<Longrightarrow> length (leaves t) = length (txt t)"
  using assms unfolding FIN_def by blast+

subsection \<open>Leaves shared between a node and the source of a Weiner link\<close>

lemma leaf_keys_iff: "y \<in> leaf_keys t u \<longleftrightarrow> (\<exists>l. lc t u y = Some l)"
  unfolding leaf_keys_def by (metis map_of_eq_None_iff not_Some_eq)

lemma shared_leaf_succ:
  assumes fin: "FIN G t" and full: "length (leaves t) = length (txt t)"
    and S: "S < length (inodes t)" and xS: "xS \<in> set (weiner_links (inodes t ! S))"
    and lx: "lc t xS y = Some l" and lS: "lc t S y = Some l'"
  shows "l' = Suc l" and "lpar G l = xS"
proof -
  note f = FIN_D [OF fin]
  have sh: "shape G (length (txt t)) t" by (rule f(1))
  have wf: "tree_wf t" using sh by (rule shape_wf)
  have x: "xS < length (inodes t)" using tree_wf_node [OF wf S] xS by (simp add: node_wf_def)
  have sl: "suffix_link (inodes t ! xS) = Some S" using links_semD(3) [OF f(2) S x] xS by simp
  from links_semD(2) [OF f(2) x sl] have dx: "dep G xS = Suc (dep G S)"
    and ex: "eqsub (txt t) (Suc (pos G t xS)) (pos G t S) (dep G S)" by simp_all
  note ch = shape_lchildD [OF sh x lx]
  note lf = shape_leafD [OF sh ch(3)]
  show lp: "lpar G l = xS" by (rule ch(1))
  have lsl: "Ls t l = l + dep G xS" using lf(3) unfolding lp .
  have "Ls t l < length (txt t)" using ch(3) by (rule f(4))
  then have l1: "Suc l < length (leaves t)" unfolding lsl dx full by simp
  have "eqsub (txt t) (l + 1) (pos G t xS + 1) (dep G xS - 1)"
    using lf(5) unfolding lp by (rule eqsub_shift) (simp add: dx)
  then have "eqsub (txt t) (Suc l) (Suc (pos G t xS)) (dep G S)" by (simp add: dx)
  then have e: "eqsub (txt t) (Suc l) (pos G t S) (dep G S)" using ex by (rule eqsub_trans)
  have yy: "txt t ! (Suc l + dep G S) = y" using ch(2) unfolding lsl dx by simp
  from child_towards_leaf [OF sh l1 S e] lS show "l' = Suc l" unfolding yy by auto
qed

lemma shared_pairs_le:
  assumes fin: "FIN G t" and full: "length (leaves t) = length (txt t)"
    and S: "S < length (inodes t)"
  shows "card {(xS, y). xS \<in> set (weiner_links (inodes t ! S)) \<and>
                        y \<in> leaf_keys t xS \<and> y \<in> leaf_keys t S} \<le> card (leaf_keys t S)"
proof (rule card_inj_on_le [where f = snd])
  let ?P = "{(xS, y). xS \<in> set (weiner_links (inodes t ! S)) \<and>
                        y \<in> leaf_keys t xS \<and> y \<in> leaf_keys t S}"
  show "finite (leaf_keys t S)" by (simp add: leaf_keys_def)
  show "snd ` ?P \<subseteq> leaf_keys t S" by auto
  show "inj_on snd ?P"
  proof (rule inj_onI)
    fix a b assume a: "a \<in> ?P" and b: "b \<in> ?P" and eq: "snd a = snd b"
    obtain x1 y where a': "a = (x1, y)" by (cases a)
    obtain x2 where b': "b = (x2, y)" using eq a' by (cases b) simp
    from a a' obtain l1 l' where 1: "x1 \<in> set (weiner_links (inodes t ! S))"
      "lc t x1 y = Some l1" "lc t S y = Some l'" by (auto simp: leaf_keys_iff)
    from b b' obtain l2 where 2: "x2 \<in> set (weiner_links (inodes t ! S))"
      "lc t x2 y = Some l2" by (auto simp: leaf_keys_iff)
    from shared_leaf_succ [OF fin full S 1(1,2,3)] shared_leaf_succ [OF fin full S 2(1,2) 1(3)]
    have "x1 = x2" by auto
    then show "a = b" using a' b' by simp
  qed
qed

lemma net_frequency_bounds:
  assumes fin: "FIN G t" and full: "length (leaves t) = length (txt t)"
    and S: "S < length (inodes t)"
  shows "0 \<le> net_frequency t S" "net_frequency t S \<le> int (card (leaf_keys t S))"
    "net_frequency t S < 2 ^ 32"
proof -
  show "0 \<le> net_frequency t S"
    unfolding net_frequency_def using shared_pairs_le [OF assms] by simp
  show le: "net_frequency t S \<le> int (card (leaf_keys t S))"
    unfolding net_frequency_def by simp
  have "card (leaf_keys t S) \<le> card (UNIV :: char set)" by (rule card_mono) simp_all
  then have "card (leaf_keys t S) \<le> 256" by (simp add: card_UNIV_char)
  with le show "net_frequency t S < 2 ^ 32" by simp
qed

subsection \<open>The result of single_nf without wrap-around\<close>

lemma decrements_card:
  assumes wf: "tree_wf t" and S: "S < length (inodes t)"
  shows "decrements t S =
     card {(xS, y). xS \<in> set (weiner_links (inodes t ! S)) \<and>
                    y \<in> leaf_keys t xS \<and> y \<in> leaf_keys t S}"
proof -
  let ?L = "leaf_children (inodes t ! S)" and ?ws = "weiner_links (inodes t ! S)"
  note nS = tree_wf_node [OF wf S]
  have dw: "distinct ?ws" and ws: "\<forall>v\<in>set ?ws. v < length (inodes t)"
    using nS by (simp_all add: node_wf_def)
  have each: "length (filter (\<lambda>(y, _). map_of ?L y \<noteq> None) (leaf_children (inodes t ! xS))) =
              card (leaf_keys t xS \<inter> leaf_keys t S)" if "xS \<in> set ?ws" for xS
  proof -
    from that ws have xS: "xS < length (inodes t)" by blast
    have d: "distinct (map fst (leaf_children (inodes t ! xS)))"
      using tree_wf_node [OF wf xS] by (simp add: node_wf_def)
    have "filter (\<lambda>y. y \<in> fst ` set ?L) (map fst (leaf_children (inodes t ! xS))) =
        map fst (filter (\<lambda>(y, _). map_of ?L y \<noteq> None) (leaf_children (inodes t ! xS)))"
      unfolding filter_map
      by (rule arg_cong [where f = "map fst"], rule filter_cong [OF refl])
         (force simp: map_of_eq_None_iff image_iff)
    then have "length (filter (\<lambda>(y, _). map_of ?L y \<noteq> None) (leaf_children (inodes t ! xS))) =
        length (filter (\<lambda>y. y \<in> fst ` set ?L) (map fst (leaf_children (inodes t ! xS))))"
      by simp
    also have "\<dots> = card (set (map fst (leaf_children (inodes t ! xS))) \<inter> fst ` set ?L)"
      using d by (rule length_filter_keys)
    finally show ?thesis unfolding leaf_keys_def by (simp only: set_map)
  qed
  have "decrements t S = (\<Sum>xS\<leftarrow>?ws. card (leaf_keys t xS \<inter> leaf_keys t S))"
    unfolding decrements_def
    by (rule arg_cong [where f = sum_list], rule map_cong [OF refl]) (rule each)
  also have "\<dots> = card {(xS, y). xS \<in> set ?ws \<and> y \<in> leaf_keys t xS \<and> y \<in> leaf_keys t S}"
    using card_shared_pairs [OF dw, where A = "leaf_keys t" and B = "leaf_keys t S"]
    by (simp add: leaf_keys_def)
  finally show ?thesis .
qed

lemma built_sentinel:
  assumes "SuffixTree T = Some t" "sentinel T"
  obtains G where "FIN G t" "length (leaves t) = length (txt t)" "tree_wf t"
proof -
  from SuffixTree_FIN [OF assms(1)] obtain G where fin: "FIN G t" by blast
  have "txt t = T" using assms(1) by (rule SuffixTree_txt)
  with FIN_D(5) [OF fin] assms(2) have "length (leaves t) = length (txt t)" by simp
  moreover have "tree_wf t" using FIN_D(1) [OF fin] by (rule shape_wf)
  ultimately show ?thesis using fin that by blast
qed

lemma single_nf_exact:
  assumes run: "SuffixTree T = Some t" and sen: "sentinel T"
    and find: "find_internal_node t s = Some (Some S, 0)"
  shows "\<exists>r. single_nf t s = Some r \<and> uint r = net_frequency t S"
    and "0 \<le> net_frequency t S"
    and "net_frequency t S = int (length (leaf_children (inodes t ! S))) - int (decrements t S)"
proof -
  from run sen obtain G where fin: "FIN G t" and full: "length (leaves t) = length (txt t)"
    and wf: "tree_wf t" by (rule built_sentinel)
  have S: "S < length (inodes t)" using find wf by (rule find_internal_node_node)
  note b = net_frequency_bounds [OF fin full S]
  show "0 \<le> net_frequency t S" by (rule b(1))
  have "uint (word_of_int (net_frequency t S) :: u32) = net_frequency t S"
    using b(1,3) by (simp add: uint_word_of_int take_bit_int_eq_self)
  with single_nf_closed_form [OF wf find]
  show "\<exists>r. single_nf t s = Some r \<and> uint r = net_frequency t S" by simp
  have "distinct (map fst (leaf_children (inodes t ! S)))"
    using tree_wf_node [OF wf S] by (simp add: node_wf_def)
  from length_char_keys(2) [OF this]
  show "net_frequency t S = int (length (leaf_children (inodes t ! S))) - int (decrements t S)"
    unfolding net_frequency_def decrements_card [OF wf S] leaf_keys_def by simp
qed

subsection \<open>The descent of find_internal_node ends\<close>

lemma find_loop_total:
  assumes fin: "FIN G t"
  shows "nd < length (inodes t) \<Longrightarrow> unat i = dep G nd \<Longrightarrow> \<exists>r. find_loop t s nd i = Some r"
proof (induction "length (txt t) - dep G nd" arbitrary: nd i rule: less_induct)
  case less
  note f = FIN_D [OF fin]
  have sh: "shape G (length (txt t)) t" by (rule f(1))
  have wf: "tree_wf t" using sh by (rule shape_wf)
  note b = shape_bounds [OF sh]
  show ?case
  proof (cases "length s \<le> unat i")
    case True
    then show ?thesis by (subst find_loop.simps) simp
  next
    case False
    show ?thesis
    proof (cases "ic t nd (s ! unat i)")
      case None
      with False show ?thesis by (subst find_loop.simps) simp
    next
      case (Some v)
      note ch = shape_ichildD [OF sh less.prems(1) Some]
      note nv = shape_nodeD [OF sh ch(5) ch(1)]
      note el = edge_length_unat [OF sh ch(5) ch(1)]
      let ?len = "min (edge_length (inodes t ! v)) (of_nat (length s) - i)"
      have s1: "substr s (unat i) (unat ?len) \<noteq> None" using False by (simp add: substr_def)
      have "St t v \<le> length (txt t)" using nv(3,4) by linarith
      then have s2: "substr (txt t) (St t v) (unat ?len) \<noteq> None" by (simp add: substr_def)
      have dv: "dep G v = dep G nd + unat (edge_length (inodes t ! v))" using el(2) ch(2) by simp
      have dn: "dep G v \<le> length (txt t)" using nv(4,6) by linarith
      have ui: "unat (i + edge_length (inodes t ! v)) = dep G v"
      proof -
        have "unat i + unat (edge_length (inodes t ! v)) < 2 ^ 32"
          using less.prems(2) dv dn b(2) by linarith
        from unat_add_nowrap [OF this] less.prems(2) dv show ?thesis by simp
      qed
      have "length (txt t) - dep G v < length (txt t) - dep G nd" using dv el(3) dn by linarith
      from less.hyps [OF this ch(5) ui]
      obtain r where r: "find_loop t s v (i + edge_length (inodes t ! v)) = Some r" by blast
      from s1 obtain a where a: "substr s (unat i) (unat ?len) = Some a" by auto
      from s2 obtain b' where b': "substr (txt t) (St t v) (unat ?len) = Some b'" by auto
      show ?thesis
        by (subst find_loop.simps) (use False Some a b' r in \<open>simp add: Let_def\<close>)
    qed
  qed
qed

lemma find_internal_node_total:
  assumes "SuffixTree T = Some t"
  shows "\<exists>r. find_internal_node t s = Some r"
proof -
  from SuffixTree_FIN [OF assms] obtain G where fin: "FIN G t" by blast
  have sh: "shape G (length (txt t)) t" using fin by (rule FIN_D(1))
  have "unat (0 :: u32) = dep G 0" using shape_bounds(4) [OF sh] by simp
  from find_loop_total [OF fin shape_root_lt [OF sh] this]
  show ?thesis unfolding find_internal_node_def root_def .
qed

lemma edges_nonempty:
  assumes "SuffixTree T = Some t" "v < length (inodes t)" "v \<noteq> root"
  shows "start (inodes t ! v) < end_idx (inodes t ! v)" "1 \<le> edge_length (inodes t ! v)"
proof -
  from SuffixTree_FIN [OF assms(1)] obtain G where fin: "FIN G t" by blast
  have sh: "shape G (length (txt t)) t" using fin by (rule FIN_D(1))
  have v0: "v \<noteq> 0" using assms(3) by (simp add: root_def)
  show "start (inodes t ! v) < end_idx (inodes t ! v)"
    using shape_nodeD(3) [OF sh assms(2) v0] by (simp add: word_less_nat_alt)
  show "1 \<le> edge_length (inodes t ! v)"
    using edge_length_unat(3) [OF sh assms(2) v0] by (simp add: word_le_nat_alt)
qed

subsection \<open>The string an internal node represents\<close>

lemma eqsub_take:
  assumes "eqsub T a b m" "a + m \<le> length T" "b + m \<le> length T"
  shows "take m (drop a T) = take m (drop b T)"
proof (rule nth_equalityI)
  show "length (take m (drop a T)) = length (take m (drop b T))" using assms(2,3) by simp
  fix i assume "i < length (take m (drop a T))"
  then have i: "i < m" by simp
  from eqsub_nth [OF assms(1) i] i assms(2,3)
  show "take m (drop a T) ! i = take m (drop b T) ! i" by simp
qed

lemma descend_append:
  "descend t u w (cs @ cs') =
     (case descend t u w cs of None \<Rightarrow> None | Some (u', w') \<Rightarrow> descend t u' w' cs')"
  by (induction cs arbitrary: u w) (simp_all split: option.splits)

lemma pos_dep: "shape G g t \<Longrightarrow> v < length (inodes t) \<Longrightarrow> pos G t v + dep G v \<le> g"
proof (cases "v = 0")
  case True
  assume "shape G g t"
  from shape_root [OF this] show ?thesis unfolding True sh_root_def pos_def by simp
next
  case False
  assume "shape G g t" "v < length (inodes t)"
  from shape_nodeD(4,6) [OF this False] show ?thesis unfolding pos_def by simp
qed

lemma gstr_child:
  assumes sh: "shape G g t" and u: "u < length (inodes t)" and ch: "ic t u c = Some v"
  shows "gstr G t v = gstr G t u @ edge_label t v"
proof -
  note d = shape_ichildD [OF sh u ch]
  note nv = shape_nodeD [OF sh d(5) d(1)]
  note el = edge_length_unat [OF sh d(5) d(1)]
  note b = shape_bounds [OF sh]
  have dv: "dep G v = dep G u + unat (edge_length (inodes t ! v))" using el(2) d(2) by simp
  have st: "St t v = pos G t v + dep G u" using shape_St [OF sh d(5) d(1)] d(2) by simp
  have pv: "pos G t v + dep G v \<le> length (txt t)" using pos_dep [OF sh d(5)] b(1) by linarith
  have pu: "pos G t u + dep G u \<le> length (txt t)" using pos_dep [OF sh u] b(1) by linarith
  have e: "eqsub (txt t) (pos G t v) (pos G t u) (dep G u)" using nv(7) unfolding d(2) .
  have "take (dep G u) (drop (pos G t v) (txt t)) = take (dep G u) (drop (pos G t u) (txt t))"
    using e _ pu by (rule eqsub_take) (use pv dv in linarith)
  then show ?thesis
    unfolding gstr_def edge_label_def dv st by (simp add: take_add add.commute)
qed

lemma descend_gstr:
  assumes sh: "shape G g t"
  shows "u < length (inodes t) \<Longrightarrow> descend t u (gstr G t u) cs = Some (u', w') \<Longrightarrow>
         u' < length (inodes t) \<and> w' = gstr G t u'"
proof (induction cs arbitrary: u)
  case Nil
  then show ?case by auto
next
  case (Cons c cs)
  from Cons.prems(2) obtain v where v: "ic t u c = Some v"
    and r: "descend t v (gstr G t u @ edge_label t v) cs = Some (u', w')"
    by (auto split: option.splits)
  have "v < length (inodes t)" using shape_ichildD(5) [OF sh Cons.prems(1) v] .
  moreover have "descend t v (gstr G t v) cs = Some (u', w')"
    using r unfolding gstr_child [OF sh Cons.prems(1) v] .
  ultimately show ?case by (rule Cons.IH)
qed

lemma gstr_root: "shape G g t \<Longrightarrow> gstr G t 0 = []"
  using shape_bounds(4) by (simp add: gstr_def)

lemma represents_gstr:
  assumes sh: "shape G g t" and r: "represents t u w"
  shows "u < length (inodes t)" "w = gstr G t u"
proof -
  from r obtain cs where "descend t 0 (gstr G t 0) cs = Some (u, w)"
    unfolding represents_def root_def gstr_root [OF sh] by blast
  from descend_gstr [OF sh shape_root_lt [OF sh] this]
  show "u < length (inodes t)" "w = gstr G t u" by simp_all
qed

lemma gstr_represents:
  assumes sh: "shape G g t"
  shows "u < length (inodes t) \<Longrightarrow> represents t u (gstr G t u)"
proof (induction "dep G u" arbitrary: u rule: less_induct)
  case less
  show ?case
  proof (cases "u = 0")
    case True
    have "descend t root [] [] = Some (u, gstr G t u)"
      unfolding True gstr_root [OF sh] by (simp add: root_def)
    then show ?thesis unfolding represents_def by blast
  next
    case False
    note nu = shape_nodeD [OF sh less.prems False]
    have "dep G (par G u) < dep G u" using sh less.prems False by (rule shape_dep_par)
    from less.hyps [OF this nu(1)] obtain cs where
      cs: "descend t root [] cs = Some (par G u, gstr G t (par G u))"
      unfolding represents_def by blast
    have "descend t root [] (cs @ [txt t ! St t u]) = Some (u, gstr G t u)"
      unfolding descend_append cs using nu(2) gstr_child [OF sh nu(1) nu(2)] by simp
    then show ?thesis unfolding represents_def by blast
  qed
qed

lemma gstr_suffix_link:
  assumes sh: "shape G g t" and ls: "links_sem G t"
    and u: "u < length (inodes t)" and sl: "suffix_link (inodes t ! u) = Some v"
  shows "gstr G t u = txt t ! pos G t u # gstr G t v"
proof -
  from links_semD(2) [OF ls u sl] have v: "v < length (inodes t)"
    and d: "dep G u = Suc (dep G v)"
    and e: "eqsub (txt t) (Suc (pos G t u)) (pos G t v) (dep G v)" by simp_all
  note b = shape_bounds [OF sh]
  have pu: "pos G t u + dep G u \<le> length (txt t)" using pos_dep [OF sh u] b(1) by linarith
  have pv: "pos G t v + dep G v \<le> length (txt t)" using pos_dep [OF sh v] b(1) by linarith
  have lt: "pos G t u < length (txt t)" using pu d by linarith
  have "take (dep G v) (drop (Suc (pos G t u)) (txt t)) = take (dep G v) (drop (pos G t v) (txt t))"
    using e _ pv by (rule eqsub_take) (use pu d in linarith)
  then show ?thesis
    unfolding gstr_def d by (simp add: Cons_nth_drop_Suc [OF lt, symmetric])
qed

lemma suffix_links_built:
  assumes run: "SuffixTree T = Some t"
  shows "u < length (inodes t) \<Longrightarrow> u \<noteq> root \<Longrightarrow>
           \<exists>v<length (inodes t). suffix_link (inodes t ! u) = Some v \<and>
             (\<exists>x w. represents t u (x # w) \<and> represents t v w)"
    and "u < length (inodes t) \<Longrightarrow> \<exists>w. represents t u w"
    and "represents t u w \<Longrightarrow> represents t u w' \<Longrightarrow> w = w'"
    and "u < length (inodes t) \<Longrightarrow> v < length (inodes t) \<Longrightarrow>
           v \<in> set (weiner_links (inodes t ! u)) \<longleftrightarrow> suffix_link (inodes t ! v) = Some u"
    and "u < length (inodes t) \<Longrightarrow> distinct (weiner_links (inodes t ! u))"
    and "u < length (inodes t) \<Longrightarrow> v \<in> set (weiner_links (inodes t ! u)) \<Longrightarrow> v < length (inodes t)"
proof -
  from SuffixTree_FIN [OF run] obtain G where fin: "FIN G t" by blast
  note f = FIN_D [OF fin]
  have sh: "shape G (length (txt t)) t" by (rule f(1))
  have wf: "tree_wf t" using sh by (rule shape_wf)
  show "\<exists>v<length (inodes t). suffix_link (inodes t ! u) = Some v \<and>
          (\<exists>x w. represents t u (x # w) \<and> represents t v w)"
    if u: "u < length (inodes t)" and "u \<noteq> root"
  proof -
    from that have "u \<noteq> 0" by (simp add: root_def)
    from f(3) [OF u this] obtain v where sl: "suffix_link (inodes t ! u) = Some v" by blast
    from links_semD(2) [OF f(2) u sl] have v: "v < length (inodes t)" by simp
    have "represents t u (txt t ! pos G t u # gstr G t v)"
      using gstr_represents [OF sh u] unfolding gstr_suffix_link [OF sh f(2) u sl] .
    moreover have "represents t v (gstr G t v)" using sh v by (rule gstr_represents)
    ultimately show ?thesis using v sl by blast
  qed
  show "\<exists>w. represents t u w" if "u < length (inodes t)"
    using gstr_represents [OF sh that] by blast
  show "w = w'" if "represents t u w" "represents t u w'"
    using represents_gstr(2) [OF sh that(1)] represents_gstr(2) [OF sh that(2)] by simp
  show "v \<in> set (weiner_links (inodes t ! u)) \<longleftrightarrow> suffix_link (inodes t ! v) = Some u"
    if "u < length (inodes t)" "v < length (inodes t)"
    using links_semD(3) [OF f(2) that] .
  show "distinct (weiner_links (inodes t ! u))" if "u < length (inodes t)"
    using tree_wf_node [OF wf that] by (simp add: node_wf_def)
  show "v < length (inodes t)" if "u < length (inodes t)" "v \<in> set (weiner_links (inodes t ! u))"
    using tree_wf_node [OF wf that(1)] that(2) by (simp add: node_wf_def)
qed

subsection \<open>The nodes below a list of siblings\<close>

lemma anc_linear:
  assumes "anc G a y" "anc G b y"
  shows "anc G a b \<or> anc G b a"
proof -
  from assms obtain m k where m: "(par G ^^ m) y = a" and k: "(par G ^^ k) y = b"
    unfolding anc_def by blast
  show ?thesis
  proof (cases "m \<le> k")
    case True
    then have "(par G ^^ (k - m)) ((par G ^^ m) y) = (par G ^^ k) y"
      using funpow_add [of "k - m" m "par G"] by (simp add: fun_eq_iff)
    then have "(par G ^^ (k - m)) a = b" unfolding m k .
    then show ?thesis unfolding anc_def by blast
  next
    case False
    then have "(par G ^^ (m - k)) ((par G ^^ k) y) = (par G ^^ m) y"
      using funpow_add [of "m - k" k "par G"] by (simp add: fun_eq_iff)
    then have "(par G ^^ (m - k)) b = a" unfolding m k .
    then show ?thesis unfolding anc_def by blast
  qed
qed

lemma not_anc_sibling:
  assumes sh: "shape G g t" and x: "x < length (inodes t)" "x \<noteq> 0"
    and r: "r < length (inodes t)" and p: "par G r = par G x" and ne: "x \<noteq> r"
  shows "\<not> anc G x r"
proof
  assume "anc G x r"
  with ne have "anc G x (par G x)" using anc_cases [of G x r] p by auto
  from anc_str(2) [OF sh shape_par_lt [OF sh x(1)] this] shape_dep_par [OF sh x]
  show False by simp
qed

lemma siblings_disjoint:
  assumes sh: "shape G g t" and x: "x < length (inodes t)" "x \<noteq> 0"
    and r: "r < length (inodes t)" "r \<noteq> 0" and p: "par G r = par G x" and ne: "x \<noteq> r"
    and a: "anc G x y" "anc G r y"
  shows False
proof -
  from anc_linear [OF a] consider "anc G x r" | "anc G r x" by blast
  then show False
  proof cases
    case 1
    with not_anc_sibling [OF sh x r(1) p ne] show False by simp
  next
    case 2
    with not_anc_sibling [OF sh r x(1) p [symmetric]] ne show False by simp
  qed
qed

lemma children_facts:
  assumes sh: "shape G g t" and u: "u < length (inodes t)"
  shows "c \<in> set (map snd (internal_children (inodes t ! u))) \<Longrightarrow>
           c < length (inodes t) \<and> c \<noteq> 0 \<and> par G c = u"
    and "distinct (map snd (internal_children (inodes t ! u)))"
proof -
  let ?xs = "internal_children (inodes t ! u)"
  have wf: "tree_wf t" using sh by (rule shape_wf)
  have d: "distinct (map fst ?xs)" using tree_wf_node [OF wf u] by (simp add: node_wf_def)
  have m: "ic t u k = Some c" if "(k, c) \<in> set ?xs" for k c using d that by simp
  show "c < length (inodes t) \<and> c \<noteq> 0 \<and> par G c = u"
    if "c \<in> set (map snd ?xs)"
  proof -
    from that obtain k where "(k, c) \<in> set ?xs" by auto
    from shape_ichildD [OF sh u m [OF this]] show ?thesis by simp
  qed
  have "inj_on snd (set ?xs)"
  proof (rule inj_onI)
    fix a b assume a: "a \<in> set ?xs" and b: "b \<in> set ?xs" and e: "snd a = snd b"
    obtain k1 c1 where a': "a = (k1, c1)" by (cases a)
    obtain k2 where b': "b = (k2, c1)" using e a' by (cases b) simp
    from shape_ichildD(3) [OF sh u m] a b a' b' have "k1 = k2" by metis
    then show "a = b" using a' b' by simp
  qed
  moreover have "distinct ?xs" using d by (simp add: distinct_map)
  ultimately show "distinct (map snd ?xs)" by (simp add: distinct_map)
qed

lemma desc_Nil [simp]: "desc G t [] = {}"
  by (simp add: desc_def)

lemma finite_desc [simp]: "finite (desc G t cs)"
  unfolding desc_def by simp

lemma desc_Cons:
  assumes sh: "shape G g t" and x: "x < length (inodes t)"
  shows "desc G t (x # rest) =
           insert x (desc G t (map snd (internal_children (inodes t ! x)))) \<union> desc G t rest"
proof -
  have a: "anc G x y \<longleftrightarrow> y = x \<or> (\<exists>c\<in>set (map snd (internal_children (inodes t ! x))). anc G c y)"
    if y: "y < length (inodes t)" for y
  proof
    assume xy: "anc G x y"
    show "y = x \<or> (\<exists>c\<in>set (map snd (internal_children (inodes t ! x))). anc G c y)"
    proof (cases "y = x")
      case False
      then have "x \<noteq> y" by simp
      from anc_down [OF sh y xy this] obtain c where c: "c < length (inodes t)" "c \<noteq> 0"
        "par G c = x" "anc G c y" by blast
      from shape_nodeD(2) [OF sh c(1,2)] have "ic t x (txt t ! St t c) = Some c" unfolding c(3) .
      then have "(txt t ! St t c, c) \<in> set (internal_children (inodes t ! x))" by (rule map_of_SomeD)
      then have "c \<in> set (map snd (internal_children (inodes t ! x)))" by force
      with c(4) show ?thesis by blast
    qed simp
  next
    assume "y = x \<or> (\<exists>c\<in>set (map snd (internal_children (inodes t ! x))). anc G c y)"
    then show "anc G x y"
    proof
      assume "y = x" then show ?thesis by simp
    next
      assume "\<exists>c\<in>set (map snd (internal_children (inodes t ! x))). anc G c y"
      then obtain c where c: "c \<in> set (map snd (internal_children (inodes t ! x)))" "anc G c y"
        by blast
      from children_facts(1) [OF sh x c(1)] have "par G c = x" by simp
      with anc_par [OF c(2)] show ?thesis by simp
    qed
  qed
  show ?thesis unfolding desc_def using a x by auto
qed

subsection \<open>The accumulation pass visits every internal node but the root once\<close>

lemma visits_empty [simp]: "visits t {} = (\<lambda>_. 0)"
  by (simp add: visits_def fun_eq_iff)

lemma visits_Cons:
  assumes "finite A" "finite B" "x \<notin> A" "insert x A \<inter> B = {}"
  shows "visits t (insert x A \<union> B) = (\<lambda>u. process_delta t x u + visits t A u + visits t B u)"
proof
  fix u
  have "visits t (insert x A \<union> B) u = visits t (insert x A) u + visits t B u"
    unfolding visits_def using assms by (intro sum.union_disjoint) simp_all
  also have "visits t (insert x A) u = process_delta t x u + visits t A u"
    unfolding visits_def using assms(1,3) by simp
  finally show "visits t (insert x A \<union> B) u = process_delta t x u + visits t A u + visits t B u" .
qed

lemma pc_list:
  assumes fin: "FIN G t0"
    and IH: "\<And>cs' t'. same_shape t0 t' \<Longrightarrow> distinct cs' \<Longrightarrow>
        (\<forall>c\<in>set cs'. c < length (inodes t0) \<and> c \<noteq> 0 \<and> (\<forall>c'\<in>set cs'. par G c' = par G c) \<and>
           length (txt t0) - dep G c < m) \<Longrightarrow>
        process_children cs' t' = Some (add_nf (visits t0 (desc G t0 cs')) t')"
  shows "same_shape t0 t \<Longrightarrow> distinct cs \<Longrightarrow>
        (\<forall>c\<in>set cs. c < length (inodes t0) \<and> c \<noteq> 0 \<and> (\<forall>c'\<in>set cs. par G c' = par G c) \<and>
           length (txt t0) - dep G c \<le> m) \<Longrightarrow>
        process_children cs t = Some (add_nf (visits t0 (desc G t0 cs)) t)"
proof (induction cs arbitrary: t)
  case Nil
  show ?case by (subst process_children.simps) (simp add: add_nf_zero)
next
  case (Cons x rest)
  note f = FIN_D [OF fin]
  have sh: "shape G (length (txt t0)) t0" by (rule f(1))
  have wf: "tree_wf t0" using sh by (rule shape_wf)
  have xx: "x \<in> set (x # rest)" by simp
  have x: "x < length (inodes t0)" "x \<noteq> 0" and xm: "length (txt t0) - dep G x \<le> m"
    using Cons.prems(3) xx by blast+
  let ?kids = "map snd (internal_children (inodes t0 ! x))"
  let ?t1 = "add_nf (process_delta t0 x) t"
  let ?t2 = "add_nf (visits t0 (desc G t0 ?kids)) ?t1"
  have ok: "process_node x t0 \<noteq> None" using f(3) [OF x] by (simp add: process_node_None_iff)
  have pn: "process_node x t = Some ?t1" using ok wf x(1) Cons.prems(1) by (rule process_node_add_nf)
  have sh1: "same_shape t0 ?t1" using Cons.prems(1) by simp
  have kids1: "map snd (internal_children (inodes ?t1 ! x)) = ?kids"
    using same_shape_fields(3) [OF sh1 x(1)] by simp
  have kf: "c < length (inodes t0) \<and> c \<noteq> 0 \<and> par G c = x" if "c \<in> set ?kids" for c
    using children_facts(1) [OF sh x(1) that] .
  have kd: "dep G x < dep G c" "dep G c \<le> length (txt t0)" if "c \<in> set ?kids" for c
  proof -
    from kf [OF that] have c: "c < length (inodes t0)" "c \<noteq> 0" "par G c = x" by simp_all
    show "dep G x < dep G c" using shape_dep_par [OF sh c(1,2)] unfolding c(3) .
    show "dep G c \<le> length (txt t0)" using pos_dep [OF sh c(1)] by linarith
  qed
  have p1: "process_children ?kids ?t1 = Some ?t2"
    using sh1 children_facts(2) [OF sh x(1)]
  proof (rule IH)
    show "\<forall>c\<in>set ?kids. c < length (inodes t0) \<and> c \<noteq> 0 \<and> (\<forall>c'\<in>set ?kids. par G c' = par G c) \<and>
        length (txt t0) - dep G c < m"
    proof (intro ballI conjI)
      fix c assume c: "c \<in> set ?kids"
      show "c < length (inodes t0)" "c \<noteq> 0" using kf [OF c] by simp_all
      show "length (txt t0) - dep G c < m" using kd [OF c] xm by linarith
      fix c' assume "c' \<in> set ?kids"
      then show "par G c' = par G c" using kf [OF c] kf [of c'] by simp
    qed
  qed
  have sh2: "same_shape t0 ?t2" using sh1 by simp
  have p2: "process_children rest ?t2 = Some (add_nf (visits t0 (desc G t0 rest)) ?t2)"
    using sh2
  proof (rule Cons.IH)
    show "distinct rest" using Cons.prems(2) by simp
    show "\<forall>c\<in>set rest. c < length (inodes t0) \<and> c \<noteq> 0 \<and> (\<forall>c'\<in>set rest. par G c' = par G c) \<and>
        length (txt t0) - dep G c \<le> m"
    proof (intro ballI conjI)
      fix c assume "c \<in> set rest"
      then have c: "c \<in> set (x # rest)" by simp
      from Cons.prems(3) c show "c < length (inodes t0)" "c \<noteq> 0" "length (txt t0) - dep G c \<le> m"
        by blast+
      fix c' assume "c' \<in> set rest"
      then have "c' \<in> set (x # rest)" by simp
      with Cons.prems(3) c show "par G c' = par G c" by blast
    qed
  qed
  have nx: "x \<notin> desc G t0 ?kids"
  proof
    assume "x \<in> desc G t0 ?kids"
    then obtain c where c: "c \<in> set ?kids" "anc G c x" unfolding desc_def by blast
    from anc_str(2) [OF sh x(1) c(2)] kd(1) [OF c(1)] show False by simp
  qed
  have dj: "insert x (desc G t0 ?kids) \<inter> desc G t0 rest = {}"
  proof (rule ccontr)
    assume "insert x (desc G t0 ?kids) \<inter> desc G t0 rest \<noteq> {}"
    then obtain y where y: "y \<in> insert x (desc G t0 ?kids)" "y \<in> desc G t0 rest" by blast
    from y(2) obtain r where r: "r \<in> set rest" "anc G r y" unfolding desc_def by blast
    have rf: "r < length (inodes t0)" "r \<noteq> 0" "par G r = par G x" "x \<noteq> r"
    proof -
      have rr: "r \<in> set (x # rest)" and xx: "x \<in> set (x # rest)" using r(1) by simp_all
      from Cons.prems(3) rr show "r < length (inodes t0)" "r \<noteq> 0" by blast+
      from Cons.prems(3) rr xx show "par G r = par G x" by blast
      from Cons.prems(2) r(1) show "x \<noteq> r" by auto
    qed
    have "anc G x y"
    proof (cases "y = x")
      case False
      with y(1) obtain c where c: "c \<in> set ?kids" "anc G c y" unfolding desc_def by blast
      from anc_par [OF c(2)] kf [OF c(1)] show ?thesis by simp
    qed simp
    from siblings_disjoint [OF sh x rf this r(2)] show False .
  qed
  have "process_children (x # rest) t = Some (add_nf (visits t0 (desc G t0 rest)) ?t2)"
    by (subst process_children.simps) (simp add: pn kids1 p1 p2)
  also have "add_nf (visits t0 (desc G t0 rest)) ?t2 = add_nf (visits t0 (desc G t0 (x # rest))) t"
    unfolding desc_Cons [OF sh x(1)] visits_Cons [OF finite_desc finite_desc nx dj]
    by (simp add: add_nf_add_nf)
  finally show ?case .
qed

lemma pc_total:
  assumes fin: "FIN G t0"
  shows "same_shape t0 t \<Longrightarrow> distinct cs \<Longrightarrow>
        (\<forall>c\<in>set cs. c < length (inodes t0) \<and> c \<noteq> 0 \<and> (\<forall>c'\<in>set cs. par G c' = par G c) \<and>
           length (txt t0) - dep G c \<le> m) \<Longrightarrow>
        process_children cs t = Some (add_nf (visits t0 (desc G t0 cs)) t)"
proof (induction m arbitrary: cs t)
  case 0
  have ih: "process_children cs' t' = Some (add_nf (visits t0 (desc G t0 cs')) t')"
    if "same_shape t0 t'" "distinct cs'"
      "\<forall>c\<in>set cs'. c < length (inodes t0) \<and> c \<noteq> 0 \<and> (\<forall>c'\<in>set cs'. par G c' = par G c) \<and>
           length (txt t0) - dep G c < 0" for cs' t'
  proof -
    from that(3) have "cs' = []" by (cases cs') force+
    then show ?thesis by (subst process_children.simps) (simp add: add_nf_zero)
  qed
  show ?case by (rule pc_list [OF fin ih "0.prems"])
next
  case (Suc m)
  have ih: "process_children cs' t' = Some (add_nf (visits t0 (desc G t0 cs')) t')"
    if a: "same_shape t0 t'" "distinct cs'"
      "\<forall>c\<in>set cs'. c < length (inodes t0) \<and> c \<noteq> 0 \<and> (\<forall>c'\<in>set cs'. par G c' = par G c) \<and>
           length (txt t0) - dep G c < Suc m" for cs' t'
  proof -
    have "\<forall>c\<in>set cs'. c < length (inodes t0) \<and> c \<noteq> 0 \<and> (\<forall>c'\<in>set cs'. par G c' = par G c) \<and>
           length (txt t0) - dep G c \<le> m"
    proof (intro ballI conjI)
      fix c assume c: "c \<in> set cs'"
      from a(3) c show "c < length (inodes t0)" "c \<noteq> 0" by blast+
      from a(3) c have "length (txt t0) - dep G c < Suc m" by blast
      then show "length (txt t0) - dep G c \<le> m" by simp
      fix c' assume "c' \<in> set cs'"
      with a(3) c show "par G c' = par G c" by blast
    qed
    with a(1,2) show ?thesis by (rule Suc.IH)
  qed
  show ?case by (rule pc_list [OF fin ih Suc.prems])
qed

lemma desc_root:
  assumes sh: "shape G g t"
  shows "desc G t (map snd (internal_children (inodes t ! 0))) = {x. x < length (inodes t) \<and> x \<noteq> 0}"
proof -
  let ?D = "desc G t (map snd (internal_children (inodes t ! 0)))"
  have rt: "0 < length (inodes t)" using sh by (rule shape_root_lt)
  have e: "desc G t [0] = insert 0 ?D"
    using desc_Cons [OF sh rt, of "[]"] by simp
  have n0: "0 \<notin> ?D"
  proof
    assume "0 \<in> ?D"
    then obtain c where c: "c \<in> set (map snd (internal_children (inodes t ! 0)))" "anc G c 0"
      unfolding desc_def by blast
    from children_facts(1) [OF sh rt c(1)] have cf: "c < length (inodes t)" "c \<noteq> 0" by simp_all
    from anc_str(2) [OF sh rt c(2)] shape_dep_pos [OF sh cf] shape_bounds(4) [OF sh]
    show False by simp
  qed
  show ?thesis
  proof (rule set_eqI)
    fix x
    show "x \<in> ?D \<longleftrightarrow> x \<in> {x. x < length (inodes t) \<and> x \<noteq> 0}"
    proof
      assume x: "x \<in> ?D"
      then have "x < length (inodes t)" unfolding desc_def by simp
      moreover have "x \<noteq> 0" using x n0 by metis
      ultimately show "x \<in> {x. x < length (inodes t) \<and> x \<noteq> 0}" by simp
    next
      assume "x \<in> {x. x < length (inodes t) \<and> x \<noteq> 0}"
      then have x: "x < length (inodes t)" "x \<noteq> 0" by simp_all
      have "anc G 0 x" using sh x(1) by (rule anc_root)
      then have "x \<in> desc G t [0]" unfolding desc_def using x(1) by simp
      then have "x \<in> insert 0 ?D" unfolding e .
      with x(2) show "x \<in> ?D" by simp
    qed
  qed
qed

lemma process_root_children:
  assumes fin: "FIN G t"
  shows "process_children (map snd (internal_children (inodes t ! root))) t =
     Some (add_nf (visits t {x. x < length (inodes t) \<and> x \<noteq> 0}) t)"
proof -
  have sh: "shape G (length (txt t)) t" using fin by (rule FIN_D(1))
  have rt: "0 < length (inodes t)" using sh by (rule shape_root_lt)
  let ?cs = "map snd (internal_children (inodes t ! 0))"
  have c: "\<forall>c\<in>set ?cs. c < length (inodes t) \<and> c \<noteq> 0 \<and> (\<forall>c'\<in>set ?cs. par G c' = par G c) \<and>
        length (txt t) - dep G c \<le> length (txt t)"
  proof (intro ballI conjI)
    fix c assume c: "c \<in> set ?cs"
    show "c < length (inodes t)" "c \<noteq> 0" using children_facts(1) [OF sh rt c] by simp_all
    show "length (txt t) - dep G c \<le> length (txt t)" by simp
    fix c' assume "c' \<in> set ?cs"
    from children_facts(1) [OF sh rt this] children_facts(1) [OF sh rt c]
    show "par G c' = par G c" by simp
  qed
  have "process_children ?cs t = Some (add_nf (visits t (desc G t ?cs)) t)"
    by (rule pc_total [OF fin same_shape_refl children_facts(2) [OF sh rt] c])
  then show ?thesis unfolding desc_root [OF sh] root_def .
qed

subsection \<open>The value the accumulation pass leaves at a node\<close>

lemma process_delta_split:
  "process_delta t x S =
     (if S = x then of_nat (length (leaf_children (inodes t ! x))) else 0) -
     (if suffix_link (inodes t ! x) = Some S
      then of_nat (length (filter (\<lambda>p. map_of (leaf_children (inodes t ! S)) (fst p) \<noteq> None)
                             (leaf_children (inodes t ! x))))
      else 0)"
  by (simp add: process_delta_def Let_def)

lemma of_nat_sum_list: "(\<Sum>x\<leftarrow>xs. (of_nat (f x) :: u32)) = of_nat (\<Sum>x\<leftarrow>xs. f x)"
  by (induction xs) simp_all

lemma visits_value:
  assumes fin: "FIN G t" and S: "S < length (inodes t)" "S \<noteq> 0"
  shows "visits t {x. x < length (inodes t) \<and> x \<noteq> 0} S =
     of_nat (length (leaf_children (inodes t ! S))) -
     of_nat (\<Sum>xS\<leftarrow>weiner_links (inodes t ! S).
        length (filter (\<lambda>p. map_of (leaf_children (inodes t ! S)) (fst p) \<noteq> None)
                  (leaf_children (inodes t ! xS))))"
proof -
  let ?A = "{x. x < length (inodes t) \<and> x \<noteq> 0}"
  let ?a = "\<lambda>x. if S = x then (of_nat (length (leaf_children (inodes t ! x))) :: u32) else 0"
  let ?f = "\<lambda>x. length (filter (\<lambda>p. map_of (leaf_children (inodes t ! S)) (fst p) \<noteq> None)
                             (leaf_children (inodes t ! x)))"
  let ?b = "\<lambda>x. if suffix_link (inodes t ! x) = Some S then (of_nat (?f x) :: u32) else 0"
  let ?ws = "weiner_links (inodes t ! S)"
  note f = FIN_D [OF fin]
  have sh: "shape G (length (txt t)) t" by (rule f(1))
  have wf: "tree_wf t" using sh by (rule shape_wf)
  have finA: "finite ?A" by simp
  have SA: "S \<in> ?A" using S by simp
  have dw: "distinct ?ws" using tree_wf_node [OF wf S(1)] by (simp add: node_wf_def)
  have wsA: "set ?ws = {x \<in> ?A. suffix_link (inodes t ! x) = Some S}"
  proof (rule set_eqI)
    fix x
    show "x \<in> set ?ws \<longleftrightarrow> x \<in> {x \<in> ?A. suffix_link (inodes t ! x) = Some S}"
    proof
      assume x: "x \<in> set ?ws"
      have xN: "x < length (inodes t)" using tree_wf_node [OF wf S(1)] x by (simp add: node_wf_def)
      have sl: "suffix_link (inodes t ! x) = Some S" using links_semD(3) [OF f(2) S(1) xN] x by simp
      have "x \<noteq> 0"
      proof
        assume "x = 0"
        with sl links_semD(1) [OF f(2)] show False by simp
      qed
      with xN sl show "x \<in> {x \<in> ?A. suffix_link (inodes t ! x) = Some S}" by simp
    next
      assume "x \<in> {x \<in> ?A. suffix_link (inodes t ! x) = Some S}"
      then have "x < length (inodes t)" "suffix_link (inodes t ! x) = Some S" by simp_all
      with links_semD(3) [OF f(2) S(1)] show "x \<in> set ?ws" by simp
    qed
  qed
  have "visits t ?A S = (\<Sum>x\<in>?A. ?a x - ?b x)"
    unfolding visits_def process_delta_split ..
  also have "\<dots> = (\<Sum>x\<in>?A. ?a x) - (\<Sum>x\<in>?A. ?b x)" by (rule sum_subtractf)
  also have "(\<Sum>x\<in>?A. ?a x) = of_nat (length (leaf_children (inodes t ! S)))"
    using sum.delta [OF finA, of S "\<lambda>x. of_nat (length (leaf_children (inodes t ! x))) :: u32"] SA
    by simp
  also have "(\<Sum>x\<in>?A. ?b x) = (\<Sum>x\<in>{x \<in> ?A. suffix_link (inodes t ! x) = Some S}. of_nat (?f x))"
    using finA by (rule sum.inter_filter [symmetric])
  also have "\<dots> = (\<Sum>x\<in>set ?ws. of_nat (?f x))" unfolding wsA ..
  also have "\<dots> = (\<Sum>x\<leftarrow>?ws. of_nat (?f x))" using dw by (rule sum_list_distinct_conv_sum_set [symmetric])
  also have "\<dots> = of_nat (\<Sum>x\<leftarrow>?ws. ?f x)" by (rule of_nat_sum_list)
  finally show ?thesis .
qed

lemma length_filter_fst:
  "length (filter (\<lambda>y. y \<in> fst ` set L) (map fst xs)) =
   length (filter (\<lambda>p. map_of L (fst p) \<noteq> None) xs)"
  by (induction xs) (auto simp: map_of_eq_None_iff)

lemma single_nf_value:
  assumes wf: "tree_wf t" and find: "find_internal_node t s = Some (Some S, 0)"
  shows "single_nf t s = Some
     (of_nat (length (leaf_children (inodes t ! S))) -
      of_nat (\<Sum>xS\<leftarrow>weiner_links (inodes t ! S).
        length (filter (\<lambda>p. map_of (leaf_children (inodes t ! S)) (fst p) \<noteq> None)
                  (leaf_children (inodes t ! xS)))))"
proof -
  let ?L = "leaf_children (inodes t ! S)" and ?ws = "weiner_links (inodes t ! S)"
  have S: "S < length (inodes t)" using find wf by (rule find_internal_node_node)
  have dL: "distinct (map fst ?L)" using tree_wf_node [OF wf S] by (simp add: node_wf_def)
  note len = length_char_keys [OF dL]
  show ?thesis
  proof (cases "(of_nat (length ?L) :: u32) = 0")
    case True
    with len(1) have "length ?L = 0" by (intro small_of_nat_eq_0)
    then have L: "?L = []" by simp
    from True find have "single_nf t s = Some 0" by (simp add: single_nf_def)
    then show ?thesis unfolding L by simp
  next
    case False
    with find have "single_nf t s =
        Some (fold (\<lambda>xS n. count_shared (leaf_children (inodes t ! xS)) ?L n) ?ws (of_nat (length ?L)))"
      by (simp add: single_nf_def Let_def)
    then show ?thesis unfolding fold_count_shared length_filter_fst .
  qed
qed

lemma find_loop_nonroot:
  assumes run: "find_loop t s nd i = Some (Some S, l)" and sh: "shape G g t"
    and nd: "nd < length (inodes t)" and i: "nd = 0 \<longrightarrow> unat i < length s"
  shows "S \<noteq> 0"
proof -
  have "case fst (Some S, l) of None \<Rightarrow> True | Some S \<Rightarrow> S \<noteq> 0"
    using run
  proof (rule find_loop_rule [where I = "\<lambda>nd i. nd < length (inodes t) \<and> (nd = 0 \<longrightarrow> unat i < length s)"
          and Q = "\<lambda>r. case fst r of None \<Rightarrow> True | Some S \<Rightarrow> S \<noteq> 0"])
    show "nd < length (inodes t) \<and> (nd = 0 \<longrightarrow> unat i < length s)" using nd i by simp
  next
    fix nd v a and i :: u32
    assume "nd < length (inodes t) \<and> (nd = 0 \<longrightarrow> unat i < length s)"
      and "ic t nd (s ! unat i) = Some v"
    then show "v < length (inodes t) \<and> (v = 0 \<longrightarrow> unat (i + edge_length (inodes t ! v)) < length s)"
      using shape_ichildD(1,5) [OF sh] by blast
  qed auto
  then show ?thesis by simp
qed

lemma all_nf_value:
  assumes run: "SuffixTree T = Some t" and all: "all_nf t = Some (t', out)"
    and find: "find_internal_node t s = Some (Some S, 0)" and s: "s \<noteq> []"
  shows "single_nf t s = Some (nf (inodes t' ! S))"
proof -
  from SuffixTree_FIN [OF run] obtain G where fin: "FIN G t" by blast
  have sh: "shape G (length (txt t)) t" using fin by (rule FIN_D(1))
  have wf: "tree_wf t" using sh by (rule shape_wf)
  have z: "nf_zero t" using built_SuffixTree [OF run] by (simp add: built_def)
  have S: "S < length (inodes t)" using find wf by (rule find_internal_node_node)
  have S0: "S \<noteq> 0"
    using find [unfolded find_internal_node_def root_def] sh shape_root_lt [OF sh]
    by (rule find_loop_nonroot) (use s in simp)
  have "t' = add_nf (visits t {x. x < length (inodes t) \<and> x \<noteq> 0}) t"
    using all process_root_children [OF fin] unfolding all_nf_Some by simp
  then have "nf (inodes t' ! S) = nf (inodes t ! S) + visits t {x. x < length (inodes t) \<and> x \<noteq> 0} S"
    using S by simp
  also have "nf (inodes t ! S) = 0" using z S by (simp add: nf_zero_def)
  finally show ?thesis
    unfolding single_nf_value [OF wf find] visits_value [OF fin S S0] by simp
qed

subsection \<open>The report pass returns\<close>

lemma rc_list:
  assumes fin: "FIN G t0" and ss: "same_shape t0 t"
    and IH: "\<And>cs'. (\<forall>e\<in>set cs'. fst e < length (inodes t0) \<and> fst e \<noteq> 0 \<and>
           unat (fst (snd e)) \<le> length (txt t0) \<and> length (txt t0) - dep G (fst e) < m) \<Longrightarrow>
        \<exists>out. report_children t cs' = Some out"
  shows "(\<forall>e\<in>set cs. fst e < length (inodes t0) \<and> fst e \<noteq> 0 \<and>
           unat (fst (snd e)) \<le> length (txt t0) \<and> length (txt t0) - dep G (fst e) \<le> m) \<Longrightarrow>
        \<exists>out. report_children t cs = Some out"
proof (induction cs)
  case Nil
  show ?case by (subst report_children.simps) simp
next
  case (Cons e rest)
  obtain S sp d where e: "e = (S, sp, d)" by (cases e)
  note f = FIN_D [OF fin]
  have sh: "shape G (length (txt t0)) t0" by (rule f(1))
  have ee: "e \<in> set (e # rest)" by simp
  have S: "S < length (inodes t0)" "S \<noteq> 0" and sp: "unat sp \<le> length (txt t0)"
    and Sm: "length (txt t0) - dep G S \<le> m"
    using Cons.prems ee unfolding e by force+
  have tx: "txt t = txt t0" using ss by (simp add: same_shape_def)
  let ?kids = "map (\<lambda>(_, child). (child, sp, d + edge_length (inodes t ! child)))
                 (internal_children (inodes t ! S))"
  have ic: "internal_children (inodes t ! S) = internal_children (inodes t0 ! S)"
    using ss S(1) by (rule same_shape_fields)
  obtain o1 where o1: "(if nf (inodes t ! S) \<noteq> 0
       then map_option (\<lambda>w. [(w, nf (inodes t ! S))]) (substr (txt t) (unat sp) (unat d))
       else Some []) = Some o1"
    using sp unfolding tx by (cases "nf (inodes t ! S) = 0") (simp_all add: substr_def)
  have "\<exists>out. report_children t ?kids = Some out"
  proof (rule IH, intro ballI conjI)
    fix k assume "k \<in> set ?kids"
    then obtain c where c: "fst k \<in> set (map snd (internal_children (inodes t0 ! S)))"
      and ks: "fst (snd k) = sp"
      unfolding ic by force
    from children_facts(1) [OF sh S(1) c] have cf: "fst k < length (inodes t0)" "fst k \<noteq> 0"
      "par G (fst k) = S" by simp_all
    show "fst k < length (inodes t0)" "fst k \<noteq> 0" by (rule cf)+
    show "unat (fst (snd k)) \<le> length (txt t0)" unfolding ks by (rule sp)
    have "dep G S < dep G (fst k)" using shape_dep_par [OF sh cf(1,2)] unfolding cf(3) .
    moreover have "dep G (fst k) \<le> length (txt t0)" using pos_dep [OF sh cf(1)] by linarith
    ultimately show "length (txt t0) - dep G (fst k) < m" using Sm by linarith
  qed
  then obtain o2 where o2: "report_children t ?kids = Some o2" by blast
  have "\<exists>out. report_children t rest = Some out"
  proof (rule Cons.IH, intro ballI)
    fix k assume "k \<in> set rest"
    then have "k \<in> set (e # rest)" by simp
    with Cons.prems show "fst k < length (inodes t0) \<and> fst k \<noteq> 0 \<and>
           unat (fst (snd k)) \<le> length (txt t0) \<and> length (txt t0) - dep G (fst k) \<le> m" by blast
  qed
  then obtain o3 where o3: "report_children t rest = Some o3" by blast
  show ?case
    unfolding e by (subst report_children.simps) (simp add: o1 o2 o3)
qed

lemma rc_total:
  assumes fin: "FIN G t0" and ss: "same_shape t0 t"
  shows "(\<forall>e\<in>set cs. fst e < length (inodes t0) \<and> fst e \<noteq> 0 \<and>
           unat (fst (snd e)) \<le> length (txt t0) \<and> length (txt t0) - dep G (fst e) \<le> m) \<Longrightarrow>
        \<exists>out. report_children t cs = Some out"
proof (induction m arbitrary: cs)
  case 0
  have ih: "\<exists>out. report_children t cs' = Some out"
    if "\<forall>e\<in>set cs'. fst e < length (inodes t0) \<and> fst e \<noteq> 0 \<and>
           unat (fst (snd e)) \<le> length (txt t0) \<and> length (txt t0) - dep G (fst e) < 0" for cs'
  proof -
    from that have "cs' = []" by (cases cs') force+
    then show ?thesis by (subst report_children.simps) simp
  qed
  show ?case by (rule rc_list [OF fin ss ih "0.prems"])
next
  case (Suc m)
  have ih: "\<exists>out. report_children t cs' = Some out"
    if a: "\<forall>e\<in>set cs'. fst e < length (inodes t0) \<and> fst e \<noteq> 0 \<and>
           unat (fst (snd e)) \<le> length (txt t0) \<and> length (txt t0) - dep G (fst e) < Suc m" for cs'
  proof (rule Suc.IH, intro ballI conjI)
    fix e assume e: "e \<in> set cs'"
    from a e show "fst e < length (inodes t0)" "fst e \<noteq> 0" "unat (fst (snd e)) \<le> length (txt t0)"
      by blast+
    from a e have "length (txt t0) - dep G (fst e) < Suc m" by blast
    then show "length (txt t0) - dep G (fst e) \<le> m" by simp
  qed
  show ?case by (rule rc_list [OF fin ss ih Suc.prems])
qed

lemma all_nf_total:
  assumes run: "SuffixTree T = Some t"
  shows "\<exists>t' out. all_nf t = Some (t', out)"
proof -
  from SuffixTree_FIN [OF run] obtain G where fin: "FIN G t" by blast
  have sh: "shape G (length (txt t)) t" using fin by (rule FIN_D(1))
  have rt: "0 < length (inodes t)" using sh by (rule shape_root_lt)
  let ?t' = "add_nf (visits t {x. x < length (inodes t) \<and> x \<noteq> 0}) t"
  have ss: "same_shape t ?t'" by simp
  let ?cs = "map (\<lambda>(_, S). (S, start (inodes ?t' ! S), edge_length (inodes ?t' ! S)))
                (internal_children (inodes ?t' ! root))"
  have ic: "internal_children (inodes ?t' ! root) = internal_children (inodes t ! 0)"
    using same_shape_fields(3) [OF ss rt] by (simp add: root_def)
  have "\<exists>out. report_children ?t' ?cs = Some out"
    using fin ss
  proof (rule rc_total [where m = "length (txt t)"], intro ballI conjI)
    fix k assume "k \<in> set ?cs"
    then obtain c where c: "fst k \<in> set (map snd (internal_children (inodes t ! 0)))"
      and ks: "fst (snd k) = start (inodes ?t' ! fst k)"
      unfolding ic by force
    from children_facts(1) [OF sh rt c] have cf: "fst k < length (inodes t)" "fst k \<noteq> 0" by simp_all
    show "fst k < length (inodes t)" "fst k \<noteq> 0" by (rule cf)+
    have "start (inodes ?t' ! fst k) = start (inodes t ! fst k)" using ss cf(1) by (rule same_shape_fields)
    with shape_nodeD(3,4) [OF sh cf] show "unat (fst (snd k)) \<le> length (txt t)" unfolding ks by simp
    show "length (txt t) - dep G (fst k) \<le> length (txt t)" by simp
  qed
  then obtain out where "report_children ?t' ?cs = Some out" by blast
  with process_root_children [OF fin] have "all_nf t = Some (?t', out)"
    unfolding all_nf_Some by simp
  then show ?thesis by blast
qed

subsection \<open>find_internal_node finds the node that represents the query\<close>

lemma length_gstr: "shape G g t \<Longrightarrow> u < length (inodes t) \<Longrightarrow> length (gstr G t u) = dep G u"
  using pos_dep [of G g t u] shape_bounds(1) [of G g t] by (simp add: gstr_def)

lemma unat_of_nat_32: "n < 2 ^ 32 \<Longrightarrow> unat (of_nat n :: u32) = n"
  by (simp add: unsigned_of_nat take_bit_nat_eq_self)

lemma unat_lt_32: "unat (w :: u32) < 2 ^ 32"
  using unsigned_less [of w] by simp

lemma length_edge_label:
  assumes sh: "shape G g t" and v: "v < length (inodes t)" "v \<noteq> 0"
  shows "length (edge_label t v) = unat (edge_length (inodes t ! v))"
    and "edge_label t v \<noteq> []" and "edge_label t v ! 0 = txt t ! St t v"
proof -
  note nv = shape_nodeD [OF sh v] and el = edge_length_unat [OF sh v] and b = shape_bounds [OF sh]
  have "St t v + unat (edge_length (inodes t ! v)) \<le> length (txt t)"
    using el(1) nv(3,4) b(1) by linarith
  then show l: "length (edge_label t v) = unat (edge_length (inodes t ! v))"
    by (simp add: edge_label_def)
  show "edge_label t v \<noteq> []" using l el(3) by auto
  have "St t v < length (txt t)" using nv(3,4) b(1) by linarith
  then show "edge_label t v ! 0 = txt t ! St t v" using el(3) by (simp add: edge_label_def)
qed

lemma find_loop_sound:
  assumes run: "find_loop t s nd i = Some (Some S, 0)" and sh: "shape G g t"
    and nd: "nd < length (inodes t)" and i: "unat i = dep G nd"
    and pre: "take (length s) (gstr G t nd) = take (dep G nd) s"
  shows "S < length (inodes t) \<and> gstr G t S = s"
proof -
  note b = shape_bounds [OF sh]
  have big: "length s < 2 ^ 32"
  proof (rule ccontr)
    assume big: "\<not> length s < 2 ^ 32"
    have "\<forall>S'. (Some S, 0 :: u32) \<noteq> (Some S', 0)"
      using run
    proof (rule find_loop_rule [where I = "\<lambda>_ _. True"
            and Q = "\<lambda>r. \<forall>S'. r \<noteq> (Some S', 0)"])
      fix nd' and i' :: u32 assume "length s \<le> unat i'"
      moreover have "unat i' < 2 ^ 32" by (rule unat_lt_32)
      ultimately show "\<forall>S'. (Some nd', of_nat (unat i' - length s) :: u32) \<noteq> (Some S', 0)"
        using big by simp
    qed simp_all
    then show False by simp
  qed
  have "\<forall>S'. (Some S, 0 :: u32) = (Some S', 0) \<longrightarrow> S' < length (inodes t) \<and> gstr G t S' = s"
    using run
  proof (rule find_loop_rule [where I = "\<lambda>nd i. nd < length (inodes t) \<and> unat i = dep G nd \<and>
            take (length s) (gstr G t nd) = take (dep G nd) s"
          and Q = "\<lambda>r. \<forall>S'. r = (Some S', 0) \<longrightarrow> S' < length (inodes t) \<and> gstr G t S' = s"])
    show "nd < length (inodes t) \<and> unat i = dep G nd \<and>
        take (length s) (gstr G t nd) = take (dep G nd) s" using nd i pre by simp
  next
    fix nd and i :: u32
    assume I: "nd < length (inodes t) \<and> unat i = dep G nd \<and>
        take (length s) (gstr G t nd) = take (dep G nd) s" and ex: "length s \<le> unat i"
    show "\<forall>S'. (Some nd, of_nat (unat i - length s) :: u32) = (Some S', 0) \<longrightarrow>
        S' < length (inodes t) \<and> gstr G t S' = s"
    proof (intro allI impI)
      fix S' assume "(Some nd, of_nat (unat i - length s) :: u32) = (Some S', 0)"
      then have e: "S' = nd" and z: "(of_nat (unat i - length s) :: u32) = 0" by simp_all
      have "unat i - length s < 2 ^ 32" using unat_lt_32 [of i] by linarith
      from unat_of_nat_32 [OF this] z have "unat i - length s = 0" by simp
      with ex I have d: "dep G nd = length s" by simp
      have "length (gstr G t nd) = length s" using length_gstr [OF sh] I d by simp
      then have "take (length s) (gstr G t nd) = gstr G t nd" by simp
      with I d show "S' < length (inodes t) \<and> gstr G t S' = s" unfolding e by simp
    qed
  next
    fix nd v a and i :: u32
    let ?el = "edge_length (inodes t ! v)"
    let ?len = "min ?el (of_nat (length s) - i)"
    assume I: "nd < length (inodes t) \<and> unat i = dep G nd \<and>
        take (length s) (gstr G t nd) = take (dep G nd) s" and lt: "unat i < length s"
      and ch: "ic t nd (s ! unat i) = Some v"
      and a: "substr s (unat i) (unat ?len) = Some a"
      and a': "substr (txt t) (St t v) (unat ?len) = Some a"
    from I have nd: "nd < length (inodes t)" and i: "unat i = dep G nd"
      and pre: "take (length s) (gstr G t nd) = take (dep G nd) s" by simp_all
    note cf = shape_ichildD [OF sh nd ch]
    note nv = shape_nodeD [OF sh cf(5) cf(1)]
    note el = edge_length_unat [OF sh cf(5) cf(1)]
    have dv: "dep G v = dep G nd + unat ?el" using el(2) cf(2) by simp
    have dn: "dep G v \<le> length (txt t)" using pos_dep [OF sh cf(5)] b(1) by linarith
    have ui: "unat (i + ?el) = dep G v"
    proof -
      have "unat i + unat ?el < 2 ^ 32" using i dv dn b(2) by linarith
      from unat_add_nowrap [OF this] i dv show ?thesis by simp
    qed
    have us: "unat (of_nat (length s) - i :: u32) = length s - dep G nd"
      using unat_sub_nowrap [of i "of_nat (length s)"] unat_of_nat_32 [OF big] lt i by simp
    have ul: "unat ?len = min (unat ?el) (length s - dep G nd)"
      unfolding us [symmetric] by (simp add: min_def word_le_nat_alt)
    have eq: "take (unat ?len) (drop (dep G nd) s) = take (unat ?len) (drop (St t v) (txt t))"
      using a a' unfolding substr_def i by (auto split: if_splits)
    have gl: "length (gstr G t nd) = dep G nd" using sh nd by (rule length_gstr)
    have g1: "take (length s) (gstr G t nd) = gstr G t nd" using gl lt i by simp
    have "take (length s) (gstr G t v) =
        gstr G t nd @ take (length s - dep G nd) (edge_label t v)"
      unfolding gstr_child [OF sh nd ch] using gl g1 by simp
    also have "take (length s - dep G nd) (edge_label t v) = take (unat ?len) (drop (St t v) (txt t))"
      unfolding edge_label_def ul by (simp add: min.commute)
    also have "\<dots> = take (unat ?len) (drop (dep G nd) s)" using eq by simp
    also have "\<dots> = take (unat ?el) (drop (dep G nd) s)" unfolding ul by (simp add: min_def)
    also have "gstr G t nd @ take (unat ?el) (drop (dep G nd) s) = take (dep G v) s"
      unfolding dv take_add using pre g1 by simp
    finally have "take (length s) (gstr G t v) = take (dep G v) s" .
    with cf(5) ui show "v < length (inodes t) \<and> unat (i + ?el) = dep G v \<and>
        take (length s) (gstr G t v) = take (dep G v) s" by simp
  qed simp_all
  then show ?thesis by simp
qed

lemma descend_prefix: "descend t u w cs = Some (S, s) \<Longrightarrow> \<exists>r. s = w @ r"
proof (induction cs arbitrary: u w)
  case Nil
  then show ?case by simp
next
  case (Cons c cs)
  from Cons.prems obtain v where "descend t v (w @ edge_label t v) cs = Some (S, s)"
    by (auto split: option.splits)
  from Cons.IH [OF this] show ?case by auto
qed

lemma find_loop_complete:
  assumes sh: "shape G g t"
  shows "descend t u (gstr G t u) cs = Some (S, s) \<Longrightarrow> u < length (inodes t) \<Longrightarrow>
         unat i = dep G u \<Longrightarrow> find_loop t s u i = Some (Some S, 0)"
proof (induction cs arbitrary: u i)
  case Nil
  then have "S = u" "s = gstr G t u" by auto
  with length_gstr [OF sh Nil.prems(2)] Nil.prems(3) have "unat i = length s" by simp
  then show ?case unfolding \<open>S = u\<close> by (subst find_loop.simps) simp
next
  case (Cons c cs)
  note b = shape_bounds [OF sh]
  from Cons.prems(1) obtain v where ch: "ic t u c = Some v"
    and r: "descend t v (gstr G t u @ edge_label t v) cs = Some (S, s)"
    by (auto split: option.splits)
  note cf = shape_ichildD [OF sh Cons.prems(2) ch]
  note nv = shape_nodeD [OF sh cf(5) cf(1)]
  note el = edge_length_unat [OF sh cf(5) cf(1)]
  note ll = length_edge_label [OF sh cf(5) cf(1)]
  let ?el = "edge_length (inodes t ! v)"
  have r': "descend t v (gstr G t v) cs = Some (S, s)" using r unfolding gstr_child [OF sh Cons.prems(2) ch] .
  from descend_prefix [OF r] obtain rest where s: "s = gstr G t u @ edge_label t v @ rest" by auto
  from descend_gstr [OF sh cf(5) r'] have SS: "S < length (inodes t)" "s = gstr G t S" by simp_all
  have gl: "length (gstr G t u) = dep G u" using sh Cons.prems(2) by (rule length_gstr)
  have ls: "length s = dep G u + unat ?el + length rest" unfolding s using gl ll(1) by simp
  have "length s = dep G S" unfolding SS(2) using sh SS(1) by (rule length_gstr)
  moreover have "dep G S \<le> length (txt t)" using pos_dep [OF sh SS(1)] b(1) by linarith
  ultimately have big: "length s < 2 ^ 32" using b(2) by linarith
  have lt: "unat i < length s" using ls el(3) Cons.prems(3) by linarith
  have si: "s ! unat i = c"
    unfolding Cons.prems(3) s using gl ll(2,3) cf(3) by (simp add: nth_append)
  have dv: "dep G v = dep G u + unat ?el" using el(2) cf(2) by simp
  have dn: "dep G v \<le> length (txt t)" using pos_dep [OF sh cf(5)] b(1) by linarith
  have ui: "unat (i + ?el) = dep G v"
  proof -
    have "unat i + unat ?el < 2 ^ 32" using Cons.prems(3) dv dn b(2) by linarith
    from unat_add_nowrap [OF this] Cons.prems(3) dv show ?thesis by simp
  qed
  have us: "unat (of_nat (length s) - i :: u32) = length s - dep G u"
    using unat_sub_nowrap [of i "of_nat (length s)"] unat_of_nat_32 [OF big] lt Cons.prems(3) by simp
  have ul: "unat (min ?el (of_nat (length s) - i)) = unat ?el"
  proof -
    have "unat (min ?el (of_nat (length s) - i)) = min (unat ?el) (length s - dep G u)"
      unfolding us [symmetric] by (simp add: min_def word_le_nat_alt)
    then show ?thesis using ls by simp
  qed
  have s1: "substr s (unat i) (unat ?el) = Some (edge_label t v)"
    using lt unfolding substr_def Cons.prems(3) s using gl ll(1) by simp
  have "St t v \<le> length (txt t)" using nv(3,4) b(1) by linarith
  then have s2: "substr (txt t) (St t v) (unat ?el) = Some (edge_label t v)"
    by (simp add: substr_def edge_label_def)
  have "find_loop t s v (i + ?el) = Some (Some S, 0)" using r' cf(5) ui by (rule Cons.IH)
  then show ?case
    by (subst find_loop.simps) (use lt si ch ul s1 s2 in \<open>simp add: Let_def\<close>)
qed

lemma find_represents:
  assumes run: "SuffixTree T = Some t"
  shows "find_internal_node t s = Some (Some S, 0) \<longleftrightarrow> represents t S s"
proof -
  from SuffixTree_FIN [OF run] obtain G where fin: "FIN G t" by blast
  have sh: "shape G (length (txt t)) t" using fin by (rule FIN_D(1))
  have rt: "0 < length (inodes t)" using sh by (rule shape_root_lt)
  have d0: "unat (0 :: u32) = dep G 0" using shape_bounds(4) [OF sh] by simp
  show ?thesis
  proof
    assume "find_internal_node t s = Some (Some S, 0)"
    then have "find_loop t s 0 0 = Some (Some S, 0)" by (simp add: find_internal_node_def root_def)
    from find_loop_sound [OF this sh rt d0] gstr_root [OF sh] shape_bounds(4) [OF sh]
    have "S < length (inodes t)" "gstr G t S = s" by simp_all
    with gstr_represents [OF sh] show "represents t S s" by auto
  next
    assume "represents t S s"
    then obtain cs where "descend t 0 (gstr G t 0) cs = Some (S, s)"
      unfolding represents_def root_def gstr_root [OF sh] by blast
    from find_loop_complete [OF sh this rt d0]
    show "find_internal_node t s = Some (Some S, 0)" by (simp add: find_internal_node_def root_def)
  qed
qed

section \<open>The scenarios of the specification, run on the code\<close>

text \<open>
  C4 (the code departs from the claim). In the text \<open>banana$\<close> the query \<open>bx\<close> does not
  occur, yet \<open>find_internal_node\<close> answers \<open>{nullptr, 1}\<close>, the answer for a query that
  occurs exactly once: once the descent reaches a leaf child keyed by the next byte of
  the query, the rest of the query is not compared with the label of the leaf edge.
\<close>

theorem find_internal_node_leaf_edge_unchecked:
  "build_find ''banana$'' ''bx'' = Some (None, 1)"
  unfolding build_find_def by code_simp

text \<open>
  C6, as the specification states it, fails: for the text \<open>aaaa$\<close> the lines printed by
  \<open>all_nf\<close> are not the single pair \<open>(a, 1)\<close>.
\<close>

theorem all_nf_aaaa_counterexample:
  "build_all_nf ''aaaa$'' \<noteq> Some [(''a'', 1)]"
  unfolding build_all_nf_def by code_simp

text \<open>
  C6, amended: for the text \<open>aaaa$\<close>, \<open>all_nf\<close> prints exactly one pair, namely
  \<open>(aaa, 2)\<close>, and no other pair.
\<close>

theorem all_nf_aaaa:
  "build_all_nf ''aaaa$'' = Some [(''aaa'', 2)]"
  unfolding build_all_nf_def by code_simp

text \<open>
  C7: for the text \<open>#abcdabybcdbxbcyabcd$\<close>, \<open>single_nf("abcd")\<close> returns 2 (the
  assertion of \<open>main\<close>).
\<close>

theorem single_nf_abcd:
  "build_single_nf ''#abcdabybcdbxbcyabcd$'' ''abcd'' = Some 2"
  unfolding build_single_nf_def by code_simp

section \<open>Claims about every constructed tree\<close>

text \<open>
  C1: for every sentinel-terminated text \<open>T\<close> on which the constructor returns a tree,
  and every query \<open>s\<close> that \<open>find_internal_node\<close> locates at an internal node
  \<open>S\<close> with zero remainder, \<open>single_nf(s)\<close> returns the net frequency of \<open>S\<close> as
  the specification defines it: the number of distinct bytes keying leaf children of
  \<open>S\<close>, minus one for each pair \<open>(xS, y)\<close> with \<open>xS\<close> in \<open>S.weiner_links\<close> and
  \<open>y\<close> keying a leaf child of both. The returned \<open>uint32_t\<close>, read as an integer, is
  that number itself, not only its residue modulo \<open>2^32\<close>. (On a constructed tree
  \<open>find_internal_node\<close> answers \<open>{S, 0}\<close> exactly when \<open>S\<close> represents \<open>s\<close>:
  lemma \<open>find_represents\<close>.)
\<close>

theorem single_nf_net_frequency:
  assumes "SuffixTree T = Some t" and "sentinel T"
    and "find_internal_node t s = Some (Some S, 0)"
  shows "\<exists>r. single_nf t s = Some r \<and> uint r = net_frequency t S"
  using assms by (rule single_nf_exact(1))

theorem single_nf_net_frequency_witness:
  "sentinel ''#abcdabybcdbxbcyabcd$'' \<and>
   build_find ''#abcdabybcdbxbcyabcd$'' ''bcd'' = Some (Some 3, 0) \<and>
   build_single_nf ''#abcdabybcdbxbcyabcd$'' ''bcd'' = Some 1 \<and>
   (\<exists>t. SuffixTree ''#abcdabybcdbxbcyabcd$'' = Some t \<and>
        weiner_links (inodes t ! 3) = [9] \<and>
        (\<exists>r. single_nf t ''bcd'' = Some r \<and> uint r = net_frequency t 3))"
proof -
  have s: "sentinel ''#abcdabybcdbxbcyabcd$''" by code_simp
  have "SuffixTree ''#abcdabybcdbxbcyabcd$'' \<noteq> None" by code_simp
  then obtain t where t: "SuffixTree ''#abcdabybcdbxbcyabcd$'' = Some t" by auto
  have f: "build_find ''#abcdabybcdbxbcyabcd$'' ''bcd'' = Some (Some 3, 0)"
    unfolding build_find_def by code_simp
  have v: "build_single_nf ''#abcdabybcdbxbcyabcd$'' ''bcd'' = Some 1"
    unfolding build_single_nf_def by code_simp
  have "map_option (\<lambda>t. weiner_links (inodes t ! 3)) (SuffixTree ''#abcdabybcdbxbcyabcd$'') = Some [9]"
    by code_simp
  with t have w: "weiner_links (inodes t ! 3) = [9]" by simp
  from f t have "find_internal_node t ''bcd'' = Some (Some 3, 0)"
    by (simp add: build_find_def)
  from single_nf_net_frequency [OF t s this] t s f v w show ?thesis by blast
qed

text \<open>
  C5, as the specification states it, fails: on the tree of \<open>abc$\<close>, \<open>single_nf\<close> of
  the empty query returns 4 (the root has the four leaf children \<open>a\<close>, \<open>b\<close>, \<open>c\<close>,
  \<open>$\<close> and no Weiner link), not 0.
\<close>

theorem single_nf_empty_counterexample:
  "build_single_nf ''abc$'' [] = Some 4 \<and> build_single_nf ''abc$'' [] \<noteq> Some 0"
  unfolding build_single_nf_def by code_simp

text \<open>
  C5, amended: for every constructed tree, \<open>single_nf\<close> applied to the empty query string
  returns, in \<open>uint32_t\<close> arithmetic (that is, reduced modulo \<open>2^32\<close>), the net
  frequency computed at the root: the number of distinct bytes keying leaf children of the
  root, minus one for each pair \<open>(x, y)\<close> with \<open>x\<close> in the root's \<open>weiner_links\<close>
  and \<open>y\<close> keying a leaf child of both \<open>x\<close> and the root. The reduction matters:
  the constructor also returns a tree for a text without a final sentinel, and there the
  subtraction can pass below zero and wrap around.
\<close>

theorem single_nf_empty_query:
  assumes "SuffixTree T = Some t"
  shows "single_nf t [] = Some (word_of_int (net_frequency t root))"
proof -
  from assms have "tree_wf t" by (auto dest: built_SuffixTree simp: built_def)
  then show ?thesis using find_internal_node_empty by (rule single_nf_closed_form)
qed

theorem single_nf_empty_query_witness:
  "\<exists>t. SuffixTree ''abc$'' = Some t \<and>
       single_nf t [] = Some (word_of_int (net_frequency t root))"
proof -
  have "SuffixTree ''abc$'' \<noteq> None" by code_simp
  then obtain t where t: "SuffixTree ''abc$'' = Some t" by auto
  from single_nf_empty_query [OF t] t show ?thesis by blast
qed

text \<open>
  C8, as the specification states it, fails: \<open>all_nf\<close> neither rejects a second call nor
  resets the \<open>nf\<close> fields. On the tree of \<open>aaaa$\<close> the \<open>nf\<close> fields of the four
  internal nodes are \<open>[2^32 - 1, 2, 0, 0]\<close> after one call and \<open>[2^32 - 2, 4, 0, 0]\<close>
  after two.
\<close>

theorem all_nf_twice_counterexample:
  "build_nf_fields 1 ''aaaa$'' = Some [4294967295, 2, 0, 0] \<and>
   build_nf_fields 2 ''aaaa$'' = Some [4294967294, 4, 0, 0] \<and>
   build_nf_fields 2 ''aaaa$'' \<noteq> build_nf_fields 1 ''aaaa$''"
  unfolding build_nf_fields_def by code_simp

text \<open>
  C8, amended: the accumulation pass accumulates on top of the values it finds. For every
  constructed tree on which \<open>all_nf\<close> returns, a second call returns as well and leaves
  every internal node's \<open>nf\<close> equal to twice its value after the first call (in
  \<open>uint32_t\<close> arithmetic).
\<close>

theorem all_nf_twice_doubles:
  assumes "SuffixTree T = Some t" and "all_nf t = Some (t1, out1)"
  shows "\<exists>t2 out2. all_nf t1 = Some (t2, out2) \<and>
           map nf (inodes t2) = map (\<lambda>n. 2 * n) (map nf (inodes t1))"
proof -
  from assms(1) have "tree_wf t" "nf_zero t"
    by (auto dest: built_SuffixTree simp: built_def)
  then show ?thesis using assms(2) by (rule all_nf_again)
qed

theorem all_nf_twice_doubles_witness:
  "\<exists>t t1 out1. SuffixTree ''aaaa$'' = Some t \<and> all_nf t = Some (t1, out1) \<and>
     (\<exists>t2 out2. all_nf t1 = Some (t2, out2) \<and>
        map nf (inodes t2) = map (\<lambda>n. 2 * n) (map nf (inodes t1)))"
proof -
  have "Option.bind (SuffixTree ''aaaa$'') all_nf \<noteq> None" by code_simp
  then obtain t r where t: "SuffixTree ''aaaa$'' = Some t" and "all_nf t = Some r"
    by (auto simp: Option.bind_eq_None_conv)
  then obtain t1 out1 where r: "all_nf t = Some (t1, out1)" by (cases r) auto
  from all_nf_twice_doubles [OF t r] t r show ?thesis by blast
qed

text \<open>
  C10: for every sentinel-terminated text \<open>T\<close> on which the constructor returns a tree,
  and every query \<open>s\<close> that \<open>find_internal_node\<close> locates at an internal node
  \<open>S\<close> with zero remainder (the empty query included), the number of decrements
  \<open>single_nf\<close> performs, one for each pair of a node \<open>xS\<close> of \<open>S.weiner_links\<close>
  and a byte \<open>y\<close> keying a leaf child of both \<open>xS\<close> and \<open>S\<close>, is at most the
  initial value \<open>|S.leaf_children|\<close> of the counter. The \<open>uint32_t\<close> counter never
  passes below zero, and the value returned is the difference of the two numbers.
\<close>

theorem single_nf_no_wrap:
  assumes "SuffixTree T = Some t" and "sentinel T"
    and "find_internal_node t s = Some (Some S, 0)"
  shows "decrements t S \<le> length (leaf_children (inodes t ! S)) \<and>
         (\<exists>r. single_nf t s = Some r \<and>
              unat r = length (leaf_children (inodes t ! S)) - decrements t S)"
proof -
  note e = single_nf_exact [OF assms]
  from e(1) obtain r where r: "single_nf t s = Some r" "uint r = net_frequency t S" by blast
  have le: "decrements t S \<le> length (leaf_children (inodes t ! S))" using e(2,3) by linarith
  have "int (unat r) = int (length (leaf_children (inodes t ! S)) - decrements t S)"
    using r(2) e(3) le by (simp add: of_nat_diff)
  then have "unat r = length (leaf_children (inodes t ! S)) - decrements t S" by (rule of_nat_eq_iff [THEN iffD1])
  with le r(1) show ?thesis by blast
qed

theorem single_nf_no_wrap_witness:
  "sentinel ''#abcdabybcdbxbcyabcd$'' \<and>
   (\<exists>t. SuffixTree ''#abcdabybcdbxbcyabcd$'' = Some t \<and>
        find_internal_node t ''bcd'' = Some (Some 3, 0) \<and>
        decrements t 3 = 2 \<and> length (leaf_children (inodes t ! 3)) = 3 \<and>
        decrements t 3 \<le> length (leaf_children (inodes t ! 3)) \<and>
        (\<exists>r. single_nf t ''bcd'' = Some r \<and>
             unat r = length (leaf_children (inodes t ! 3)) - decrements t 3))"
proof -
  have s: "sentinel ''#abcdabybcdbxbcyabcd$''" by code_simp
  have "SuffixTree ''#abcdabybcdbxbcyabcd$'' \<noteq> None" by code_simp
  then obtain t where t: "SuffixTree ''#abcdabybcdbxbcyabcd$'' = Some t" by auto
  have "build_find ''#abcdabybcdbxbcyabcd$'' ''bcd'' = Some (Some 3, 0)"
    unfolding build_find_def by code_simp
  with t have f: "find_internal_node t ''bcd'' = Some (Some 3, 0)"
    by (simp add: build_find_def)
  have "map_option (\<lambda>t. (decrements t 3, length (leaf_children (inodes t ! 3))))
      (SuffixTree ''#abcdabybcdbxbcyabcd$'') = Some (2, 3)"
    by code_simp
  with t have d: "decrements t 3 = 2" "length (leaf_children (inodes t ! 3)) = 3" by simp_all
  from single_nf_no_wrap [OF t s f] t s f d show ?thesis by blast
qed

text \<open>
  C9: on every tree the constructor returns, \<open>find_internal_node\<close> returns for every
  query \<open>s\<close>. Every internal node other than the root has \<open>start < end\<close>, so the edge
  length by which an iteration advances the index \<open>i\<close> is at least one.
\<close>

theorem find_internal_node_terminates:
  assumes "SuffixTree T = Some t"
  shows "(\<exists>r. find_internal_node t s = Some r) \<and>
         (\<forall>v<length (inodes t). v \<noteq> root \<longrightarrow>
            start (inodes t ! v) < end_idx (inodes t ! v) \<and> 1 \<le> edge_length (inodes t ! v))"
  using find_internal_node_total [OF assms] edges_nonempty [OF assms] by blast

theorem find_internal_node_terminates_witness:
  "\<exists>t. SuffixTree ''banana$'' = Some t \<and> length (inodes t) = 4 \<and>
     (\<exists>r. find_internal_node t ''nanx'' = Some r) \<and>
     (\<forall>v<length (inodes t). v \<noteq> root \<longrightarrow>
        start (inodes t ! v) < end_idx (inodes t ! v) \<and> 1 \<le> edge_length (inodes t ! v))"
proof -
  have "map_option (\<lambda>t. length (inodes t)) (SuffixTree ''banana$'') = Some 4" by code_simp
  then obtain t where t: "SuffixTree ''banana$'' = Some t" and n: "length (inodes t) = 4" by auto
  from find_internal_node_terminates [OF t, of "''nanx''"] t n show ?thesis by blast
qed

text \<open>
  C3: on every tree the constructor returns, every internal node \<open>u\<close> other than the
  root has a suffix link, and it points to the internal node that represents the string
  of \<open>u\<close> without its first byte (an internal node represents one string only, the
  concatenation of the edge labels on the path from the root). For every internal node
  \<open>u\<close>, the vector \<open>u.weiner_links\<close> has no duplicates, and \<open>v\<close> is one of its
  elements exactly when \<open>v\<close> is an internal node of the tree with
  \<open>v.suffix_link == u\<close>.
\<close>

theorem suffix_and_weiner_links:
  assumes "SuffixTree T = Some t"
  shows "(\<forall>u<length (inodes t). u \<noteq> root \<longrightarrow>
            (\<exists>v<length (inodes t). suffix_link (inodes t ! u) = Some v \<and>
               (\<exists>x w. represents t u (x # w) \<and> represents t v w))) \<and>
         (\<forall>u w w'. represents t u w \<longrightarrow> represents t u w' \<longrightarrow> w = w') \<and>
         (\<forall>u<length (inodes t).
            distinct (weiner_links (inodes t ! u)) \<and>
            (\<forall>v. v \<in> set (weiner_links (inodes t ! u)) \<longleftrightarrow>
                  v < length (inodes t) \<and> suffix_link (inodes t ! v) = Some u))"
proof -
  note l = suffix_links_built [OF assms]
  have "v \<in> set (weiner_links (inodes t ! u)) \<longleftrightarrow>
        v < length (inodes t) \<and> suffix_link (inodes t ! v) = Some u"
    if "u < length (inodes t)" for u v
    using l(4) [OF that] l(6) [OF that] by blast
  then show ?thesis using l(1,3,5) by blast
qed

theorem suffix_and_weiner_links_witness:
  "\<exists>t. SuffixTree ''banana$'' = Some t \<and>
     map (\<lambda>n. suffix_link n) (inodes t) = [None, Some 2, Some 3, Some 0] \<and>
     map (\<lambda>n. weiner_links n) (inodes t) = [[3], [], [1], [2]] \<and>
     represents t 1 ''ana'' \<and> represents t 2 ''na'' \<and> represents t 3 ''a'' \<and>
     (\<forall>u<length (inodes t). u \<noteq> root \<longrightarrow>
        (\<exists>v<length (inodes t). suffix_link (inodes t ! u) = Some v \<and>
           (\<exists>x w. represents t u (x # w) \<and> represents t v w))) \<and>
     (\<forall>u w w'. represents t u w \<longrightarrow> represents t u w' \<longrightarrow> w = w') \<and>
     (\<forall>u<length (inodes t).
        distinct (weiner_links (inodes t ! u)) \<and>
        (\<forall>v. v \<in> set (weiner_links (inodes t ! u)) \<longleftrightarrow>
              v < length (inodes t) \<and> suffix_link (inodes t ! v) = Some u))"
proof -
  have "map_option (\<lambda>t. (map (\<lambda>n. suffix_link n) (inodes t), map (\<lambda>n. weiner_links n) (inodes t),
          descend t root [] ''an'', descend t root [] ''n'', descend t root [] ''a''))
        (SuffixTree ''banana$'') =
        Some ([None, Some 2, Some 3, Some 0], [[3], [], [1], [2]],
              Some (1, ''ana''), Some (2, ''na''), Some (3, ''a''))"
    by code_simp
  then obtain t where t: "SuffixTree ''banana$'' = Some t"
    and a: "map (\<lambda>n. suffix_link n) (inodes t) = [None, Some 2, Some 3, Some 0]"
      "map (\<lambda>n. weiner_links n) (inodes t) = [[3], [], [1], [2]]"
    and d: "descend t root [] ''an'' = Some (1, ''ana'')" "descend t root [] ''n'' = Some (2, ''na'')"
      "descend t root [] ''a'' = Some (3, ''a'')"
    by auto
  from d have r: "represents t 1 ''ana''" "represents t 2 ''na''" "represents t 3 ''a''"
    unfolding represents_def by blast+
  note c = suffix_and_weiner_links [OF t]
  note c1 = c [THEN conjunct1] and c2 = c [THEN conjunct2, THEN conjunct1]
    and c3 = c [THEN conjunct2, THEN conjunct2]
  show ?thesis by (intro exI [of _ t] conjI t a r c1 c2 c3)
qed

text \<open>
  C2, as the specification states it, fails at the empty query. In the tree of \<open>abc$\<close>
  the empty query is located at the root with zero remainder and \<open>single_nf\<close> returns 4
  for it, while \<open>all_nf\<close>, which starts at the children of the root and never processes
  the root itself, leaves the \<open>nf\<close> field of the root (the only internal node) at 0.
\<close>

theorem single_nf_all_nf_empty_counterexample:
  "build_find ''abc$'' [] = Some (Some 0, 0) \<and>
   build_single_nf ''abc$'' [] = Some 4 \<and>
   build_nf_fields 1 ''abc$'' = Some [0]"
  unfolding build_find_def build_single_nf_def build_nf_fields_def by code_simp

text \<open>
  C2, amended: for every text on which the constructor returns a tree and every
  non-empty query \<open>s\<close>, the first call of \<open>all_nf\<close> on the tree returns, and
  \<open>single_nf(s)\<close> equals the \<open>nf\<close> value that the accumulation pass of that call
  leaves at the internal node representing \<open>s\<close> when there is one (\<open>s\<close> is
  branching), and equals 0 when no internal node represents \<open>s\<close>.
\<close>

theorem single_nf_matches_all_nf:
  assumes "SuffixTree T = Some t" and "s \<noteq> []"
  shows "\<exists>t' out. all_nf t = Some (t', out) \<and>
           (\<forall>S. represents t S s \<longrightarrow> single_nf t s = Some (nf (inodes t' ! S))) \<and>
           ((\<forall>S. \<not> represents t S s) \<longrightarrow> single_nf t s = Some 0)"
proof -
  from all_nf_total [OF assms(1)] obtain t' out where a: "all_nf t = Some (t', out)" by blast
  have 1: "single_nf t s = Some (nf (inodes t' ! S))" if "represents t S s" for S
  proof -
    from that have "find_internal_node t s = Some (Some S, 0)"
      by (simp add: find_represents [OF assms(1)])
    with assms(1) a show ?thesis using assms(2) by (rule all_nf_value)
  qed
  have 2: "single_nf t s = Some 0" if n: "\<forall>S. \<not> represents t S s"
  proof -
    from find_internal_node_total [OF assms(1)] obtain r where r: "find_internal_node t s = Some r"
      by blast
    obtain S l where rr: "r = (S, l)" by (cases r)
    show ?thesis
    proof (cases S)
      case None
      with r rr show ?thesis by (simp add: single_nf_def)
    next
      case (Some S')
      have "l \<noteq> 0"
      proof
        assume "l = 0"
        with r rr Some have "represents t S' s" by (simp add: find_represents [OF assms(1)])
        with n show False by simp
      qed
      with r rr Some show ?thesis by (simp add: single_nf_def)
    qed
  qed
  from a 1 2 show ?thesis by blast
qed

theorem single_nf_matches_all_nf_witness:
  "''bcd'' \<noteq> [] \<and>
   build_single_nf ''#abcdabybcdbxbcyabcd$'' ''bcd'' = Some 1 \<and>
   map_option (\<lambda>fs. fs ! 3) (build_nf_fields 1 ''#abcdabybcdbxbcyabcd$'') = Some 1 \<and>
   (\<exists>t. SuffixTree ''#abcdabybcdbxbcyabcd$'' = Some t \<and> represents t 3 ''bcd'' \<and>
      (\<exists>t' out. all_nf t = Some (t', out) \<and>
         (\<forall>S. represents t S ''bcd'' \<longrightarrow> single_nf t ''bcd'' = Some (nf (inodes t' ! S))) \<and>
         ((\<forall>S. \<not> represents t S ''bcd'') \<longrightarrow> single_nf t ''bcd'' = Some 0)))"
proof -
  have n: "''bcd'' \<noteq> []" by simp
  have v: "build_single_nf ''#abcdabybcdbxbcyabcd$'' ''bcd'' = Some 1"
    unfolding build_single_nf_def by code_simp
  have w: "map_option (\<lambda>fs. fs ! 3) (build_nf_fields 1 ''#abcdabybcdbxbcyabcd$'') = Some 1"
    unfolding build_nf_fields_def by code_simp
  have "map_option (\<lambda>t. descend t root [] ''bcd'') (SuffixTree ''#abcdabybcdbxbcyabcd$'') =
      Some (Some (3, ''bcd''))"
    by code_simp
  then obtain t where t: "SuffixTree ''#abcdabybcdbxbcyabcd$'' = Some t"
    and d: "descend t root [] ''bcd'' = Some (3, ''bcd'')" by auto
  from d have r: "represents t 3 ''bcd''" unfolding represents_def by blast
  note c = single_nf_matches_all_nf [OF t n]
  have e: "SuffixTree ''#abcdabybcdbxbcyabcd$'' = Some t \<and> represents t 3 ''bcd'' \<and>
      (\<exists>t' out. all_nf t = Some (t', out) \<and>
         (\<forall>S. represents t S ''bcd'' \<longrightarrow> single_nf t ''bcd'' = Some (nf (inodes t' ! S))) \<and>
         ((\<forall>S. \<not> represents t S ''bcd'') \<longrightarrow> single_nf t ''bcd'' = Some 0))"
    by (intro conjI t r c)
  show ?thesis by (intro conjI n v w exI [of _ t] e)
qed

end
